(* ===== verification/Prelude.thy ===== *)
theory Prelude
  imports Main "HOL-Library.Word"
begin

text \<open>
  Shared vocabulary of the development: the machine types the server uses, the outcome type
  of C++ code that may throw or run into undefined behaviour, byte-order helpers, the ordered
  table that stands for \<open>std::map<int, T>\<close>, and list lemmas used by several components.
\<close>

unbundle bit_operations_syntax

section \<open>Machine types and outcomes\<close>

type_synonym u8 = "8 word"
type_synonym u16 = "16 word"
type_synonym u32 = "32 word"
type_synonym u64 = "64 word"
type_synonym bytes = "8 word list"

text \<open>
  The exceptions the sources throw: \<open>std::runtime_error\<close> and \<open>std::out_of_range\<close> with their
  message, \<open>std::length_error\<close> from an oversized \<open>std::vector\<close>, and the exceptions of yaml-cpp
  with the text of \<open>what()\<close>.
\<close>

datatype exn = RuntimeError string | OutOfRange string | LengthError | YamlException string

text \<open>
  A statement sequence either yields a value, throws an exception, or executes an operation the
  C++ standard leaves undefined.
\<close>

datatype fault = Throw exn | UB

type_synonym 'a outcome = "fault + 'a"

named_theorems wire_simps \<open>byte order: encoding and decoding of fixed width integers\<close>
named_theorems frame_simps \<open>incremental parsing of a receive buffer\<close>

section \<open>Sequencing of fallible code\<close>

definition bindr :: "'e + 'a \<Rightarrow> ('a \<Rightarrow> 'e + 'b) \<Rightarrow> 'e + 'b" where
  "bindr m f = (case m of Inl e \<Rightarrow> Inl e | Inr a \<Rightarrow> f a)"

lemma bindr_simps [simp]:
  "bindr (Inl e) f = Inl e"
  "bindr (Inr a) f = f a"
  by (simp_all add: bindr_def)

lemma bindr_Inr_iff: "bindr m f = Inr b \<longleftrightarrow> (\<exists>a. m = Inr a \<and> f a = Inr b)"
  by (cases m) simp_all

lemma bindr_InrE [elim!]:
  assumes "bindr m f = Inr b"
  obtains a where "m = Inr a" and "f a = Inr b"
  using assms by (auto simp: bindr_Inr_iff)

text \<open>The loop \<open>for (x : xs) ys.push_back(f(x))\<close> whose body may fail.\<close>

fun mapr :: "('a \<Rightarrow> 'e + 'b) \<Rightarrow> 'a list \<Rightarrow> 'e + 'b list" where
  "mapr f [] = Inr []"
| "mapr f (x # xs) = bindr (f x) (\<lambda>y. bindr (mapr f xs) (\<lambda>ys. Inr (y # ys)))"

lemma mapr_Inr_iff: "mapr f xs = Inr ys \<longleftrightarrow> list_all2 (\<lambda>x y. f x = Inr y) xs ys"
  by (induction xs arbitrary: ys) (auto simp: bindr_Inr_iff list_all2_Cons1)

lemma mapr_Inr_length: "mapr f xs = Inr ys \<Longrightarrow> length ys = length xs"
  by (auto simp: mapr_Inr_iff dest: list_all2_lengthD)

section \<open>Byte order\<close>

text \<open>
  A \<open>uint32_t\<close> copied by \<open>memcpy\<close> on the little-endian hosts the server targets, and the
  big-endian integers the rtl_tcp and WebSocket framings build by shifting.
\<close>

definition le32 :: "u32 \<Rightarrow> bytes" where
  "le32 w = [ucast w, ucast (drop_bit 8 w), ucast (drop_bit 16 w), ucast (drop_bit 24 w)]"

definition of_le32 :: "u8 \<Rightarrow> u8 \<Rightarrow> u8 \<Rightarrow> u8 \<Rightarrow> u32" where
  "of_le32 a b c d = ucast a OR push_bit 8 (ucast b) OR push_bit 16 (ucast c) OR push_bit 24 (ucast d)"

definition be32 :: "u32 \<Rightarrow> bytes" where
  "be32 w = [ucast (drop_bit 24 w), ucast (drop_bit 16 w), ucast (drop_bit 8 w), ucast w]"

definition of_be32 :: "u8 \<Rightarrow> u8 \<Rightarrow> u8 \<Rightarrow> u8 \<Rightarrow> u32" where
  "of_be32 a b c d = push_bit 24 (ucast a) OR push_bit 16 (ucast b) OR push_bit 8 (ucast c) OR ucast d"

lemma length_le32 [simp]: "length (le32 w) = 4"
  by (simp add: le32_def)

lemma length_be32 [simp]: "length (be32 w) = 4"
  by (simp add: be32_def)

lemma of_le32_inverse [wire_simps]:
  "of_le32 (ucast w) (ucast (drop_bit 8 w)) (ucast (drop_bit 16 w)) (ucast (drop_bit 24 w)) = w"
proof (rule bit_word_eqI)
  fix n assume "n < LENGTH(32)"
  then consider "n < 8" | "8 \<le> n" "n < 16" | "16 \<le> n" "n < 24" | "24 \<le> n" "n < 32"
    by force
  then show "bit (of_le32 (ucast w) (ucast (drop_bit 8 w)) (ucast (drop_bit 16 w))
      (ucast (drop_bit 24 w))) n \<longleftrightarrow> bit w n"
    by cases (auto simp: of_le32_def bit_simps)
qed

lemma of_be32_le32: "of_be32 a b c d = of_le32 d c b a"
  by (simp add: of_be32_def of_le32_def ac_simps)

lemma of_be32_inverse [wire_simps]:
  "of_be32 (ucast (drop_bit 24 w)) (ucast (drop_bit 16 w)) (ucast (drop_bit 8 w)) (ucast w) = w"
  by (simp add: of_be32_le32 of_le32_inverse)

text \<open>The consecutive \<open>uint32_t\<close> fields of a packed struct.\<close>

definition pack32 :: "u32 list \<Rightarrow> bytes" where
  "pack32 ws = concat (map le32 ws)"

fun unpack32 :: "nat \<Rightarrow> bytes \<Rightarrow> u32 list option" where
  "unpack32 0 bs = Some []"
| "unpack32 (Suc n) (a # b # c # d # bs) =
     (case unpack32 n bs of None \<Rightarrow> None | Some ws \<Rightarrow> Some (of_le32 a b c d # ws))"
| "unpack32 (Suc n) bs = None"

lemma length_pack32 [simp]: "length (pack32 ws) = 4 * length ws"
  by (induction ws) (simp_all add: pack32_def)

lemma unpack32_pack32 [wire_simps]: "unpack32 (length ws) (pack32 ws @ rest) = Some ws"
  by (induction ws) (simp_all add: pack32_def le32_def of_le32_inverse)

lemma unpack32_length: "unpack32 n bs = Some ws \<Longrightarrow> length ws = n"
  by (induction n bs arbitrary: ws rule: unpack32.induct) (auto split: option.splits)

lemma unpack32_total: "4 * n \<le> length bs \<Longrightarrow> \<exists>ws. unpack32 n bs = Some ws"
proof (induction n arbitrary: bs)
  case 0
  then show ?case by simp
next
  case (Suc n)
  then obtain a b c d bs' where "bs = a # b # c # d # bs'"
    by (auto simp: Suc_le_length_iff numeral_eq_Suc)
  with Suc.prems Suc.IH [of bs'] show ?case by auto
qed

lemma unpack32_append: "unpack32 n bs = Some ws \<Longrightarrow> unpack32 n (bs @ ext) = Some ws"
  by (induction n bs arbitrary: ws rule: unpack32.induct) (auto split: option.splits)

section \<open>Ordered tables\<close>

text \<open>
  \<open>std::map<int, T>\<close> as the list of its entries in key order: \<open>operator[]\<close> assignment,
  \<open>find\<close> and \<open>erase\<close>. Iteration over the map visits the entries from front to back.
\<close>

type_synonym 'v table = "(int \<times> 'v) list"

fun tput :: "int \<Rightarrow> 'v \<Rightarrow> 'v table \<Rightarrow> 'v table" where
  "tput k v [] = [(k, v)]"
| "tput k v ((k', v') # t) =
     (if k < k' then (k, v) # (k', v') # t
      else if k = k' then (k, v) # t
      else (k', v') # tput k v t)"

definition tget :: "int \<Rightarrow> 'v table \<Rightarrow> 'v option" where
  "tget k t = map_of t k"

definition tdel :: "int \<Rightarrow> 'v table \<Rightarrow> 'v table" where
  "tdel k t = filter (\<lambda>e. fst e \<noteq> k) t"

definition tsorted :: "'v table \<Rightarrow> bool" where
  "tsorted t = sorted_wrt (<) (map fst t)"

lemma tkeys_tput [simp]: "fst ` set (tput k v t) = insert k (fst ` set t)"
  by (induction k v t rule: tput.induct) auto

lemma tsorted_Nil [simp]: "tsorted []"
  by (simp add: tsorted_def)

lemma tsorted_Cons: "tsorted (e # t) \<longleftrightarrow> (\<forall>k \<in> fst ` set t. fst e < k) \<and> tsorted t"
  by (simp add: tsorted_def)

lemma tsorted_tput: "tsorted t \<Longrightarrow> tsorted (tput k v t)"
  by (induction k v t rule: tput.induct) (auto simp: tsorted_Cons)

lemma tsorted_tdel: "tsorted t \<Longrightarrow> tsorted (tdel k t)"
  by (induction t) (auto simp: tdel_def tsorted_Cons)

lemma tget_tput: "tsorted t \<Longrightarrow> tget k' (tput k v t) = (if k' = k then Some v else tget k' t)"
  by (induction k v t rule: tput.induct) (auto simp: tget_def tsorted_Cons)

lemma tget_tdel: "tget k' (tdel k t) = (if k' = k then None else tget k' t)"
  by (induction t) (auto simp: tget_def tdel_def)

lemma tget_None_iff: "tget k t = None \<longleftrightarrow> k \<notin> fst ` set t"
  by (simp add: tget_def map_of_eq_None_iff)

lemma tget_map_snd: "tget k (map (\<lambda>(k, v). (k, f k v)) t) = map_option (f k) (tget k t)"
  by (induction t) (auto simp: tget_def)

lemma tsorted_map_snd [simp]: "tsorted (map (\<lambda>(k, v). (k, f k v)) t) = tsorted t"
proof -
  have "map fst (map (\<lambda>(k, v). (k, f k v)) t) = map fst t"
    by (induction t) auto
  then show ?thesis by (simp only: tsorted_def)
qed

section \<open>Decimal text\<close>

fun nat_digits :: "nat \<Rightarrow> string" where
  "nat_digits n =
     (if n < 10 then [char_of (48 + n)] else nat_digits (n div 10) @ [char_of (48 + n mod 10)])"

declare nat_digits.simps [simp del]

text \<open>\<open>std::to_string\<close> of an integer.\<close>

definition show_int :: "int \<Rightarrow> string" where
  "show_int i = (if i < 0 then ''-'' @ nat_digits (nat (- i)) else nat_digits (nat i))"

section \<open>Lists\<close>

text \<open>Reads with a bounds check: C++ reads past the end of a buffer are undefined.\<close>

definition read_at :: "'a list \<Rightarrow> nat \<Rightarrow> 'a option" where
  "read_at xs i = (if i < length xs then Some (xs ! i) else None)"

lemma read_at_Some [simp]: "i < length xs \<Longrightarrow> read_at xs i = Some (xs ! i)"
  by (simp add: read_at_def)

text \<open>The last \<open>n\<close> elements.\<close>

definition lastn :: "nat \<Rightarrow> 'a list \<Rightarrow> 'a list" where
  "lastn n xs = drop (length xs - n) xs"

lemma length_lastn [simp]: "length (lastn n xs) = min n (length xs)"
  by (simp add: lastn_def)

lemma lastn_append_right: "n \<le> length ys \<Longrightarrow> lastn n (xs @ ys) = lastn n ys"
  by (simp add: lastn_def)

lemma lastn_lastn_append: "lastn n (lastn n xs @ ys) = lastn n (xs @ ys)"
  by (cases "n \<le> length ys") (auto simp: lastn_def drop_drop intro!: arg_cong2 [where f = drop])

lemma lastn_all [simp]: "length xs \<le> n \<Longrightarrow> lastn n xs = xs"
  by (simp add: lastn_def)

end
