(* ===== verification/Ieee.thy ===== *)
theory Ieee
  imports Complex_Main "HOL-Library.Log_Nat" Prelude
begin

text \<open>
  The C++ types \<open>float\<close> and \<open>double\<close>: IEEE 754 binary32 and binary64 values with round to
  nearest, ties to even. A value is a NaN, an infinity (\<open>PInf\<close>, \<open>NInf\<close>) or a finite rational;
  the operations compute the exact rational result and round it to the format, so the model
  evaluates to the digits the hardware produces. The sign of a zero is not represented: the
  program divides only by sample rates it has checked, by the sum of the filter taps and by the
  magnitude of the mixer's phasor. Expressions are evaluated in the types the source gives
  them, without contraction into fused multiply-adds.

  The laws every format obeys (rounding is monotone, exact on representable values, and its
  results are representable) are proved once in the locale \<open>fp_format\<close> and interpreted for
  both formats.
\<close>

section \<open>Formats and rounding\<close>

datatype fp = NaN | PInf | NInf | Fin rat

record fmt =
  prec :: nat  \<comment> \<open>significand bits\<close>
  qmin :: int  \<comment> \<open>exponent of the least subnormal\<close>
  emax :: int  \<comment> \<open>finite values are below \<open>2 ^ emax\<close>\<close>

definition binary32 :: fmt where
  "binary32 = \<lparr>prec = 24, qmin = -149, emax = 128\<rparr>"

definition binary64 :: fmt where
  "binary64 = \<lparr>prec = 53, qmin = -1074, emax = 1024\<rparr>"

definition ilog2 :: "rat \<Rightarrow> int" where
  "ilog2 x = (case quotient_of x of (n, d) \<Rightarrow>
     let k = bitlen n - bitlen d in if 2 powi k \<le> x then k else k - 1)"

definition rne :: "rat \<Rightarrow> int" where
  "rne x = (let f = \<lfloor>x\<rfloor>; r = x - of_int f in
     if r < 1 / 2 then f else if 1 / 2 < r then f + 1 else if even f then f else f + 1)"

definition quantum :: "fmt \<Rightarrow> rat \<Rightarrow> int" where
  "quantum F x = max (qmin F) (ilog2 \<bar>x\<bar> - (int (prec F) - 1))"

definition nearest :: "fmt \<Rightarrow> rat \<Rightarrow> rat" where
  "nearest F x = (if x = 0 then 0
     else let q = quantum F x in of_int (rne (x / 2 powi q)) * 2 powi q)"

definition fpround :: "fmt \<Rightarrow> rat \<Rightarrow> fp" where
  "fpround F x = (let y = nearest F x in
     if 2 powi (emax F) \<le> y then PInf else if y \<le> - (2 powi (emax F)) then NInf else Fin y)"

text \<open>The finite values of a format.\<close>

definition representable :: "fmt \<Rightarrow> rat \<Rightarrow> bool" where
  "representable F x \<longleftrightarrow> \<bar>x\<bar> < 2 powi (emax F) \<and>
     (\<exists>m q. x = of_int m * 2 powi q \<and> \<bar>m\<bar> \<le> 2 ^ prec F \<and> qmin F \<le> q)"

lemma representableI:
  "\<bar>of_int m * 2 powi q\<bar> < (2::rat) powi (emax F) \<Longrightarrow> \<bar>m\<bar> \<le> 2 ^ prec F \<Longrightarrow> qmin F \<le> q \<Longrightarrow>
   representable F (of_int m * 2 powi q)"
  unfolding representable_def by blast

section \<open>Binary logarithm\<close>

lemma powi_nat_int: "(2::rat) ^ nat k = 2 powi k" if "0 \<le> k"
  using that by (simp add: power_int_def)

lemma ilog2_bounds:
  assumes "0 < x"
  shows "2 powi (ilog2 x) \<le> x" and "x < 2 powi (ilog2 x + 1)"
proof -
  obtain n d where q: "quotient_of x = (n, d)" by fastforce
  have d: "0 < d" using q by (rule quotient_of_denom_pos)
  have x: "x = of_int n / of_int d" using q by (rule quotient_of_div)
  have n: "0 < n" using assms x d by (simp add: zero_less_divide_iff)
  have bits: "1 \<le> bitlen i" if "0 < i" for i
    using that bitlen_nonneg [of i] bitlen_eq_zero_iff [of i] by linarith
  have lo: "2 powi (bitlen i - 1) \<le> (of_int i :: rat)" if "0 < i" for i
    using bitlen_bounds [OF that] bits [OF that] powi_nat_int [of "bitlen i - 1"]
    by (metis of_int_le_iff of_int_numeral of_int_power diff_ge_0_iff_ge)
  have hi: "(of_int i :: rat) < 2 powi (bitlen i)" if "0 < i" for i
    using bitlen_bounds [OF that] bits [OF that] powi_nat_int [of "bitlen i"] bitlen_nonneg
    by (metis of_int_less_iff of_int_numeral of_int_power)
  define k where "k = bitlen n - bitlen d"
  have low: "2 powi (k - 1) < x"
  proof -
    have "2 powi (k - 1) * of_int d < (2::rat) powi (k - 1) * 2 powi (bitlen d)"
      using hi [OF d] by (intro mult_strict_left_mono) auto
    also have "\<dots> = 2 powi (bitlen n - 1)"
      by (simp add: k_def flip: power_int_add)
    also have "\<dots> \<le> of_int n" by (rule lo [OF n])
    finally show ?thesis using d by (simp add: x pos_less_divide_eq)
  qed
  have high: "x < 2 powi (k + 1)"
  proof -
    have "of_int n < (2::rat) powi (bitlen n)" by (rule hi [OF n])
    also have "\<dots> = 2 powi (k + 1) * 2 powi (bitlen d - 1)"
      by (simp add: k_def flip: power_int_add)
    also have "\<dots> \<le> 2 powi (k + 1) * of_int d"
      using lo [OF d] by (intro mult_left_mono) auto
    finally show ?thesis using d by (simp add: x pos_divide_less_eq)
  qed
  have "ilog2 x = (if 2 powi k \<le> x then k else k - 1)"
    by (simp add: ilog2_def q k_def)
  then show "2 powi (ilog2 x) \<le> x" and "x < 2 powi (ilog2 x + 1)"
    using low high by auto
qed

lemma powi_less_iff [simp]: "(2::rat) powi a < 2 powi b \<longleftrightarrow> a < b"
  using power_int_strict_increasing [of a b "2::rat"] power_int_increasing [of b a "2::rat"]
  by (cases "a < b") auto

lemma powi_le_iff [simp]: "(2::rat) powi a \<le> 2 powi b \<longleftrightarrow> a \<le> b"
  using powi_less_iff [of b a] by (simp only: not_less [symmetric])

lemma ilog2_less: "0 < x \<Longrightarrow> x < 2 powi k \<Longrightarrow> ilog2 x < k"
  using ilog2_bounds(1) [of x] powi_less_iff [of "ilog2 x" k] by linarith

lemma ilog2_ge: "0 < x \<Longrightarrow> 2 powi k \<le> x \<Longrightarrow> k \<le> ilog2 x"
  using ilog2_bounds(2) [of x] powi_less_iff [of k "ilog2 x + 1"] by linarith

lemma ilog2_mono: "0 < x \<Longrightarrow> x \<le> y \<Longrightarrow> ilog2 x \<le> ilog2 y"
  using ilog2_bounds(1) [of x] by (intro ilog2_ge) auto

section \<open>Rounding to integers\<close>

lemma rne_of_int [simp]: "rne (of_int n) = n"
  by (simp add: rne_def)

lemma rne_floor: "rne x = \<lfloor>x\<rfloor> \<or> rne x = \<lfloor>x\<rfloor> + 1"
  by (simp add: rne_def Let_def)

lemma rne_error: "\<bar>of_int (rne x) - x\<bar> \<le> 1 / 2"
proof -
  have "of_int \<lfloor>x\<rfloor> \<le> x" "x < of_int \<lfloor>x\<rfloor> + 1" by linarith+
  then show ?thesis by (simp add: rne_def Let_def abs_if) linarith
qed

lemma rne_mono:
  assumes "x \<le> y" shows "rne x \<le> rne y"
proof (cases "\<lfloor>x\<rfloor> = \<lfloor>y\<rfloor>")
  case True
  then show ?thesis using assms by (auto simp: rne_def Let_def)
next
  case False
  with floor_mono [OF assms] have "\<lfloor>x\<rfloor> + 1 \<le> \<lfloor>y\<rfloor>" by linarith
  then show ?thesis using rne_floor [of x] rne_floor [of y] by linarith
qed

lemma rne_le: "x \<le> of_int n \<Longrightarrow> rne x \<le> n"
  using rne_mono [of x "of_int n"] by simp

lemma rne_ge: "of_int n \<le> x \<Longrightarrow> n \<le> rne x"
  using rne_mono [of "of_int n" x] by simp

lemma rne_uminus: "rne (- x) = - rne x"
proof (cases "x = of_int \<lfloor>x\<rfloor>")
  case True
  then show ?thesis by (metis of_int_minus rne_of_int)
next
  case False
  then have "of_int \<lfloor>x\<rfloor> < x" using of_int_floor_le [of x] by linarith
  moreover have "x < of_int \<lfloor>x\<rfloor> + 1" by linarith
  ultimately have c: "\<lfloor>- x\<rfloor> = - \<lfloor>x\<rfloor> - 1"
    by (intro floor_unique) simp_all
  have r: "- x - of_int \<lfloor>- x\<rfloor> = 1 - (x - of_int \<lfloor>x\<rfloor>)" by (simp add: c)
  show ?thesis unfolding rne_def Let_def r by (auto simp: c)
qed

section \<open>The laws of a format\<close>

locale fp_format =
  fixes F :: fmt
  assumes prec_pos: "1 \<le> prec F"
    and exponent_range: "qmin F + int (prec F) \<le> emax F"
begin

lemma quantum_mono: "0 < x \<Longrightarrow> x \<le> y \<Longrightarrow> quantum F x \<le> quantum F y"
  using ilog2_mono [of x y] by (auto simp: quantum_def)

lemma scaled_power:
  assumes "q \<le> k"
  shows "(2::rat) powi k / 2 powi q = of_int (2 ^ nat (k - q))"
proof -
  have "(2::rat) powi k / 2 powi q = 2 powi (k - q)"
    by (simp add: power_int_diff)
  also have "\<dots> = of_int (2 ^ nat (k - q))"
    using assms powi_nat_int [of "k - q"] by simp
  finally show ?thesis .
qed

lemma nearest_le_power:
  assumes "0 < x" and "x \<le> 2 powi k" and "quantum F x \<le> k"
  shows "nearest F x \<le> 2 powi k"
proof -
  let ?q = "quantum F x"
  have "x / 2 powi ?q \<le> 2 powi k / 2 powi ?q"
    using assms(2) by (intro divide_right_mono) auto
  then have "rne (x / 2 powi ?q) \<le> 2 ^ nat (k - ?q)"
    unfolding scaled_power [OF assms(3)] by (rule rne_le)
  then have "of_int (rne (x / 2 powi ?q)) \<le> (2::rat) powi k / 2 powi ?q"
    unfolding scaled_power [OF assms(3)] by linarith
  then show ?thesis using assms(1) by (simp add: nearest_def Let_def pos_le_divide_eq)
qed

lemma nearest_ge_power:
  assumes "0 < x" and "2 powi k \<le> x" and "quantum F x \<le> k"
  shows "2 powi k \<le> nearest F x"
proof -
  let ?q = "quantum F x"
  have "2 powi k / 2 powi ?q \<le> x / 2 powi ?q"
    using assms(2) by (intro divide_right_mono) auto
  then have "2 ^ nat (k - ?q) \<le> rne (x / 2 powi ?q)"
    unfolding scaled_power [OF assms(3)] by (rule rne_ge)
  then have "(2::rat) powi k / 2 powi ?q \<le> of_int (rne (x / 2 powi ?q))"
    unfolding scaled_power [OF assms(3)] by linarith
  then show ?thesis using assms(1) by (simp add: nearest_def Let_def pos_divide_le_eq)
qed

lemma nearest_uminus [simp]: "nearest F (- x) = - nearest F x"
  by (simp add: nearest_def quantum_def Let_def rne_uminus)

lemma nearest_nonneg: "0 \<le> x \<Longrightarrow> 0 \<le> nearest F x"
  using rne_ge [of 0 "x / 2 powi (quantum F x)"]
  by (simp add: nearest_def Let_def)

lemma nearest_mono_pos:
  assumes "0 < x" and "x \<le> y"
  shows "nearest F x \<le> nearest F y"
proof (cases "quantum F x = quantum F y")
  case True
  have "rne (x / 2 powi (quantum F y)) \<le> rne (y / 2 powi (quantum F y))"
    using assms by (intro rne_mono divide_right_mono) auto
  then show ?thesis using assms True by (simp add: nearest_def Let_def)
next
  case False
  define k where "k = ilog2 y"
  have y: "0 < y" using assms by linarith
  have less: "quantum F x < quantum F y"
    using quantum_mono [OF assms] False by linarith
  then have qy: "quantum F y = k - (int (prec F) - 1)" and lx: "ilog2 x < k"
    using assms y by (auto simp: quantum_def k_def)
  have "x \<le> 2 powi k"
    using ilog2_bounds(2) [OF assms(1)] lx powi_le_iff [of "ilog2 x + 1" k] by linarith
  then have "nearest F x \<le> 2 powi k"
    using assms(1) less qy prec_pos by (intro nearest_le_power) auto
  also have "2 powi k \<le> nearest F y"
    using y qy prec_pos ilog2_bounds(1) [OF y] by (intro nearest_ge_power) (auto simp: k_def)
  finally show ?thesis .
qed

lemma nearest_mono:
  assumes "x \<le> y" shows "nearest F x \<le> nearest F y"
proof -
  consider "0 < x" | "x \<le> 0" "0 \<le> y" | "y < 0" by linarith
  then show ?thesis
  proof cases
    case 1
    then show ?thesis using assms by (rule nearest_mono_pos)
  next
    case 2
    then show ?thesis
      using nearest_nonneg [of y] nearest_nonneg [of "- x"] by simp
  next
    case 3
    then show ?thesis using nearest_mono_pos [of "- y" "- x"] assms by simp
  qed
qed

text \<open>Values on the format's grid are not changed by rounding.\<close>

lemma nearest_grid:
  assumes "\<bar>m\<bar> \<le> 2 ^ prec F" and "qmin F \<le> q"
  shows "nearest F (of_int m * 2 powi q) = of_int m * 2 powi q"
proof -
  have grid: "nearest F x = x" if x: "x = of_int m * 2 powi q" "\<bar>m\<bar> < 2 ^ prec F" "qmin F \<le> q" for x m q
  proof (cases "m = 0")
    case True
    with x show ?thesis by (simp add: nearest_def)
  next
    case False
    have "\<bar>x\<bar> = of_int \<bar>m\<bar> * 2 powi q" by (simp add: x abs_mult)
    also have "\<dots> < 2 ^ prec F * 2 powi q"
    proof -
      have "of_int \<bar>m\<bar> < (of_int (2 ^ prec F) :: rat)" using x(2) by (simp only: of_int_less_iff)
      then show ?thesis by (intro mult_strict_right_mono) auto
    qed
    also have "\<dots> = 2 powi (int (prec F) + q)" by (simp add: power_int_add)
    finally have "ilog2 \<bar>x\<bar> < int (prec F) + q"
      using False x by (intro ilog2_less) auto
    then have le: "quantum F x \<le> q" using x(3) by (simp add: quantum_def)
    have "x / 2 powi (quantum F x) = of_int (m * 2 ^ nat (q - quantum F x))"
      using scaled_power [OF le] by (simp only: x(1) times_divide_eq_right [symmetric] of_int_mult)
    then have "of_int (rne (x / 2 powi (quantum F x))) = x / 2 powi (quantum F x)"
      by (simp only: rne_of_int)
    then have "of_int (rne (x / 2 powi (quantum F x))) * 2 powi (quantum F x) = x"
      by simp
    then show ?thesis by (simp add: nearest_def)
  qed
  show ?thesis
  proof (cases "\<bar>m\<bar> < 2 ^ prec F")
    case True
    then show ?thesis using assms(2) by (intro grid) auto
  next
    case False
    then have m: "\<bar>m\<bar> = 2 ^ prec F" using assms(1) by linarith
    define h where "h = m div 2"
    have p: "prec F = Suc (prec F - 1)" using prec_pos by simp
    have "even m" using m p by (metis dvd_abs_iff even_power zero_less_Suc not_gr_zero dvd_refl)
    then have h: "m = 2 * h" by (simp add: h_def)
    have "2 * \<bar>h\<bar> = 2 ^ prec F" using m h by (simp add: abs_mult)
    moreover have "(0::int) < 2 ^ prec F" by simp
    ultimately have "\<bar>h\<bar> < 2 ^ prec F" by linarith
    moreover have "of_int m * 2 powi q = of_int h * (2::rat) powi (q + 1)"
      by (simp add: h power_int_add)
    ultimately show ?thesis using assms(2) by (intro grid [of _ h "q + 1"]) auto
  qed
qed

lemma nearest_representable: "representable F x \<Longrightarrow> nearest F x = x"
  by (auto simp: representable_def nearest_grid)

lemma fpround_representable: "representable F x \<Longrightarrow> fpround F x = Fin x"
  by (auto simp: fpround_def Let_def nearest_representable) (auto simp: representable_def)

text \<open>Conversely every finite result lies on the grid.\<close>

lemma nearest_on_grid:
  "\<exists>m q. nearest F x = of_int m * 2 powi q \<and> \<bar>m\<bar> \<le> 2 ^ prec F \<and> qmin F \<le> q"
proof (cases "x = 0")
  case True
  then show ?thesis by (intro exI [of _ 0] exI [of _ "qmin F"]) (simp add: nearest_def)
next
  case False
  let ?q = "quantum F x"
  have "\<bar>x\<bar> < 2 powi (ilog2 \<bar>x\<bar> + 1)" using False by (intro ilog2_bounds(2)) auto
  also have "\<dots> \<le> 2 powi (int (prec F) + ?q)" by (simp add: quantum_def)
  also have "\<dots> = of_int (2 ^ prec F) * 2 powi ?q" by (simp add: power_int_add)
  finally have b: "\<bar>x / 2 powi ?q\<bar> \<le> of_int (2 ^ prec F)"
    by (simp add: pos_divide_le_eq)
  then have "x / 2 powi ?q \<le> of_int (2 ^ prec F)" "of_int (- (2 ^ prec F)) \<le> x / 2 powi ?q"
    unfolding abs_le_iff of_int_minus by linarith+
  then have "rne (x / 2 powi ?q) \<le> 2 ^ prec F" "- (2 ^ prec F) \<le> rne (x / 2 powi ?q)"
    by (auto intro: rne_le rne_ge)
  then have "\<bar>rne (x / 2 powi ?q)\<bar> \<le> 2 ^ prec F" by linarith
  then show ?thesis using False
    by (intro exI [of _ "rne (x / 2 powi ?q)"] exI [of _ ?q]) (auto simp: nearest_def quantum_def Let_def)
qed

lemma fpround_Fin:
  assumes "fpround F x = Fin y"
  shows "y = nearest F x \<and> representable F y"
proof -
  have y: "y = nearest F x" "y < 2 powi (emax F)" "- (2 powi (emax F)) < y"
    using assms by (auto simp: fpround_def Let_def split: if_splits)
  then have "\<bar>y\<bar> < 2 powi (emax F)" by linarith
  with y(1) nearest_on_grid [of x] show ?thesis by (simp add: representable_def)
qed

lemma fpround_idem: "fpround F x = Fin y \<Longrightarrow> fpround F y = Fin y"
  using fpround_Fin fpround_representable by blast

lemma nearest_error: "x \<noteq> 0 \<Longrightarrow> \<bar>nearest F x - x\<bar> \<le> 2 powi (quantum F x - 1)"
proof -
  assume x: "x \<noteq> 0"
  let ?q = "quantum F x"
  have "nearest F x - x = (of_int (rne (x / 2 powi ?q)) - x / 2 powi ?q) * 2 powi ?q"
    using x by (simp add: nearest_def Let_def left_diff_distrib)
  then have "\<bar>nearest F x - x\<bar> = \<bar>of_int (rne (x / 2 powi ?q)) - x / 2 powi ?q\<bar> * 2 powi ?q"
    by (simp add: abs_mult)
  also have "\<dots> \<le> 1 / 2 * 2 powi ?q"
    by (intro mult_right_mono rne_error) simp
  also have "\<dots> = 2 powi (?q - 1)" by (simp add: power_int_diff)
  finally show ?thesis .
qed

lemma nearest_error_below:
  assumes "\<bar>x\<bar> < 2 powi k" and "qmin F \<le> k - int (prec F)"
  shows "\<bar>nearest F x - x\<bar> \<le> 2 powi (k - int (prec F) - 1)"
proof (cases "x = 0")
  case True
  then show ?thesis by (simp add: nearest_def)
next
  case False
  then have "ilog2 \<bar>x\<bar> < k" using assms(1) by (intro ilog2_less) auto
  then have "quantum F x \<le> k - int (prec F)" using assms(2) by (simp add: quantum_def)
  then have "(2::rat) powi (quantum F x - 1) \<le> 2 powi (k - int (prec F) - 1)" by simp
  with nearest_error [OF False] show ?thesis by linarith
qed

lemma fpround_small:
  assumes "\<bar>x\<bar> \<le> b" and "representable F b"
  shows "\<exists>y. fpround F x = Fin y \<and> \<bar>y\<bar> \<le> b"
proof -
  have "nearest F x \<le> b" "- b \<le> nearest F x"
    using nearest_mono [of x b] nearest_mono [of "- b" x] assms nearest_representable [OF assms(2)]
    by (auto simp: abs_le_iff)
  moreover have "b < 2 powi (emax F)" using assms(2) by (auto simp: representable_def)
  ultimately show ?thesis by (auto simp: fpround_def Let_def)
qed

lemma representable_int:
  assumes "\<bar>i\<bar> \<le> 2 ^ prec F" and "qmin F \<le> 0" and "int (prec F) < emax F"
  shows "representable F (of_int i)"
proof -
  have "of_int \<bar>i\<bar> \<le> (of_int (2 ^ prec F) :: rat)" using assms(1) by (simp only: of_int_le_iff)
  also have "\<dots> = 2 powi (int (prec F))" by simp
  also have "\<dots> < 2 powi (emax F)" using assms(3) by (simp only: powi_less_iff)
  finally have "\<bar>of_int i\<bar> < (2::rat) powi (emax F)" by simp
  moreover have "\<exists>m q. of_int i = of_int m * (2::rat) powi q \<and> \<bar>m\<bar> \<le> 2 ^ prec F \<and> qmin F \<le> q"
    using assms(1,2) by (intro exI [of _ i] exI [of _ "0::int"]) simp
  ultimately show ?thesis by (simp add: representable_def)
qed

end

interpretation b32: fp_format binary32
  by unfold_locales (simp_all add: binary32_def)

interpretation b64: fp_format binary64
  by unfold_locales (simp_all add: binary64_def)

section \<open>Comparison\<close>

text \<open>The operators \<open><\<close> and \<open><=\<close> of C++: false as soon as an operand is a NaN.\<close>

instantiation fp :: ord
begin

fun less_eq_fp :: "fp \<Rightarrow> fp \<Rightarrow> bool" where
  "less_eq_fp NaN y = False"
| "less_eq_fp x NaN = False"
| "less_eq_fp NInf y = True"
| "less_eq_fp x PInf = True"
| "less_eq_fp (Fin x) (Fin y) = (x \<le> y)"
| "less_eq_fp x y = False"

definition less_fp :: "fp \<Rightarrow> fp \<Rightarrow> bool" where
  "less_fp x y = (x \<le> y \<and> \<not> y \<le> x)"

instance ..

end

lemma less_Fin [simp]: "Fin x < Fin y \<longleftrightarrow> x < y"
  by (auto simp: less_fp_def)

lemma less_NaN [simp]: "\<not> NaN < y" "\<not> x < NaN"
  by (simp_all add: less_fp_def) (cases x; simp)

lemma less_Inf [simp]:
  "\<not> PInf < x" "\<not> x < NInf" "Fin a < PInf" "NInf < Fin a" "NInf < PInf"
  by (cases x; simp add: less_fp_def)+

text \<open>\<open>x == y\<close> on floating-point operands: a NaN equals nothing, not even itself.\<close>

definition feq :: "fp \<Rightarrow> fp \<Rightarrow> bool" where
  "feq x y = (x \<noteq> NaN \<and> x = y)"

text \<open>\<open>std::min\<close> and \<open>std::max\<close>, which return their first argument when neither is smaller.\<close>

definition std_min :: "fp \<Rightarrow> fp \<Rightarrow> fp" where
  "std_min a b = (if b < a then b else a)"

definition std_max :: "fp \<Rightarrow> fp \<Rightarrow> fp" where
  "std_max a b = (if a < b then b else a)"

context fp_format
begin

lemma fpround_mono:
  assumes "x \<le> y" shows "fpround F x \<le> fpround F y"
proof -
  have "nearest F x \<le> nearest F y" using assms by (rule nearest_mono)
  moreover have "0 < (2::rat) powi (emax F)" by simp
  ultimately show ?thesis by (auto simp: fpround_def Let_def)
qed

end

section \<open>Arithmetic\<close>

fun fneg :: "fp \<Rightarrow> fp" where
  "fneg NaN = NaN"
| "fneg PInf = NInf"
| "fneg NInf = PInf"
| "fneg (Fin x) = Fin (- x)"

fun fadd :: "fmt \<Rightarrow> fp \<Rightarrow> fp \<Rightarrow> fp" where
  "fadd F (Fin x) (Fin y) = fpround F (x + y)"
| "fadd F NaN y = NaN"
| "fadd F x NaN = NaN"
| "fadd F PInf y = (if y = NInf then NaN else PInf)"
| "fadd F NInf y = (if y = PInf then NaN else NInf)"
| "fadd F x y = y"

definition fsub :: "fmt \<Rightarrow> fp \<Rightarrow> fp \<Rightarrow> fp" where
  "fsub F x y = fadd F x (fneg y)"

text \<open>An infinite result of a product or a quotient, with the sign of the factors.\<close>

fun fsign :: "fp \<Rightarrow> int" where
  "fsign NaN = 0"
| "fsign PInf = 1"
| "fsign NInf = -1"
| "fsign (Fin x) = (if 0 < x then 1 else if x < 0 then -1 else 0)"

definition inf_of_sign :: "int \<Rightarrow> fp" where
  "inf_of_sign s = (if 0 < s then PInf else if s < 0 then NInf else NaN)"

fun fmul :: "fmt \<Rightarrow> fp \<Rightarrow> fp \<Rightarrow> fp" where
  "fmul F (Fin x) (Fin y) = fpround F (x * y)"
| "fmul F NaN y = NaN"
| "fmul F x NaN = NaN"
| "fmul F x y = inf_of_sign (fsign x * fsign y)"

fun fdiv :: "fmt \<Rightarrow> fp \<Rightarrow> fp \<Rightarrow> fp" where
  "fdiv F (Fin x) (Fin y) =
     (if y = 0 then inf_of_sign (fsign (Fin x)) else fpround F (x / y))"
| "fdiv F NaN y = NaN"
| "fdiv F x NaN = NaN"
| "fdiv F (Fin x) y = Fin 0"
| "fdiv F x (Fin y) = inf_of_sign (fsign x * (if y < 0 then -1 else 1))"
| "fdiv F x y = NaN"

definition rtrunc :: "rat \<Rightarrow> int" where
  "rtrunc x = (if 0 \<le> x then \<lfloor>x\<rfloor> else - \<lfloor>- x\<rfloor>)"

text \<open>\<open>std::fmod\<close>: exact, with the sign of the dividend.\<close>

fun std_fmod :: "fp \<Rightarrow> fp \<Rightarrow> fp" where
  "std_fmod (Fin x) (Fin y) = (if y = 0 then NaN else Fin (x - of_int (rtrunc (x / y)) * y))"
| "std_fmod (Fin x) PInf = Fin x"
| "std_fmod (Fin x) NInf = Fin x"
| "std_fmod x y = NaN"

section \<open>Conversions\<close>

text \<open>
  A floating-point value converted to an integer type is truncated; when the truncated value is
  outside the type's range (or the operand is no number) the conversion is undefined.
\<close>

fun cast_range :: "int \<Rightarrow> int \<Rightarrow> fp \<Rightarrow> int option" where
  "cast_range lo hi (Fin x) = (let i = rtrunc x in if lo \<le> i \<and> i \<le> hi then Some i else None)"
| "cast_range lo hi x = None"

definition cast_i32 :: "fp \<Rightarrow> int option" where
  "cast_i32 = cast_range (- (2 ^ 31)) (2 ^ 31 - 1)"

definition cast_u32 :: "fp \<Rightarrow> u32 option" where
  "cast_u32 x = map_option word_of_int (cast_range 0 (2 ^ 32 - 1) x)"

definition cast_u64 :: "fp \<Rightarrow> u64 option" where
  "cast_u64 x = map_option word_of_int (cast_range 0 (2 ^ 64 - 1) x)"

text \<open>\<open>std::lround\<close>: to the nearest integer, halves away from zero.\<close>

definition round_away :: "rat \<Rightarrow> int" where
  "round_away x = (if 0 \<le> x then \<lfloor>x + 1 / 2\<rfloor> else - \<lfloor>- x + 1 / 2\<rfloor>)"

fun std_lround :: "fp \<Rightarrow> int option" where
  "std_lround (Fin x) = (let i = round_away x in
     if - (2 ^ 63) \<le> i \<and> i < 2 ^ 63 then Some i else None)"
| "std_lround x = None"

text \<open>\<open>static_cast<float>\<close> of a double; a float is a double without change.\<close>

fun to_f32 :: "fp \<Rightarrow> fp" where
  "to_f32 (Fin x) = fpround binary32 x"
| "to_f32 x = x"

definition f64_of_int :: "int \<Rightarrow> fp" where
  "f64_of_int i = fpround binary64 (of_int i)"

definition f32_of_int :: "int \<Rightarrow> fp" where
  "f32_of_int i = fpround binary32 (of_int i)"

definition M_PI :: fp where
  "M_PI = Fin (884279719003555 / 281474976710656)"

text \<open>
  The functions of \<open><cmath>\<close> whose rounding the standard leaves open are parameters.
\<close>

record libm =
  m_sin :: "fp \<Rightarrow> fp"
  m_cos :: "fp \<Rightarrow> fp"
  m_hypot :: "fp \<Rightarrow> fp \<Rightarrow> fp"

text \<open>A concrete library that is exact at the angle 0, for evaluating examples.\<close>

definition demo_libm :: libm where
  "demo_libm = \<lparr>m_sin = (\<lambda>_. Fin 0), m_cos = (\<lambda>_. Fin 1), m_hypot = (\<lambda>_ _. Fin 1)\<rparr>"

text \<open>
  \<open>std::to_string(double)\<close>, which is \<open>printf\<close>'s \<open>%f\<close>: six decimals of the exact value, correctly
  rounded.
\<close>

definition pad0 :: "nat \<Rightarrow> string \<Rightarrow> string" where
  "pad0 n s = replicate (n - length s) (CHR ''0'') @ s"

fun to_string_f64 :: "fp \<Rightarrow> string" where
  "to_string_f64 NaN = ''nan''"
| "to_string_f64 PInf = ''inf''"
| "to_string_f64 NInf = ''-inf''"
| "to_string_f64 (Fin x) =
     (let n = nat (rne (\<bar>x\<bar> * 1000000))
      in (if x < 0 then ''-'' else '''') @ nat_digits (n div 1000000) @ ''.'' @
         pad0 6 (nat_digits (n mod 1000000)))"

section \<open>Facts about the operations\<close>

lemma f64_of_int_exact [simp]: "\<bar>i\<bar> \<le> 2 ^ 53 \<Longrightarrow> f64_of_int i = Fin (of_int i)"
  unfolding f64_of_int_def
  by (rule b64.fpround_representable, rule b64.representable_int) (simp_all add: binary64_def)

lemma f32_of_int_exact [simp]: "\<bar>i\<bar> \<le> 2 ^ 24 \<Longrightarrow> f32_of_int i = Fin (of_int i)"
  unfolding f32_of_int_def
  by (rule b32.fpround_representable, rule b32.representable_int) (simp_all add: binary32_def)

lemma fpround_zero [simp]: "fpround F 0 = Fin 0"
  by (simp add: fpround_def nearest_def not_le)

lemma rtrunc_of_int [simp]: "rtrunc (of_int i) = i"
  by (simp add: rtrunc_def)

lemma round_away_of_int [simp]: "round_away (of_int i) = i"
proof -
  have "\<lfloor>(of_int i :: rat) + 1 / 2\<rfloor> = i" for i by (rule floor_unique) simp_all
  from this [of i] this [of "- i"] show ?thesis by (simp add: round_away_def)
qed

lemma round_away_mono:
  assumes "x \<le> y" shows "round_away x \<le> round_away y"
proof -
  have pos: "0 \<le> \<lfloor>z + 1 / 2\<rfloor>" if "0 \<le> z" for z :: rat using that by simp
  consider "0 \<le> x" | "x < 0" "0 \<le> y" | "y < 0" by linarith
  then show ?thesis
  proof cases
    case 1
    then show ?thesis using assms floor_mono [of "x + 1 / 2" "y + 1 / 2"] by (simp add: round_away_def)
  next
    case 2
    have "0 \<le> \<lfloor>y + 1 / 2\<rfloor>" using 2 by (intro pos)
    moreover have "0 \<le> \<lfloor>- x + 1 / 2\<rfloor>" using 2 by (intro pos) simp
    moreover have "round_away x = - \<lfloor>- x + 1 / 2\<rfloor>" "round_away y = \<lfloor>y + 1 / 2\<rfloor>"
      using 2 by (simp_all only: round_away_def not_le [symmetric] if_True if_False)
    ultimately show ?thesis by linarith
  next
    case 3
    then show ?thesis using assms floor_mono [of "- y + 1 / 2" "- x + 1 / 2"] by (simp add: round_away_def)
  qed
qed

lemma round_away_error: "\<bar>of_int (round_away x) - x\<bar> \<le> 1 / 2"
proof -
  have f: "of_int \<lfloor>z + 1 / 2\<rfloor> \<le> z + 1 / 2" "z + 1 / 2 < of_int \<lfloor>z + 1 / 2\<rfloor> + 1" for z :: rat
    by linarith+
  show ?thesis
  proof (cases "0 \<le> x")
    case True
    then have "round_away x = \<lfloor>x + 1 / 2\<rfloor>" by (simp only: round_away_def if_True)
    then show ?thesis using f [of x] by linarith
  next
    case False
    then have "round_away x = - \<lfloor>- x + 1 / 2\<rfloor>" by (simp only: round_away_def if_False)
    then show ?thesis using f [of "- x"] by linarith
  qed
qed

end
