(* ===== verification/Decimator.thy ===== *)
theory Decimator
  imports Ieee
begin

text \<open>
  \<open>src/dsp/decimator.cpp\<close>: the windowed-sinc design of the low-pass filter, and the FIR filter
  with integer decimation that processes the interleaved IQ stream chunk by chunk, keeping the
  last \<open>numTaps - 1\<close> complex samples as history. Every read of a buffer is bounds-checked in the
  model (\<open>None\<close> is a read past the end), so memory safety is a theorem about \<open>process\<close>.
\<close>

section \<open>Filter design\<close>

definition lit :: "rat \<Rightarrow> fp" where
  "lit x = fpround binary64 x"

definition fir_tap :: "libm \<Rightarrow> int \<Rightarrow> fp \<Rightarrow> fp \<Rightarrow> int \<Rightarrow> fp" where
  "fir_tap L numTaps fc mid n =
     (let x = fsub binary64 (f64_of_int n) mid;
          two_pi = fmul binary64 (Fin 2) M_PI;
          sinc = (if feq x (Fin 0) then fmul binary64 (Fin 2) fc
                  else fdiv binary64 (m_sin L (fmul binary64 (fmul binary64 two_pi fc) x))
                         (fmul binary64 M_PI x));
          window = fsub binary64 (lit (54 / 100))
                     (fmul binary64 (lit (46 / 100))
                       (m_cos L (fdiv binary64 (fmul binary64 two_pi (f64_of_int n))
                          (f64_of_int (numTaps - 1)))))
      in fmul binary64 sinc window)"

fun design_loop :: "libm \<Rightarrow> int \<Rightarrow> fp \<Rightarrow> fp \<Rightarrow> nat list \<Rightarrow> fp list \<Rightarrow> fp \<Rightarrow> fp list \<times> fp" where
  "design_loop L numTaps fc mid [] taps tapSum = (taps, tapSum)"
| "design_loop L numTaps fc mid (n # ns) taps tapSum =
     (let tap = fir_tap L numTaps fc mid (int n)
      in design_loop L numTaps fc mid ns (taps @ [to_f32 tap]) (fadd binary64 tapSum tap))"

definition designLowPassFir :: "libm \<Rightarrow> int \<Rightarrow> fp \<Rightarrow> fp \<Rightarrow> fp list outcome" where
  "designLowPassFir L numTaps cutoffHz sampleRateHz =
     (if numTaps < 0 then Inl (Throw LengthError)
      else let fc = fdiv binary64 cutoffHz sampleRateHz;
               mid = fdiv binary64 (f64_of_int (numTaps - 1)) (Fin 2);
               (taps, tapSum) = design_loop L numTaps fc mid [0..<nat numTaps] [] (Fin 0)
           in Inr (map (\<lambda>t. to_f32 (fdiv binary64 t tapSum)) taps))"

lemma design_loop_length:
  "length (fst (design_loop L N fc mid ns taps tapSum)) = length taps + length ns"
  by (induction L N fc mid ns taps tapSum rule: design_loop.induct) (simp_all add: Let_def)

lemma designLowPassFir_ok:
  assumes "0 \<le> numTaps"
  shows "\<exists>taps. designLowPassFir L numTaps c s = Inr taps \<and> length taps = nat numTaps"
proof -
  let ?r = "design_loop L numTaps (fdiv binary64 c s) (fdiv binary64 (f64_of_int (numTaps - 1)) (Fin 2))
    [0..<nat numTaps] [] (Fin 0)"
  have "length (fst ?r) = nat numTaps" by (simp add: design_loop_length)
  then show ?thesis using assms by (auto simp: designLowPassFir_def split: prod.split)
qed

section \<open>The decimating filter\<close>

record decimator =
  dec_taps :: "fp list"
  dec_factor :: int
  dec_history :: "fp list"

definition mk_decimator :: "fp list \<Rightarrow> int \<Rightarrow> decimator outcome" where
  "mk_decimator taps decimationFactor =
     (if decimationFactor < 1 then
        Inl (Throw (RuntimeError (''Decimator: decimationFactor must be a positive integer, got '' @
          show_int decimationFactor)))
      else if taps = [] then Inl (Throw LengthError)  \<comment> \<open>\<open>(taps_.size() - 1) * 2\<close> wraps around\<close>
      else Inr \<lparr>dec_taps = taps, dec_factor = decimationFactor,
                dec_history = replicate ((length taps - 1) * 2) (Fin 0)\<rparr>)"

text \<open>Division of \<open>long\<close> values truncates.\<close>

definition tdiv :: "int \<Rightarrow> int \<Rightarrow> int" where
  "tdiv a b = sgn a * sgn b * (\<bar>a\<bar> div \<bar>b\<bar>)"

fun fir_loop :: "fp list \<Rightarrow> fp list \<Rightarrow> nat \<Rightarrow> nat list \<Rightarrow> fp \<Rightarrow> fp \<Rightarrow> (fp \<times> fp) option" where
  "fir_loop taps buf centerIdx [] accI accQ = Some (accI, accQ)"
| "fir_loop taps buf centerIdx (t # ts) accI accQ =
     (let sampleIdx = (centerIdx + t) * 2 in
      case (read_at taps t, read_at buf sampleIdx, read_at buf (sampleIdx + 1)) of
        (Some tap, Some bi, Some bq) \<Rightarrow>
          fir_loop taps buf centerIdx ts
            (fadd binary64 accI (fmul binary32 bi tap)) (fadd binary64 accQ (fmul binary32 bq tap))
      | _ \<Rightarrow> None)"

fun out_loop :: "fp list \<Rightarrow> fp list \<Rightarrow> nat \<Rightarrow> nat list \<Rightarrow> fp list option" where
  "out_loop taps buf factor [] = Some []"
| "out_loop taps buf factor (n # ns) =
     (case fir_loop taps buf (n * factor) [0..<length taps] (Fin 0) (Fin 0) of
        None \<Rightarrow> None
      | Some (accI, accQ) \<Rightarrow>
          map_option (\<lambda>out. to_f32 accI # to_f32 accQ # out) (out_loop taps buf factor ns))"

definition process :: "decimator \<Rightarrow> fp list \<Rightarrow> (fp list \<times> decimator) option" where
  "process d input =
     (let numTaps = length (dec_taps d);
          histSamples = length (dec_history d) div 2;
          inSamples = length input div 2;
          buf = dec_history d @ input;
          totalSamples = histSamples + inSamples;
          rawOutSamples = tdiv (int totalSamples - int numTaps + 1) (dec_factor d);
          outSamples = nat (max 0 rawOutSamples)
      in case out_loop (dec_taps d) buf (nat (dec_factor d)) [0..<outSamples] of
           None \<Rightarrow> None
         | Some out \<Rightarrow>
             let consumedSamples = outSamples * nat (dec_factor d);
                 remainderStart = consumedSamples * 2
             in if length buf < remainderStart then None
                else let remainderLen = length buf - remainderStart;
                         newHistLen = min remainderLen (length (dec_history d));
                         newHistory = replicate (length (dec_history d) - newHistLen) (Fin 0) @
                                      lastn newHistLen buf
                     in Some (out, d\<lparr>dec_history := newHistory\<rparr>))"

text \<open>The invariant of the class: established by the constructor, kept by \<open>process\<close>.\<close>

definition decimator_inv :: "decimator \<Rightarrow> bool" where
  "decimator_inv d \<longleftrightarrow> dec_taps d \<noteq> [] \<and> 1 \<le> dec_factor d \<and>
     length (dec_history d) = (length (dec_taps d) - 1) * 2"

section \<open>Specification on complex samples\<close>

text \<open>
  The filter seen from outside: a stream of complex samples, an output for every \<open>D\<close>-th window
  of \<open>numTaps\<close> samples.
\<close>

type_synonym iq = "fp \<times> fp"

fun interleave :: "iq list \<Rightarrow> fp list" where
  "interleave [] = []"
| "interleave ((i, q) # xs) = i # q # interleave xs"

definition fir_step :: "iq \<Rightarrow> fp \<times> iq \<Rightarrow> iq" where
  "fir_step acc e = (fadd binary64 (fst acc) (fmul binary32 (fst (snd e)) (fst e)),
                     fadd binary64 (snd acc) (fmul binary32 (snd (snd e)) (fst e)))"

definition fir_window :: "fp list \<Rightarrow> iq list \<Rightarrow> iq" where
  "fir_window taps xs = map_prod to_f32 to_f32 (foldl fir_step (Fin 0, Fin 0) (zip taps xs))"

definition fir_decimate :: "fp list \<Rightarrow> nat \<Rightarrow> iq list \<Rightarrow> iq list" where
  "fir_decimate taps D xs =
     map (\<lambda>n. fir_window taps (drop (n * D) xs)) [0..<(length xs - (length taps - 1)) div D]"

lemma length_interleave [simp]: "length (interleave xs) = 2 * length xs"
  by (induction xs rule: interleave.induct) simp_all

lemma interleave_append [simp]: "interleave (xs @ ys) = interleave xs @ interleave ys"
  by (induction xs rule: interleave.induct) simp_all

lemma interleave_nth:
  "n < length xs \<Longrightarrow> interleave xs ! (n * 2) = fst (xs ! n)"
  "n < length xs \<Longrightarrow> interleave xs ! Suc (n * 2) = snd (xs ! n)"
  by (induction xs arbitrary: n rule: interleave.induct) (auto simp: less_Suc_eq_0_disj)

lemma interleave_length_eq: "interleave xs = interleave ys \<Longrightarrow> length xs = length ys"
  using length_interleave [of xs] length_interleave [of ys] by simp

lemma drop_interleave: "drop (2 * n) (interleave xs) = interleave (drop n xs)"
proof (induction xs arbitrary: n rule: interleave.induct)
  case (2 i q xs)
  then show ?case by (cases n) simp_all
qed simp

lemma lastn_interleave: "lastn (2 * n) (interleave xs) = interleave (lastn n xs)"
  by (simp add: lastn_def drop_interleave flip: diff_mult_distrib2)

lemma interleave_surj: "even (length bs) \<Longrightarrow> \<exists>xs. bs = interleave xs"
proof (induction bs rule: induct_list012)
  case 1
  show ?case by (intro exI [of _ "[]"]) simp
next
  case (3 a b cs)
  then obtain xs where "cs = interleave xs" by auto
  then show ?case by (intro exI [of _ "(a, b) # xs"]) simp
qed simp

lemma interleave_replicate: "replicate (n * 2) z = interleave (replicate n (z, z))"
  by (induction n) simp_all

section \<open>The code computes the specification\<close>

lemma fir_loop_window:
  assumes "centerIdx + length taps \<le> length xs" and "m \<le> length taps"
  shows "fir_loop taps (interleave xs) centerIdx [m..<length taps] aI aQ =
    Some (foldl fir_step (aI, aQ) (zip (drop m taps) (drop (centerIdx + m) xs)))"
  using assms(2)
proof (induction "length taps - m" arbitrary: m aI aQ)
  case 0
  then show ?case by simp
next
  case (Suc k)
  then have m: "m < length taps" by simp
  with assms(1) have c: "centerIdx + m < length xs" by simp
  have z: "zip (drop m taps) (drop (centerIdx + m) xs) =
      (taps ! m, xs ! (centerIdx + m)) # zip (drop (Suc m) taps) (drop (centerIdx + Suc m) xs)"
    using m c by (simp add: Cons_nth_drop_Suc [symmetric])
  have IH: "fir_loop taps (interleave xs) centerIdx [Suc m..<length taps] bI bQ =
      Some (foldl fir_step (bI, bQ) (zip (drop (Suc m) taps) (drop (centerIdx + Suc m) xs)))" for bI bQ
    using Suc m by (intro Suc.hyps) auto
  have nth: "interleave xs ! (centerIdx * 2 + m * 2) = fst (xs ! (centerIdx + m))"
      "interleave xs ! Suc (centerIdx * 2 + m * 2) = snd (xs ! (centerIdx + m))"
    using interleave_nth [OF c] by (simp_all add: add_mult_distrib)
  show ?case
    unfolding z using m c
    by (simp add: upt_conv_Cons Let_def nth IH fir_step_def del: upt_Suc)
qed

lemma out_loop_windows:
  assumes "\<forall>n \<in> set ns. n * D + length taps \<le> length xs"
  shows "out_loop taps (interleave xs) D ns =
    Some (interleave (map (\<lambda>n. fir_window taps (drop (n * D) xs)) ns))"
  using assms
proof (induction ns)
  case (Cons n ns)
  have "fir_loop taps (interleave xs) (n * D) [0..<length taps] (Fin 0) (Fin 0) =
      Some (foldl fir_step (Fin 0, Fin 0) (zip taps (drop (n * D) xs)))"
    using fir_loop_window [of "n * D" taps xs 0] Cons.prems by simp
  with Cons show ?case
    by (simp add: fir_window_def map_prod_def split: prod.split)
qed simp

lemma tdiv_nonneg: "0 \<le> a \<Longrightarrow> 0 < b \<Longrightarrow> tdiv (int a) (int b) = int (a div b)"
  by (cases "a = 0") (simp_all add: tdiv_def zdiv_int)

text \<open>
  One call of \<open>process\<close>, on the history and the new samples: the outputs are the decimated windows
  of history and input together, and the new history is their last \<open>numTaps - 1\<close> samples.
\<close>

lemma process_spec:
  assumes "dec_taps d = taps" and "taps \<noteq> []" and "dec_factor d = int D" and "0 < D"
    and h: "dec_history d = interleave h" "length h = length taps - 1"
  shows "process d (interleave xs) =
    Some (interleave (fir_decimate taps D (h @ xs)),
          d\<lparr>dec_history := interleave (lastn (length taps - 1) (h @ xs))\<rparr>)"
proof -
  let ?T = "length taps"
  have T: "1 \<le> ?T" using assms(2) by (simp add: Suc_le_eq)
  have raw: "tdiv (int (length h + length xs) - int ?T + 1) (int D) = int (length xs div D)"
  proof -
    have "int (length h + length xs) - int ?T + 1 = int (length xs)" using h(2) T by simp
    then show ?thesis using assms(4) by (simp only: tdiv_nonneg)
  qed
  have bound: "n * D + ?T \<le> length (h @ xs)" if "n < length xs div D" for n
  proof -
    have "Suc n * D \<le> length xs div D * D" using that by (intro mult_right_mono) auto
    also have "\<dots> \<le> length xs" by (rule div_times_less_eq_dividend)
    finally show ?thesis using h(2) T assms(4) by simp
  qed
  have outs: "out_loop taps (interleave (h @ xs)) D [0..<length xs div D] =
      Some (interleave (fir_decimate taps D (h @ xs)))"
    using out_loop_windows [of "[0..<length xs div D]" D taps "h @ xs"] bound h(2)
    by (simp add: fir_decimate_def)
  define c where "c = length xs div D * D"
  have c: "c \<le> length xs" unfolding c_def by (rule div_times_less_eq_dividend)
  have fits: "\<not> 2 * k + 2 * length xs < c * 2" "min (2 * k + 2 * length xs - c * 2) (2 * k) = 2 * k" for k
    using c by auto
  have hist: "lastn (2 * length h) (interleave (h @ xs)) =
      interleave (lastn (?T - 1) (h @ xs))"
    using h(2) by (simp only: lastn_interleave)
  have raw': "tdiv (int (length (dec_history d) div 2 + length (interleave xs) div 2)
      - int (length (dec_taps d)) + 1) (dec_factor d) = int (length xs div D)"
    using raw by (simp only: assms(1,3) h(1) length_interleave) simp
  show ?thesis
    unfolding process_def Let_def raw' using outs h assms(1,3) hist fits [of "length h"]
    by (simp add: c_def)
qed

section \<open>The invariant and memory safety\<close>

lemma mk_decimator_inv: "mk_decimator taps f = Inr d \<Longrightarrow>
    decimator_inv d \<and> dec_taps d = taps \<and> dec_factor d = f \<and>
    dec_history d = interleave (replicate (length taps - 1) (Fin 0, Fin 0))"
  by (auto simp: mk_decimator_def decimator_inv_def interleave_replicate split: if_splits)

lemma decimator_invE:
  assumes "decimator_inv d"
  obtains h D where "dec_history d = interleave h" "length h = length (dec_taps d) - 1"
    "dec_factor d = int D" "0 < D" "dec_taps d \<noteq> []"
proof -
  obtain h where h: "dec_history d = interleave h"
    using assms interleave_surj [of "dec_history d"] by (auto simp: decimator_inv_def)
  with assms have "length h = length (dec_taps d) - 1"
    by (auto simp: decimator_inv_def)
  with assms h show thesis
    by (intro that [of h "nat (dec_factor d)"]) (auto simp: decimator_inv_def)
qed

lemma decimator_inv_history:
  "decimator_inv d \<Longrightarrow> length hs = length (dec_history d) \<Longrightarrow> decimator_inv (d\<lparr>dec_history := hs\<rparr>)"
  by (simp add: decimator_inv_def)

lemma length_fir_decimate [simp]:
  "length (fir_decimate taps D xs) = (length xs - (length taps - 1)) div D"
  by (simp add: fir_decimate_def)

lemma process_total:
  assumes "decimator_inv d" and "even (length input)"
  shows "\<exists>out d'. process d input = Some (out, d') \<and> decimator_inv d' \<and>
    dec_taps d' = dec_taps d \<and> dec_factor d' = dec_factor d \<and>
    length out = 2 * (length input div 2 div nat (dec_factor d))"
proof -
  obtain h D where d: "dec_history d = interleave h" "length h = length (dec_taps d) - 1"
    "dec_factor d = int D" "0 < D" "dec_taps d \<noteq> []" using assms(1) by (rule decimator_invE)
  obtain xs where xs: "input = interleave xs" using interleave_surj [OF assms(2)] by blast
  have "process d input = Some (interleave (fir_decimate (dec_taps d) D (h @ xs)),
      d\<lparr>dec_history := interleave (lastn (length (dec_taps d) - 1) (h @ xs))\<rparr>)"
    unfolding xs using d by (intro process_spec) auto
  then show ?thesis using d assms(1)
    by (auto simp: xs intro: decimator_inv_history)
qed

text \<open>
  On a filter built by the constructor, or left by earlier calls, \<open>process\<close> never reads
  or copies outside its buffers whatever even-length block it is given; it returns one output
  sample for every full decimation step of the block and leaves taps, factor and the invariant
  as they were.
\<close>

theorem process_safe:
  assumes "decimator_inv d" and "even (length input)"
  shows "\<exists>out d'. process d input = Some (out, d') \<and> decimator_inv d' \<and>
    dec_taps d' = dec_taps d \<and> dec_factor d' = dec_factor d \<and>
    length out = 2 * (length input div 2 div nat (dec_factor d))"
  using assms by (rule process_total)

theorem process_safe_witness:
  "\<exists>out d'. process \<lparr>dec_taps = [Fin 1, Fin 2], dec_factor = 2, dec_history = [Fin 0, Fin 0]\<rparr>
      [Fin 1, Fin 2, Fin 3, Fin 4] = Some (out, d') \<and> length out = 2"
  using process_safe [of "\<lparr>dec_taps = [Fin 1, Fin 2], dec_factor = 2, dec_history = [Fin 0, Fin 0]\<rparr>"
      "[Fin 1, Fin 2, Fin 3, Fin 4]"]
  by (auto simp: decimator_inv_def)

section \<open>Processing a stream in chunks\<close>

fun process_all :: "decimator \<Rightarrow> fp list list \<Rightarrow> (fp list \<times> decimator) option" where
  "process_all d [] = Some ([], d)"
| "process_all d (c # cs) =
     (case process d c of None \<Rightarrow> None
      | Some (out, d') \<Rightarrow> map_option (\<lambda>(outs, d''). (out @ outs, d'')) (process_all d' cs))"

lemma fir_window_take:
  "length taps \<le> length xs \<Longrightarrow> fir_window taps (xs @ ys) = fir_window taps xs"
  by (simp add: fir_window_def zip_append2)

lemma fir_decimate_append:
  assumes "length h = length taps - 1" and "taps \<noteq> []" and "0 < D" and "D dvd length xs"
  shows "fir_decimate taps D (h @ xs @ ys) =
    fir_decimate taps D (h @ xs) @ fir_decimate taps D (lastn (length taps - 1) (h @ xs) @ ys)"
proof (rule nth_equalityI)
  have div: "(length xs + length ys) div D = length xs div D + length ys div D"
    using assms(3,4) by (simp add: div_plus_div_distrib_dvd_left)
  then show "length (fir_decimate taps D (h @ xs @ ys)) = length (fir_decimate taps D (h @ xs) @
      fir_decimate taps D (lastn (length taps - 1) (h @ xs) @ ys))"
    using assms(1) by simp
  fix n assume "n < length (fir_decimate taps D (h @ xs @ ys))"
  then have n: "n < length xs div D + length ys div D" using div assms(1) by simp
  have last: "lastn (length taps - 1) (h @ xs) @ ys = drop (length xs) (h @ xs @ ys)"
    using assms(1) by (simp add: lastn_def)
  show "fir_decimate taps D (h @ xs @ ys) ! n = (fir_decimate taps D (h @ xs) @
      fir_decimate taps D (lastn (length taps - 1) (h @ xs) @ ys)) ! n"
  proof (cases "n < length xs div D")
    case True
    then have "Suc n * D \<le> length xs"
      using assms(3) by (metis Suc_leI div_times_less_eq_dividend le_trans mult_le_mono1)
    then have "length taps \<le> length (drop (n * D) (h @ xs))"
      using assms by (cases taps) auto
    moreover have "drop (n * D) (h @ xs @ ys) = drop (n * D) (h @ xs) @ ys"
      using \<open>Suc n * D \<le> length xs\<close> by simp
    ultimately have "fir_window taps (drop (n * D) (h @ xs @ ys)) =
        fir_window taps (drop (n * D) (h @ xs))"
      by (simp only: fir_window_take)
    then show ?thesis
      using True n div assms(1) by (simp add: fir_decimate_def nth_append del: drop_append)
  next
    case False
    define k where "k = n - length xs div D"
    have k: "n = length xs div D + k" "k < length ys div D" using False n by (auto simp: k_def)
    have "n * D = k * D + length xs" using assms(4) by (simp add: k(1) add_mult_distrib)
    then have "drop (n * D) (h @ xs @ ys) = drop (k * D) (lastn (length taps - 1) (h @ xs) @ ys)"
      by (simp only: last drop_drop)
    then show ?thesis
      using k n div assms(1) by (simp add: fir_decimate_def nth_append del: drop_append)
  qed
qed

lemma process_append:
  assumes "decimator_inv d" and "even (length a)" and "nat (dec_factor d) dvd length a div 2"
    and "even (length b)"
  shows "process d (a @ b) = (case process d a of None \<Rightarrow> None
    | Some (o1, d1) \<Rightarrow> map_option (\<lambda>(o2, d2). (o1 @ o2, d2)) (process d1 b))"
proof -
  obtain h D where d: "dec_history d = interleave h" "length h = length (dec_taps d) - 1"
    "dec_factor d = int D" "0 < D" "dec_taps d \<noteq> []" using assms(1) by (rule decimator_invE)
  obtain xs ys where ab: "a = interleave xs" "b = interleave ys"
    using interleave_surj assms(2,4) by blast
  have dvd: "D dvd length xs" using assms(3) by (simp add: ab d(3))
  let ?h' = "lastn (length (dec_taps d) - 1) (h @ xs)"
  have first: "process d (interleave xs) = Some (interleave (fir_decimate (dec_taps d) D (h @ xs)),
      d\<lparr>dec_history := interleave ?h'\<rparr>)"
    using d by (intro process_spec) auto
  have second: "process (d\<lparr>dec_history := interleave ?h'\<rparr>) (interleave ys) =
      Some (interleave (fir_decimate (dec_taps d) D (?h' @ ys)),
        d\<lparr>dec_history := interleave (lastn (length (dec_taps d) - 1) (?h' @ ys))\<rparr>)"
    using d process_spec [of "d\<lparr>dec_history := interleave ?h'\<rparr>" "dec_taps d" D ?h' ys] by simp
  have both: "process d (interleave (xs @ ys)) =
      Some (interleave (fir_decimate (dec_taps d) D (h @ xs @ ys)),
        d\<lparr>dec_history := interleave (lastn (length (dec_taps d) - 1) (h @ xs @ ys))\<rparr>)"
    using d by (intro process_spec) auto
  show ?thesis
    using first second both fir_decimate_append [OF d(2) d(5) d(4) dvd, of ys]
      lastn_lastn_append [of "length (dec_taps d) - 1" "h @ xs" ys]
    by (simp add: ab)
qed

text \<open>A block that is a whole number of decimation steps long.\<close>

definition aligned :: "decimator \<Rightarrow> fp list \<Rightarrow> bool" where
  "aligned d c \<longleftrightarrow> even (length c) \<and> nat (dec_factor d) dvd length c div 2"

lemma aligned_concat: "\<forall>c \<in> set cs. aligned d c \<Longrightarrow> aligned d (concat cs)"
proof (induction cs)
  case (Cons c cs)
  then have "aligned d c" "aligned d (concat cs)" by auto
  then show ?case by (auto simp: aligned_def div_plus_div_distrib_dvd_left elim!: evenE)
qed (simp add: aligned_def)

text \<open>
  Property C18: the chunking of the wideband stream is invisible when every chunk is a whole number
  of decimation steps: the outputs of the successive calls, concatenated, and the final filter
  state are those of one call on the concatenated stream.
\<close>

theorem process_all_aligned:
  assumes "decimator_inv d" and "\<forall>c \<in> set cs. aligned d c"
  shows "process_all d cs = process d (concat cs)"
  using assms
proof (induction cs arbitrary: d)
  case Nil
  from Nil(1) obtain h D where d: "dec_history d = interleave h" "length h = length (dec_taps d) - 1"
    "dec_factor d = int D" "0 < D" "dec_taps d \<noteq> []" by (rule decimator_invE)
  have "process d (interleave []) = Some (interleave (fir_decimate (dec_taps d) D (h @ [])),
      d\<lparr>dec_history := interleave (lastn (length (dec_taps d) - 1) (h @ []))\<rparr>)"
    using d by (intro process_spec) auto
  with d show ?case by (simp add: fir_decimate_def)
next
  case (Cons c cs)
  then have al: "even (length c)" "nat (dec_factor d) dvd length c div 2" "even (length (concat cs))"
    using aligned_concat [of cs d] by (auto simp: aligned_def)
  from process_total [OF Cons.prems(1) al(1)] obtain out d' where
    p: "process d c = Some (out, d')" "decimator_inv d'" "dec_factor d' = dec_factor d" by blast
  have "process_all d' cs = process d' (concat cs)"
    using p Cons.prems(2) by (intro Cons.IH) (auto simp: aligned_def)
  with p process_append [OF Cons.prems(1) al] show ?case by simp
qed

theorem process_all_aligned_witness:
  "process_all \<lparr>dec_taps = [Fin 1, Fin 2], dec_factor = 2, dec_history = [Fin 0, Fin 0]\<rparr>
      [[Fin 1, Fin 2, Fin 3, Fin 4], [Fin 5, Fin 6, Fin 7, Fin 8]] =
   process \<lparr>dec_taps = [Fin 1, Fin 2], dec_factor = 2, dec_history = [Fin 0, Fin 0]\<rparr>
      [Fin 1, Fin 2, Fin 3, Fin 4, Fin 5, Fin 6, Fin 7, Fin 8]"
  using process_all_aligned [of "\<lparr>dec_taps = [Fin 1, Fin 2], dec_factor = 2, dec_history = [Fin 0, Fin 0]\<rparr>"
      "[[Fin 1, Fin 2, Fin 3, Fin 4], [Fin 5, Fin 6, Fin 7, Fin 8]]"]
  by (auto simp: decimator_inv_def aligned_def)

text \<open>
  Without alignment a call restarts the decimation grid at its own first sample: its
  output number \<open>n\<close> is the window that starts \<open>n\<close> steps after the start of the chunk, wherever the
  previous chunk's grid ended.
\<close>

theorem process_restarts_grid:
  assumes "decimator_inv d" and "dec_history d = interleave h"
    and "process d (interleave xs) = Some (o1, d1)" and "process d1 (interleave ys) = Some (o2, d2)"
  shows "o2 = interleave (map (\<lambda>n. fir_window (dec_taps d)
      (drop (length xs + n * nat (dec_factor d)) (h @ xs @ ys))) [0..<length ys div nat (dec_factor d)])"
proof -
  from assms(1) obtain h' D where "dec_history d = interleave h'" "length h' = length (dec_taps d) - 1"
    "dec_factor d = int D" "0 < D" "dec_taps d \<noteq> []" by (rule decimator_invE)
  with assms(2) have d: "length h = length (dec_taps d) - 1" "dec_factor d = int D" "0 < D"
    "dec_taps d \<noteq> []" by (metis interleave_length_eq)+
  let ?h' = "lastn (length (dec_taps d) - 1) (h @ xs)"
  have d1: "d1 = d\<lparr>dec_history := interleave ?h'\<rparr>"
    using process_spec [of d "dec_taps d" D h xs] d assms(2,3) by simp
  have "o2 = interleave (fir_decimate (dec_taps d) D (?h' @ ys))"
    using process_spec [of d1 "dec_taps d" D ?h' ys] d assms(4) by (simp add: d1)
  moreover have "?h' @ ys = drop (length xs) (h @ xs @ ys)" using d(1) by (simp add: lastn_def)
  ultimately show ?thesis
    using d by (simp add: fir_decimate_def drop_drop ac_simps del: drop_append)
qed

theorem process_restarts_grid_witness:
  "snd (the (process \<lparr>dec_taps = [Fin 1], dec_factor = 2, dec_history = []\<rparr> [Fin 1, Fin 1, Fin 2, Fin 2, Fin 3, Fin 3]))
      = \<lparr>dec_taps = [Fin 1], dec_factor = 2, dec_history = []\<rparr> \<and>
   (\<exists>o2 d2. process \<lparr>dec_taps = [Fin 1], dec_factor = 2, dec_history = []\<rparr>
      (interleave [(Fin 4, Fin 4), (Fin 5, Fin 5)]) = Some (o2, d2) \<and>
     o2 = interleave (map (\<lambda>n. fir_window [Fin 1] (drop (3 + n * 2)
       ([] @ [(Fin 1, Fin 1), (Fin 2, Fin 2), (Fin 3, Fin 3)] @ [(Fin 4, Fin 4), (Fin 5, Fin 5)]))) [0..<1]))"
proof -
  let ?d = "\<lparr>dec_taps = [Fin 1], dec_factor = 2, dec_history = []\<rparr>"
  let ?xs = "[(Fin 1, Fin 1), (Fin 2, Fin 2), (Fin 3, Fin 3)]"
  have inv: "decimator_inv ?d" by (simp add: decimator_inv_def)
  have d: "dec_history ?d = interleave []" "length ([] :: iq list) = length [Fin 1] - 1"
    "dec_taps ?d = [Fin 1]" "[Fin 1] \<noteq> []" "dec_factor ?d = int 2" "0 < (2::nat)" by simp_all
  have p1: "process ?d (interleave ?xs) = Some (interleave (fir_decimate [Fin 1] 2 ([] @ ?xs)), ?d)"
    using process_spec [OF d(3,4,5,6,1,2), of ?xs] by (simp add: lastn_def)
  obtain o2 d2 where p2: "process ?d (interleave [(Fin 4, Fin 4), (Fin 5, Fin 5)]) = Some (o2, d2)"
    using process_total [OF inv, of "interleave [(Fin 4, Fin 4), (Fin 5, Fin 5)]"] by auto
  have "o2 = interleave (map (\<lambda>n. fir_window [Fin 1] (drop (3 + n * 2)
       ([] @ ?xs @ [(Fin 4, Fin 4), (Fin 5, Fin 5)]))) [0..<1])"
    using process_restarts_grid [OF inv d(1) p1 p2] by simp
  with p1 p2 show ?thesis by simp
qed

text \<open>
  Over any sequence of chunks the filter emits one sample per full decimation step of
  each chunk separately; the remainders of the chunks are not carried over, so a source that
  delivers chunks of \<open>n\<close> samples yields \<open>n div D\<close> outputs per chunk, not one per \<open>D\<close> samples.
\<close>

theorem process_all_count:
  assumes "decimator_inv d" and "\<forall>c \<in> set cs. even (length c)"
  shows "\<exists>outs d'. process_all d cs = Some (outs, d') \<and>
    length outs = 2 * sum_list (map (\<lambda>c. length c div 2 div nat (dec_factor d)) cs)"
  using assms
proof (induction cs arbitrary: d)
  case (Cons c cs)
  then have "even (length c)" by simp
  from process_total [OF Cons.prems(1) this] obtain out d' where
    p: "process d c = Some (out, d')" "decimator_inv d'" "dec_factor d' = dec_factor d"
      "length out = 2 * (length c div 2 div nat (dec_factor d))" by blast
  with Cons.IH [of d'] Cons.prems(2) show ?case by auto
qed simp

theorem process_all_count_witness:
  "\<exists>outs d'. process_all \<lparr>dec_taps = [Fin 1], dec_factor = 2, dec_history = []\<rparr>
      (replicate 4 [Fin 1, Fin 1, Fin 2, Fin 2, Fin 3, Fin 3]) = Some (outs, d') \<and>
    length outs div 2 = 4 \<and> (4 * 3) div 2 = (6::nat)"
  using process_all_count [of "\<lparr>dec_taps = [Fin 1], dec_factor = 2, dec_history = []\<rparr>"
      "replicate 4 [Fin 1, Fin 1, Fin 2, Fin 2, Fin 3, Fin 3]"]
  by (auto simp: decimator_inv_def sum_list_replicate)

end
