(* ===== verification/Nco.thy ===== *)
theory Nco
  imports Decimator
begin

text \<open>
  \<open>src/dsp/nco.hpp\<close>: the numerically controlled oscillator, a rotating phasor that is multiplied
  into the interleaved IQ samples in place. \<open>sin\<close>, \<open>cos\<close> and \<open>hypot\<close> come from the \<open>libm\<close>
  parameter; everything else is computed as the code computes it, in double precision with the
  products stored back as floats.
\<close>

section \<open>The oscillator\<close>

record nco =
  nco_sampleRateHz :: fp
  phaseRe :: fp
  phaseIm :: fp
  rotationRe :: fp
  rotationIm :: fp

definition mk_nco :: "fp \<Rightarrow> nco" where
  "mk_nco sampleRateHz = \<lparr>nco_sampleRateHz = sampleRateHz, phaseRe = Fin 1, phaseIm = Fin 0,
     rotationRe = Fin 1, rotationIm = Fin 0\<rparr>"

definition setOffsetHz :: "libm \<Rightarrow> nco \<Rightarrow> fp \<Rightarrow> nco" where
  "setOffsetHz L n offsetHz =
     (let phaseIncrement = fdiv binary64 (fmul binary64 (fmul binary64 (Fin (-2)) M_PI) offsetHz)
            (nco_sampleRateHz n)
      in n\<lparr>rotationRe := m_cos L phaseIncrement, rotationIm := m_sin L phaseIncrement\<rparr>)"

fun mix_loop :: "fp \<Rightarrow> fp \<Rightarrow> nat list \<Rightarrow> fp list \<Rightarrow> fp \<Rightarrow> fp \<Rightarrow> (fp list \<times> fp \<times> fp) option" where
  "mix_loop rotRe rotIm [] iq phRe phIm = Some (iq, phRe, phIm)"
| "mix_loop rotRe rotIm (i # is) iq phRe phIm =
     (let idx = i * 2 in
      case (read_at iq idx, read_at iq (idx + 1)) of
        (Some sampleI, Some sampleQ) \<Rightarrow>
          let iq' = iq[idx := to_f32 (fsub binary64 (fmul binary64 sampleI phRe) (fmul binary64 sampleQ phIm)),
                       idx + 1 := to_f32 (fadd binary64 (fmul binary64 sampleI phIm) (fmul binary64 sampleQ phRe))];
              nextRe = fsub binary64 (fmul binary64 phRe rotRe) (fmul binary64 phIm rotIm);
              nextIm = fadd binary64 (fmul binary64 phRe rotIm) (fmul binary64 phIm rotRe)
          in mix_loop rotRe rotIm is iq' nextRe nextIm
      | _ \<Rightarrow> None)"

definition mixInPlace :: "libm \<Rightarrow> nco \<Rightarrow> fp list \<Rightarrow> nat \<Rightarrow> (fp list \<times> nco) option" where
  "mixInPlace L n iq numSamples =
     (case mix_loop (rotationRe n) (rotationIm n) [0..<numSamples] iq (phaseRe n) (phaseIm n) of
        None \<Rightarrow> None
      | Some (iq', phRe, phIm) \<Rightarrow>
          let mag = m_hypot L phRe phIm
          in Some (iq', n\<lparr>phaseRe := fdiv binary64 phRe mag, phaseIm := fdiv binary64 phIm mag\<rparr>))"

section \<open>The mixer on complex samples\<close>

definition mix1 :: "iq \<Rightarrow> iq \<Rightarrow> iq" where
  "mix1 s ph = (to_f32 (fsub binary64 (fmul binary64 (fst s) (fst ph)) (fmul binary64 (snd s) (snd ph))),
                to_f32 (fadd binary64 (fmul binary64 (fst s) (snd ph)) (fmul binary64 (snd s) (fst ph))))"

definition advance :: "iq \<Rightarrow> iq \<Rightarrow> iq" where
  "advance rot ph =
     (fsub binary64 (fmul binary64 (fst ph) (fst rot)) (fmul binary64 (snd ph) (snd rot)),
      fadd binary64 (fmul binary64 (fst ph) (snd rot)) (fmul binary64 (snd ph) (fst rot)))"

fun mix_stream :: "iq \<Rightarrow> iq \<Rightarrow> iq list \<Rightarrow> iq list" where
  "mix_stream rot ph [] = []"
| "mix_stream rot ph (s # xs) = mix1 s ph # mix_stream rot (advance rot ph) xs"

definition normalise :: "libm \<Rightarrow> iq \<Rightarrow> iq" where
  "normalise L ph = (let mag = m_hypot L (fst ph) (snd ph)
     in (fdiv binary64 (fst ph) mag, fdiv binary64 (snd ph) mag))"

definition phasor :: "nco \<Rightarrow> iq" where
  "phasor n = (phaseRe n, phaseIm n)"

definition rotation :: "nco \<Rightarrow> iq" where
  "rotation n = (rotationRe n, rotationIm n)"

lemma length_mix_stream [simp]: "length (mix_stream rot ph xs) = length xs"
  by (induction rot ph xs rule: mix_stream.induct) simp_all

lemma mix_stream_append: "mix_stream rot ph (xs @ ys) =
    mix_stream rot ph xs @ mix_stream rot ((advance rot ^^ length xs) ph) ys"
  by (induction rot ph xs rule: mix_stream.induct) (simp_all add: funpow_swap1)

lemma mix_stream_nth: "k < length xs \<Longrightarrow>
    mix_stream rot ph xs ! k = mix1 (xs ! k) ((advance rot ^^ k) ph)"
  by (induction rot ph xs arbitrary: k rule: mix_stream.induct)
     (auto simp: less_Suc_eq_0_disj funpow_swap1)

lemma mix_loop_stream:
  "mix_loop (fst rot) (snd rot) [length done..<length done + length xs]
     (interleave (done @ xs)) (fst ph) (snd ph) =
   Some (interleave (done @ mix_stream rot ph xs), fst ((advance rot ^^ length xs) ph),
     snd ((advance rot ^^ length xs) ph))"
proof (induction xs arbitrary: "done" ph)
  case (Cons s xs)
  let ?n = "length done"
  obtain i q where s: "s = (i, q)" by fastforce
  have "(interleave (done @ s # xs))[?n * 2 := fst (mix1 s ph), Suc (?n * 2) := snd (mix1 s ph)] =
      interleave ((done @ [mix1 s ph]) @ xs)"
    by (cases "mix1 s ph") (simp add: s list_update_append mult.commute)
  moreover have "interleave (done @ s # xs) ! (?n * 2) = i"
    "interleave (done @ s # xs) ! Suc (?n * 2) = q"
    by (simp_all add: s nth_append mult.commute)
  moreover have
    "to_f32 (fsub binary64 (fmul binary64 i (fst ph)) (fmul binary64 q (snd ph))) = fst (mix1 s ph)"
    "to_f32 (fadd binary64 (fmul binary64 i (snd ph)) (fmul binary64 q (fst ph))) = snd (mix1 s ph)"
    "fsub binary64 (fmul binary64 (fst ph) (fst rot)) (fmul binary64 (snd ph) (snd rot)) =
      fst (advance rot ph)"
    "fadd binary64 (fmul binary64 (fst ph) (snd rot)) (fmul binary64 (snd ph) (fst rot)) =
      snd (advance rot ph)"
    by (simp_all add: mix1_def advance_def s)
  moreover have "(advance rot ^^ length (s # xs)) ph = (advance rot ^^ length xs) (advance rot ph)"
    by (simp add: funpow_swap1)
  ultimately show ?case
    using Cons.IH [of "done @ [mix1 s ph]" "advance rot ph"]
    by (simp add: upt_conv_Cons del: upt_Suc interleave_append funpow.simps)
qed simp

lemma mixInPlace_stream:
  "mixInPlace L n (interleave xs) (length xs) =
   Some (interleave (mix_stream (rotation n) (phasor n) xs),
     (let ph = normalise L ((advance (rotation n) ^^ length xs) (phasor n))
      in n\<lparr>phaseRe := fst ph, phaseIm := snd ph\<rparr>))"
  using mix_loop_stream [of "rotation n" "[]" xs "phasor n"]
  by (simp add: mixInPlace_def rotation_def phasor_def normalise_def Let_def split: prod.split)

lemma mixInPlace_samples_lemma:
  "\<exists>ys n'. mixInPlace L n (interleave xs) (length xs) = Some (interleave ys, n') \<and>
     length ys = length xs"
  by (intro exI conjI, rule mixInPlace_stream) simp

section \<open>Properties\<close>

text \<open>
  Property C32: mixing a block of \<open>numSamples\<close> complex samples stays inside the buffer, keeps its
  length, and multiplies sample \<open>k\<close> by the phasor advanced \<open>k\<close> times from where the previous
  block left it; the rotation is not changed.
\<close>

theorem mixInPlace_samples:
  "\<exists>ys n'. mixInPlace L n (interleave xs) (length xs) = Some (interleave ys, n') \<and>
     length ys = length xs \<and> rotation n' = rotation n \<and>
     phasor n' = normalise L ((advance (rotation n) ^^ length xs) (phasor n)) \<and>
     (\<forall>k. k < length xs \<longrightarrow> ys ! k = mix1 (xs ! k) ((advance (rotation n) ^^ k) (phasor n)))"
  by (intro exI conjI, rule mixInPlace_stream)
     (simp_all add: mix_stream_nth rotation_def phasor_def Let_def)

theorem mixInPlace_samples_witness:
  "\<exists>ys. map_option fst (mixInPlace demo_libm
       (mk_nco (Fin 8)) (interleave [(Fin 1, Fin 2)]) 1) = Some (interleave ys) \<and>
     ys ! 0 = mix1 (Fin 1, Fin 2) (Fin 1, Fin 0)"
  using mixInPlace_samples [of demo_libm
      "mk_nco (Fin 8)" "[(Fin 1, Fin 2)]"]
  by (fastforce simp: mk_nco_def phasor_def)

text \<open>The values a sample buffer holds: finite numbers of the type \<open>float\<close>.\<close>

definition is_f32 :: "fp \<Rightarrow> bool" where
  "is_f32 x \<longleftrightarrow> (\<exists>r. x = Fin r \<and> representable binary32 r)"

lemma binary32_in_binary64: "representable binary32 r \<Longrightarrow> representable binary64 r"
proof -
  assume r: "representable binary32 r"
  then obtain m q where m: "r = of_int m * 2 powi q" "\<bar>m\<bar> \<le> 2 ^ 24" "-149 \<le> q"
    by (auto simp: representable_def binary32_def)
  have "\<bar>r\<bar> < 2 powi 128" using r by (simp add: representable_def binary32_def)
  also have "(2::rat) powi 128 < 2 powi 1024" by (simp only: powi_less_iff)
  finally have "\<bar>r\<bar> < 2 powi 1024" .
  moreover have "\<bar>m\<bar> \<le> 2 ^ 53" using m(2) by simp
  moreover have "-1074 \<le> q" using m(3) by simp
  ultimately show ?thesis using m(1)
    by (auto simp: representable_def binary64_def)
qed

lemma is_f32E:
  assumes "is_f32 x"
  obtains r where "x = Fin r" "fpround binary64 r = Fin r" "fpround binary32 r = Fin r"
  using assms b64.fpround_representable b32.fpround_representable binary32_in_binary64
  by (auto simp: is_f32_def)

lemma mix1_unit:
  assumes "is_f32 (fst s)" and "is_f32 (snd s)"
  shows "mix1 s (Fin 1, Fin 0) = s"
proof -
  obtain i q where s: "fst s = Fin i" "snd s = Fin q"
    and r: "fpround binary64 i = Fin i" "fpround binary32 i = Fin i"
      "fpround binary64 q = Fin q" "fpround binary32 q = Fin q"
    using assms by (elim is_f32E)
  then show ?thesis by (simp add: mix1_def fsub_def prod_eq_iff)
qed

lemma advance_unit: "advance (Fin 1, Fin 0) (Fin 1, Fin 0) = (Fin 1, Fin 0)"
proof -
  have "fpround binary64 1 = Fin 1" using f64_of_int_exact [of 1] by (simp add: f64_of_int_def)
  then show ?thesis by (simp add: advance_def fsub_def)
qed

lemma advance_unit_pow: "(advance (Fin 1, Fin 0) ^^ k) (Fin 1, Fin 0) = (Fin 1, Fin 0)"
  by (induction k) (simp_all add: advance_unit)

lemma mix_stream_unit:
  "\<forall>s \<in> set xs. is_f32 (fst s) \<and> is_f32 (snd s) \<Longrightarrow>
     mix_stream (Fin 1, Fin 0) (Fin 1, Fin 0) xs = xs"
  by (induction xs) (simp_all add: mix1_unit advance_unit)

text \<open>What the standard says of the mathematical functions at the arguments used here.\<close>

definition libm_exact_at_zero :: "libm \<Rightarrow> bool" where
  "libm_exact_at_zero L \<longleftrightarrow>
     m_cos L (Fin 0) = Fin 1 \<and> m_sin L (Fin 0) = Fin 0 \<and> m_hypot L (Fin 1) (Fin 0) = Fin 1"

lemma setOffsetHz_zero:
  assumes "libm_exact_at_zero L" and "nco_sampleRateHz n = Fin r" and "r \<noteq> 0"
  shows "setOffsetHz L n (Fin 0) = n\<lparr>rotationRe := Fin 1, rotationIm := Fin 0\<rparr>"
proof -
  have pi: "fmul binary64 (Fin (-2)) M_PI = Fin (- (884279719003555 / 140737488355328))"
  proof -
    have v: "- (884279719003555 / 140737488355328 :: rat) = of_int (-884279719003555) * 2 powi (-47)"
      by (simp add: power_int_minus)
    have "(7::rat) < 2 powi 3" by simp
    also have "\<dots> < 2 powi 1024" by (simp only: powi_less_iff)
    finally have "\<bar>- (884279719003555 / 140737488355328 :: rat)\<bar> < 2 powi 1024" by simp
    then have "representable binary64 (of_int (-884279719003555) * 2 powi (-47))"
      unfolding v by (intro representableI) (simp_all add: binary64_def)
    then have "representable binary64 (- (884279719003555 / 140737488355328))"
      by (simp only: v)
    from b64.fpround_representable [OF this] show ?thesis by (simp add: M_PI_def)
  qed
  show ?thesis using assms by (simp add: setOffsetHz_def pi libm_exact_at_zero_def)
qed

text \<open>
  A receiver tuned to the centre of the wideband capture passes the samples through
  unchanged, bit for bit, and its phasor stays exactly at 1, so any number of blocks can follow.
\<close>

theorem mix_zero_offset_identity:
  assumes "libm_exact_at_zero L" and "r \<noteq> 0"
    and "\<forall>s \<in> set xs. is_f32 (fst s) \<and> is_f32 (snd s)"
  shows "mixInPlace L (setOffsetHz L (mk_nco (Fin r)) (Fin 0)) (interleave xs) (length xs) =
    Some (interleave xs, setOffsetHz L (mk_nco (Fin r)) (Fin 0))"
proof -
  have one: "fpround binary64 1 = Fin 1"
    using f64_of_int_exact [of 1] by (simp add: f64_of_int_def)
  have n: "setOffsetHz L (mk_nco (Fin r)) (Fin 0) = mk_nco (Fin r)"
    using setOffsetHz_zero [OF assms(1), of "mk_nco (Fin r)"] assms(2) by (simp add: mk_nco_def)
  have "normalise L (Fin 1, Fin 0) = (Fin 1, Fin 0)"
    using assms(1) one by (simp add: normalise_def libm_exact_at_zero_def Let_def)
  then show ?thesis
    using mixInPlace_stream [of L "mk_nco (Fin r)" xs] mix_stream_unit [OF assms(3)] n
    by (simp add: rotation_def phasor_def mk_nco_def advance_unit_pow Let_def)
qed

lemma is_f32_int: "\<bar>i\<bar> \<le> 2 ^ 24 \<Longrightarrow> is_f32 (Fin (of_int i))"
  unfolding is_f32_def
  by (intro exI conjI, rule refl, rule b32.representable_int) (simp_all add: binary32_def)

theorem mix_zero_offset_identity_witness:
  "mixInPlace demo_libm
     (setOffsetHz demo_libm
        (mk_nco (Fin 9216000)) (Fin 0)) (interleave [(Fin 1, Fin (-1))]) 1 =
   Some (interleave [(Fin 1, Fin (-1))],
     setOffsetHz demo_libm
        (mk_nco (Fin 9216000)) (Fin 0))"
  using mix_zero_offset_identity [of demo_libm
      9216000 "[(Fin 1, Fin (-1))]"] is_f32_int [of 1] is_f32_int [of "-1"]
  by (simp add: libm_exact_at_zero_def demo_libm_def)

end
