(* ===== verification/Config.thy ===== *)
theory Config
  imports Ieee
begin

text \<open>
  \<open>src/config.hpp\<close> and \<open>src/config.cpp\<close>: the configuration records with their defaults, and the
  loader that reads them from a YAML document and validates them. yaml-cpp is a parameter: the
  record \<open>yaml\<close> holds the accessors the loader calls, over an abstract type of nodes.
\<close>

section \<open>The configuration records\<close>

record sdrplay_config =
  serialNumber :: "string option"
  gainReductionDb :: int
  lnaState :: int
  agc :: bool
  agcSetPointDbfs :: int
  ppm :: fp
  biasT :: bool
  antenna :: "int option"

definition default_sdrplay_config :: sdrplay_config where
  "default_sdrplay_config = \<lparr>serialNumber = None, gainReductionDb = 50, lnaState = 0, agc = False,
     agcSetPointDbfs = -30, ppm = Fin 0, biasT = False, antenna = None\<rparr>"

datatype connection_mode = Api | SdrConnect

record sdrconnect_config =
  host :: string
  port :: u16
  sc_serialNumber :: "string option"
  networkMode :: string
  sc_antenna :: "string option"

definition default_sdrconnect_config :: sdrconnect_config where
  "default_sdrconnect_config = \<lparr>host = ''127.0.0.1'', port = 5454, sc_serialNumber = None,
     networkMode = ''Full IQ'', sc_antenna = None\<rparr>"

record vrx_config =
  vc_name :: string
  tcpPort :: u16
  spyserverPort :: u16
  vc_centerFrequencyHz :: fp
  vc_sampleRateHz :: fp

definition default_vrx_config :: vrx_config where
  "default_vrx_config = \<lparr>vc_name = [], tcpPort = 0, spyserverPort = 0,
     vc_centerFrequencyHz = Fin 0, vc_sampleRateHz = Fin 0\<rparr>"

record app_config =
  connection :: connection_mode
  centerFrequencyHz :: fp
  sampleRateHz :: fp
  sdrplay :: sdrplay_config
  sdrconnect :: "sdrconnect_config option"
  virtualReceivers :: "vrx_config list"

definition default_app_config :: app_config where
  "default_app_config = \<lparr>connection = Api, centerFrequencyHz = Fin 0, sampleRateHz = Fin 0,
     sdrplay = default_sdrplay_config, sdrconnect = None, virtualReceivers = []\<rparr>"

section \<open>The YAML library\<close>

text \<open>
  \<open>y_get\<close> is \<open>node[key]\<close> followed by the test of the resulting node (\<open>None\<close> when it is undefined);
  the conversions are \<open>as<T>()\<close>. Each may throw.
\<close>

record 'n yaml =
  y_load_file :: "string \<Rightarrow> 'n outcome"
  y_load :: "string \<Rightarrow> 'n outcome"
  y_get :: "'n \<Rightarrow> string \<Rightarrow> 'n option outcome"
  y_string :: "'n \<Rightarrow> string outcome"
  y_int :: "'n \<Rightarrow> int outcome"
  y_bool :: "'n \<Rightarrow> bool outcome"
  y_double :: "'n \<Rightarrow> fp outcome"
  y_u16 :: "'n \<Rightarrow> u16 outcome"
  y_is_map :: "'n \<Rightarrow> bool"
  y_is_sequence :: "'n \<Rightarrow> bool"
  y_elems :: "'n \<Rightarrow> 'n list"

definition quoted :: "string \<Rightarrow> string" where
  "quoted s = [CHR 0x22] @ s @ [CHR 0x22]"

definition requireField :: "'n yaml \<Rightarrow> ('n \<Rightarrow> 'a outcome) \<Rightarrow> 'n \<Rightarrow> string \<Rightarrow> string \<Rightarrow> 'a outcome" where
  "requireField Y as_T node key ctxt = bindr (y_get Y node key) (\<lambda>field. case field of
       None \<Rightarrow> Inl (Throw (RuntimeError (ctxt @ '': missing required field '' @ quoted key)))
     | Some f \<Rightarrow> as_T f)"

text \<open>The statement \<open>if (node[key]) cfg.field = node[key].as<T>();\<close>\<close>

definition optField :: "'n yaml \<Rightarrow> ('n \<Rightarrow> 'a outcome) \<Rightarrow> 'n \<Rightarrow> string \<Rightarrow> ('a \<Rightarrow> 'c \<Rightarrow> 'c) \<Rightarrow> 'c \<Rightarrow> 'c outcome" where
  "optField Y as_T node key assign cfg = bindr (y_get Y node key) (\<lambda>field. case field of
       None \<Rightarrow> Inr cfg
     | Some f \<Rightarrow> bindr (as_T f) (\<lambda>v. Inr (assign v cfg)))"

definition parseSdrplayConfig :: "'n yaml \<Rightarrow> 'n \<Rightarrow> sdrplay_config outcome" where
  "parseSdrplayConfig Y node =
     bindr (optField Y (y_string Y) node ''serial_number'' (\<lambda>v c. c\<lparr>serialNumber := Some v\<rparr>) default_sdrplay_config) (\<lambda>c.
     bindr (optField Y (y_int Y) node ''gain_reduction_db'' (\<lambda>v c. c\<lparr>gainReductionDb := v\<rparr>) c) (\<lambda>c.
     bindr (optField Y (y_int Y) node ''lna_state'' (\<lambda>v c. c\<lparr>lnaState := v\<rparr>) c) (\<lambda>c.
     bindr (optField Y (y_bool Y) node ''agc'' (\<lambda>v c. c\<lparr>agc := v\<rparr>) c) (\<lambda>c.
     bindr (optField Y (y_int Y) node ''agc_set_point_dbfs'' (\<lambda>v c. c\<lparr>agcSetPointDbfs := v\<rparr>) c) (\<lambda>c.
     bindr (optField Y (y_double Y) node ''ppm'' (\<lambda>v c. c\<lparr>ppm := v\<rparr>) c) (\<lambda>c.
     bindr (optField Y (y_bool Y) node ''bias_t'' (\<lambda>v c. c\<lparr>biasT := v\<rparr>) c) (\<lambda>c.
     optField Y (y_int Y) node ''antenna'' (\<lambda>v c. c\<lparr>antenna := Some v\<rparr>) c)))))))"

definition parseSdrConnectConfig :: "'n yaml \<Rightarrow> 'n option \<Rightarrow> sdrconnect_config outcome" where
  "parseSdrConnectConfig Y node_opt = (case node_opt of
       None \<Rightarrow> Inl (Throw (RuntimeError (''config: missing required '' @ quoted ''sdrconnect'' @
                 '' section (connection: sdrconnect)'')))
     | Some node \<Rightarrow>
     bindr (optField Y (y_string Y) node ''host'' (\<lambda>v c. c\<lparr>host := v\<rparr>) default_sdrconnect_config) (\<lambda>c.
     bindr (optField Y (y_u16 Y) node ''port'' (\<lambda>v c. c\<lparr>port := v\<rparr>) c) (\<lambda>c.
     bindr (optField Y (y_string Y) node ''serial_number'' (\<lambda>v c. c\<lparr>sc_serialNumber := Some v\<rparr>) c) (\<lambda>c.
     bindr (optField Y (y_string Y) node ''network_mode'' (\<lambda>v c. c\<lparr>networkMode := v\<rparr>) c) (\<lambda>c.
     bindr (optField Y (y_string Y) node ''antenna'' (\<lambda>v c. c\<lparr>sc_antenna := Some v\<rparr>) c) (\<lambda>c.
     if networkMode c \<noteq> ''Full IQ'' \<and> networkMode c \<noteq> ''IQ Lite'' \<and> networkMode c \<noteq> ''Compact'' then
       Inl (Throw (RuntimeError (''config: sdrconnect.network_mode must be one of '' @
         quoted ''Full IQ'' @ '', '' @ quoted ''IQ Lite'' @ '', '' @ quoted ''Compact'' @
         '', got '' @ quoted (networkMode c))))
     else Inr c))))))"

definition parseVirtualReceiverConfig :: "'n yaml \<Rightarrow> 'n \<Rightarrow> vrx_config outcome" where
  "parseVirtualReceiverConfig Y node =
     (let c0 = default_vrx_config in
      bindr (requireField Y (y_string Y) node ''name'' ''virtual_receivers[]'') (\<lambda>nm.
      let ctxt = ''virtual_receivers[]: '' @ quoted nm; c1 = c0\<lparr>vc_name := nm\<rparr> in
      bindr (requireField Y (y_u16 Y) node ''tcp_port'' ctxt) (\<lambda>tp.
      bindr (optField Y (y_u16 Y) node ''spyserver_port'' (\<lambda>v c. c\<lparr>spyserverPort := v\<rparr>) (c1\<lparr>tcpPort := tp\<rparr>)) (\<lambda>c.
      bindr (requireField Y (y_double Y) node ''center_frequency_hz'' ctxt) (\<lambda>f.
      bindr (requireField Y (y_double Y) node ''sample_rate_hz'' ctxt) (\<lambda>s.
      Inr (c\<lparr>vc_centerFrequencyHz := f, vc_sampleRateHz := s\<rparr>)))))))"

section \<open>Loading and validation\<close>

definition rate_message :: "string \<Rightarrow> string \<Rightarrow> fp \<Rightarrow> fp \<Rightarrow> string" where
  "rate_message prefix nm wide rate = prefix @ quoted nm @ '': wideband sample rate '' @
     to_string_f64 wide @ '' is not an integer multiple of requested VRX sample rate '' @
     to_string_f64 rate @ ''. See dsp/decimator.hpp.''"

text \<open>The final loop over the receivers; the first bad one throws.\<close>

fun validate_rates :: "fp \<Rightarrow> vrx_config list \<Rightarrow> unit outcome" where
  "validate_rates wide [] = Inr ()"
| "validate_rates wide (v # vs) =
     (if wide \<le> Fin 0 \<or> \<not> feq (std_fmod wide (vc_sampleRateHz v)) (Fin 0) then
        Inl (Throw (RuntimeError (rate_message ''config: VRX '' (vc_name v) wide (vc_sampleRateHz v))))
      else validate_rates wide vs)"

definition parse_connection :: "'n yaml \<Rightarrow> 'n \<Rightarrow> app_config \<Rightarrow> app_config outcome" where
  "parse_connection Y doc cfg = bindr (y_get Y doc ''connection'') (\<lambda>field. case field of
       None \<Rightarrow> Inr cfg
     | Some f \<Rightarrow> bindr (y_string Y f) (\<lambda>mode.
         if mode = ''api'' then Inr (cfg\<lparr>connection := Api\<rparr>)
         else if mode = ''sdrconnect'' then Inr (cfg\<lparr>connection := SdrConnect\<rparr>)
         else Inl (Throw (RuntimeError (''config: '' @ quoted ''connection'' @ '' must be '' @
           quoted ''api'' @ '' or '' @ quoted ''sdrconnect'' @ '', got '' @ quoted mode)))))"

definition parse_sdrplay_section :: "'n yaml \<Rightarrow> 'n \<Rightarrow> app_config \<Rightarrow> app_config outcome" where
  "parse_sdrplay_section Y doc cfg = bindr (y_get Y doc ''sdrplay'') (\<lambda>sec. case sec of
       None \<Rightarrow> if connection cfg = Api
                then Inl (Throw (RuntimeError (''config: missing required '' @ quoted ''sdrplay'' @
                       '' section (connection: api)'')))
                else Inr cfg
     | Some node \<Rightarrow> bindr (parseSdrplayConfig Y node) (\<lambda>s. Inr (cfg\<lparr>sdrplay := s\<rparr>)))"

definition parse_sdrconnect_section :: "'n yaml \<Rightarrow> 'n \<Rightarrow> app_config \<Rightarrow> app_config outcome" where
  "parse_sdrconnect_section Y doc cfg =
     (if connection cfg = SdrConnect then
        bindr (y_get Y doc ''sdrconnect'') (\<lambda>sec.
        bindr (parseSdrConnectConfig Y sec) (\<lambda>s. Inr (cfg\<lparr>sdrconnect := Some s\<rparr>)))
      else Inr cfg)"

definition parse_receivers :: "'n yaml \<Rightarrow> 'n \<Rightarrow> app_config \<Rightarrow> app_config outcome" where
  "parse_receivers Y doc cfg =
     (let missing = Throw (RuntimeError (''config: missing/empty required '' @
            quoted ''virtual_receivers'' @ '' list'')) in
      bindr (y_get Y doc ''virtual_receivers'') (\<lambda>sec. case sec of
        None \<Rightarrow> Inl missing
      | Some node \<Rightarrow>
          if \<not> y_is_sequence Y node \<or> length (y_elems Y node) = 0 then Inl missing
          else bindr (mapr (parseVirtualReceiverConfig Y) (y_elems Y node)) (\<lambda>vs.
               Inr (cfg\<lparr>virtualReceivers := vs\<rparr>))))"

definition load_doc :: "'n yaml \<Rightarrow> string \<Rightarrow> 'n outcome" where
  "load_doc Y path = (case y_load_file Y path of
       Inl (Throw (YamlException what)) \<Rightarrow>
         Inl (Throw (RuntimeError (''config: failed to parse '' @ quoted path @ '': '' @ what)))
     | r \<Rightarrow> r)"

definition loadConfig :: "'n yaml \<Rightarrow> string \<Rightarrow> app_config outcome" where
  "loadConfig Y path =
     bindr (load_doc Y path) (\<lambda>doc.
     bindr (requireField Y (y_double Y) doc ''center_frequency_hz'' ''config'') (\<lambda>fc.
     bindr (requireField Y (y_double Y) doc ''sample_rate_hz'' ''config'') (\<lambda>sr.
     bindr (parse_connection Y doc (default_app_config\<lparr>centerFrequencyHz := fc, sampleRateHz := sr\<rparr>)) (\<lambda>c.
     bindr (parse_sdrplay_section Y doc c) (\<lambda>c.
     bindr (parse_sdrconnect_section Y doc c) (\<lambda>c.
     bindr (parse_receivers Y doc c) (\<lambda>c.
     bindr (validate_rates (sampleRateHz c) (virtualReceivers c)) (\<lambda>_.
     Inr c))))))))"

section \<open>A concrete library\<close>

text \<open>
  Documents as trees, to instantiate the parameter: scalars convert to the one type they were
  written with (an integer also reads as \<open>double\<close> and as \<open>uint16_t\<close> when in range), anything else
  throws.
\<close>

datatype ytree = YStr string | YInt int | YBool bool | YMap "(string \<times> ytree) list" | YSeq "ytree list"

definition bad_conversion :: "'a outcome" where
  "bad_conversion = Inl (Throw (YamlException ''bad conversion''))"

definition tree_yaml :: "ytree \<Rightarrow> ytree yaml" where
  "tree_yaml doc = \<lparr>y_load_file = (\<lambda>_. Inr doc), y_load = (\<lambda>_. Inr doc),
     y_get = (\<lambda>n k. case n of YMap es \<Rightarrow> Inr (map_of es k) | YSeq _ \<Rightarrow> Inr None
                | _ \<Rightarrow> Inl (Throw (YamlException ''bad subscript''))),
     y_string = (\<lambda>n. case n of YStr s \<Rightarrow> Inr s | YInt i \<Rightarrow> Inr (show_int i)
                | YBool b \<Rightarrow> Inr (if b then ''true'' else ''false'') | _ \<Rightarrow> bad_conversion),
     y_int = (\<lambda>n. case n of YInt i \<Rightarrow> Inr i | _ \<Rightarrow> bad_conversion),
     y_bool = (\<lambda>n. case n of YBool b \<Rightarrow> Inr b | _ \<Rightarrow> bad_conversion),
     y_double = (\<lambda>n. case n of YInt i \<Rightarrow> Inr (Fin (of_int i)) | _ \<Rightarrow> bad_conversion),
     y_u16 = (\<lambda>n. case n of YInt i \<Rightarrow> if 0 \<le> i \<and> i < 65536 then Inr (word_of_int i) else bad_conversion
                | _ \<Rightarrow> bad_conversion),
     y_is_map = (\<lambda>n. case n of YMap _ \<Rightarrow> True | _ \<Rightarrow> False),
     y_is_sequence = (\<lambda>n. case n of YSeq _ \<Rightarrow> True | _ \<Rightarrow> False),
     y_elems = (\<lambda>n. case n of YSeq xs \<Rightarrow> xs | _ \<Rightarrow> [])\<rparr>"

section \<open>Properties\<close>

definition rate_divides :: "rat \<Rightarrow> vrx_config \<Rightarrow> bool" where
  "rate_divides r v \<longleftrightarrow> (\<exists>s k. vc_sampleRateHz v = Fin s \<and> k \<noteq> 0 \<and> r = of_int k * s)"

definition config_ok :: "app_config \<Rightarrow> bool" where
  "config_ok c \<longleftrightarrow> virtualReceivers c \<noteq> [] \<and>
     (connection c = SdrConnect \<longleftrightarrow> sdrconnect c \<noteq> None) \<and>
     (\<forall>s. sdrconnect c = Some s \<longrightarrow> networkMode s \<in> {''Full IQ'', ''IQ Lite'', ''Compact''}) \<and>
     (\<exists>r. sampleRateHz c = Fin r \<and> 0 < r \<and> (\<forall>v \<in> set (virtualReceivers c). rate_divides r v))"

lemma fmod_zeroD:
  assumes "feq (std_fmod x y) (Fin 0)" and "\<not> x \<le> Fin 0"
  shows "\<exists>r s k. x = Fin r \<and> y = Fin s \<and> 0 < r \<and> k \<noteq> 0 \<and> r = of_int k * s"
proof -
  obtain r where x: "x = Fin r" "0 < r" using assms by (cases x) (auto simp: feq_def)
  with assms(1) obtain s where y: "y = Fin s" "s \<noteq> 0" and "r - of_int (rtrunc (r / s)) * s = 0"
    by (cases y) (auto simp: feq_def split: if_splits)
  then have "r = of_int (rtrunc (r / s)) * s" by simp
  moreover have "rtrunc (r / s) \<noteq> 0" using calculation x(2) by auto
  ultimately show ?thesis using x y by blast
qed

lemma validate_rates_ok:
  "validate_rates wide vs = Inr () \<Longrightarrow> vs \<noteq> [] \<Longrightarrow>
     \<exists>r. wide = Fin r \<and> 0 < r \<and> (\<forall>v \<in> set vs. rate_divides r v)"
proof (induction wide vs rule: validate_rates.induct)
  case (2 wide v vs)
  then have ok: "feq (std_fmod wide (vc_sampleRateHz v)) (Fin 0)" "\<not> wide \<le> Fin 0"
    and rest: "validate_rates wide vs = Inr ()" by (auto split: if_splits)
  from fmod_zeroD [OF ok] obtain r s k where
    r: "wide = Fin r" "0 < r" "vc_sampleRateHz v = Fin s" "k \<noteq> 0" "r = of_int k * s" by blast
  then have "rate_divides r v" unfolding rate_divides_def by blast
  with r "2.IH" [OF _ rest] ok show ?case by (cases "vs = []") auto
qed simp

lemma parse_connection_frame:
  "parse_connection Y doc c = Inr c' \<Longrightarrow> sdrconnect c' = sdrconnect c"
  by (auto simp: parse_connection_def split: option.splits if_splits)

lemma parse_sdrplay_section_frame:
  "parse_sdrplay_section Y doc c = Inr c' \<Longrightarrow> sdrconnect c' = sdrconnect c \<and> connection c' = connection c"
  by (auto simp: parse_sdrplay_section_def split: option.splits if_splits)

lemma parseSdrConnectConfig_mode:
  "parseSdrConnectConfig Y n = Inr s \<Longrightarrow> networkMode s \<in> {''Full IQ'', ''IQ Lite'', ''Compact''}"
  by (auto simp: parseSdrConnectConfig_def split: option.splits if_splits)

lemma parse_sdrconnect_section_ok:
  "parse_sdrconnect_section Y doc c = Inr c' \<Longrightarrow> sdrconnect c = None \<Longrightarrow>
     (connection c' = SdrConnect \<longleftrightarrow> sdrconnect c' \<noteq> None) \<and>
     (\<forall>s. sdrconnect c' = Some s \<longrightarrow> networkMode s \<in> {''Full IQ'', ''IQ Lite'', ''Compact''})"
  by (auto simp: parse_sdrconnect_section_def split: if_splits dest!: parseSdrConnectConfig_mode)

lemma parse_receivers_ok:
  "parse_receivers Y doc c = Inr c' \<Longrightarrow> virtualReceivers c' \<noteq> [] \<and>
     sdrconnect c' = sdrconnect c \<and> connection c' = connection c"
  by (auto simp: parse_receivers_def Let_def mapr_Inr_iff split: option.splits if_splits
      dest: list_all2_lengthD)

lemma loadConfig_sound:
  assumes "loadConfig Y path = Inr c"
  shows "config_ok c"
proof -
  obtain doc fc sr c1 c2 c3 where
    1: "parse_connection Y doc (default_app_config\<lparr>centerFrequencyHz := fc, sampleRateHz := sr\<rparr>) = Inr c1"
    and 2: "parse_sdrplay_section Y doc c1 = Inr c2"
    and 3: "parse_sdrconnect_section Y doc c2 = Inr c3"
    and 4: "parse_receivers Y doc c3 = Inr c"
    and 5: "validate_rates (sampleRateHz c) (virtualReceivers c) = Inr ()"
    using assms by (auto simp: loadConfig_def)
  have "sdrconnect c2 = None"
    using parse_connection_frame [OF 1] parse_sdrplay_section_frame [OF 2]
    by (simp add: default_app_config_def)
  then show ?thesis
    using parse_sdrconnect_section_ok [OF 3] parse_receivers_ok [OF 4] validate_rates_ok [OF 5]
    unfolding config_ok_def by auto
qed

text \<open>
  Property C27: a configuration the loader accepts has at least one receiver, a finite positive
  wideband rate that is a non-zero integer multiple of every receiver's rate, and the
  SDRconnect settings exactly when that backend is selected, with one of the three known modes.
\<close>

theorem loadConfig_ok:
  assumes "loadConfig Y path = Inr c"
  shows "config_ok c"
  by (rule loadConfig_sound [OF assms])

text \<open>The configuration file of the repository, without its comments.\<close>

definition example_doc :: ytree where
  "example_doc = YMap [(''connection'', YStr ''api''), (''center_frequency_hz'', YInt 159350000),
     (''sample_rate_hz'', YInt 9216000),
     (''sdrplay'', YMap [(''serial_number'', YStr ''210509A745''), (''gain_reduction_db'', YInt 40),
        (''lna_state'', YInt 4), (''agc'', YBool True), (''agc_set_point_dbfs'', YInt (-30)),
        (''ppm'', YInt 0), (''bias_t'', YBool False), (''antenna'', YInt 2)]),
     (''virtual_receivers'', YSeq [
        YMap [(''name'', YStr ''marine-vhf''), (''tcp_port'', YInt 1235), (''spyserver_port'', YInt 5555),
          (''center_frequency_hz'', YInt 156700000), (''sample_rate_hz'', YInt 512000)],
        YMap [(''name'', YStr ''marine-ais''), (''tcp_port'', YInt 1236), (''spyserver_port'', YInt 5556),
          (''center_frequency_hz'', YInt 162000000), (''sample_rate_hz'', YInt 288000)]])]"

definition example_config :: app_config where
  "example_config = \<lparr>connection = Api, centerFrequencyHz = Fin 159350000, sampleRateHz = Fin 9216000,
     sdrplay = \<lparr>serialNumber = Some ''210509A745'', gainReductionDb = 40, lnaState = 4, agc = True,
       agcSetPointDbfs = -30, ppm = Fin 0, biasT = False, antenna = Some 2\<rparr>, sdrconnect = None,
     virtualReceivers = [
       \<lparr>vc_name = ''marine-vhf'', tcpPort = 1235, spyserverPort = 5555,
         vc_centerFrequencyHz = Fin 156700000, vc_sampleRateHz = Fin 512000\<rparr>,
       \<lparr>vc_name = ''marine-ais'', tcpPort = 1236, spyserverPort = 5556,
         vc_centerFrequencyHz = Fin 162000000, vc_sampleRateHz = Fin 288000\<rparr>]\<rparr>"

lemma load_example: "loadConfig (tree_yaml example_doc) ''config.yaml'' = Inr example_config"
  by (simp add: loadConfig_def load_doc_def tree_yaml_def example_doc_def requireField_def
      parse_connection_def parse_sdrplay_section_def parseSdrplayConfig_def optField_def
      parse_sdrconnect_section_def parse_receivers_def parseVirtualReceiverConfig_def Let_def
      default_app_config_def default_sdrplay_config_def default_vrx_config_def example_config_def
      feq_def rtrunc_def)

theorem loadConfig_ok_witness: "config_ok example_config"
  by (rule loadConfig_ok [OF load_example])

text \<open>
  Failures. \<open>lib_throws\<close>: an accessor of the library fails by throwing one of its own exceptions,
  which are subclasses of \<open>std::runtime_error\<close>.
\<close>

definition lib_throws :: "'a outcome \<Rightarrow> bool" where
  "lib_throws r \<longleftrightarrow> (\<forall>f. r = Inl f \<longrightarrow> (\<exists>m. f = Throw (YamlException m)))"

definition yaml_contract :: "'n yaml \<Rightarrow> bool" where
  "yaml_contract Y \<longleftrightarrow> (\<forall>p. lib_throws (y_load_file Y p)) \<and> (\<forall>s. lib_throws (y_load Y s)) \<and>
     (\<forall>n k. lib_throws (y_get Y n k)) \<and> (\<forall>n. lib_throws (y_string Y n)) \<and>
     (\<forall>n. lib_throws (y_int Y n)) \<and> (\<forall>n. lib_throws (y_bool Y n)) \<and>
     (\<forall>n. lib_throws (y_double Y n)) \<and> (\<forall>n. lib_throws (y_u16 Y n))"

definition runtime_only :: "'a outcome \<Rightarrow> bool" where
  "runtime_only r \<longleftrightarrow>
     (\<forall>f. r = Inl f \<longrightarrow> (\<exists>m. f = Throw (RuntimeError m) \<or> f = Throw (YamlException m)))"

lemma runtime_only_simps [simp]: "runtime_only (Inr a)" "runtime_only (Inl (Throw (RuntimeError m)))"
  by (simp_all add: runtime_only_def)

lemma runtime_only_lib: "lib_throws r \<Longrightarrow> runtime_only r"
  by (auto simp: runtime_only_def lib_throws_def)

lemma runtime_only_bindr [intro!]:
  "runtime_only m \<Longrightarrow> (\<And>a. runtime_only (f a)) \<Longrightarrow> runtime_only (bindr m f)"
  by (cases m) (auto simp: runtime_only_def)

lemma runtime_only_mapr: "(\<And>x. runtime_only (f x)) \<Longrightarrow> runtime_only (mapr f xs)"
  by (induction xs) auto

lemma runtime_only_requireField:
  "yaml_contract Y \<Longrightarrow> (\<And>n. runtime_only (as_T n)) \<Longrightarrow> runtime_only (requireField Y as_T n k ctxt)"
  by (auto simp: requireField_def yaml_contract_def intro: runtime_only_lib split: option.split)

lemma runtime_only_optField:
  "yaml_contract Y \<Longrightarrow> (\<And>n. runtime_only (as_T n)) \<Longrightarrow> runtime_only (optField Y as_T n k asg c)"
  by (auto simp: optField_def yaml_contract_def intro: runtime_only_lib split: option.split)

lemma runtime_only_accessors:
  assumes "yaml_contract Y"
  shows "runtime_only (y_get Y n k)" "runtime_only (y_string Y n)" "runtime_only (y_int Y n)"
    "runtime_only (y_bool Y n)" "runtime_only (y_double Y n)" "runtime_only (y_u16 Y n)"
  using assms by (auto simp: yaml_contract_def intro: runtime_only_lib)

lemmas runtime_only_rules =
  runtime_only_requireField runtime_only_optField runtime_only_accessors runtime_only_mapr

lemma runtime_only_parsers:
  assumes "yaml_contract Y"
  shows "runtime_only (parseSdrplayConfig Y n)" "runtime_only (parseSdrConnectConfig Y n')"
    "runtime_only (parseVirtualReceiverConfig Y n)"
  using assms
  by (auto simp: parseSdrplayConfig_def parseSdrConnectConfig_def parseVirtualReceiverConfig_def Let_def
      intro!: runtime_only_rules split: option.split)

lemma runtime_only_validate: "runtime_only (validate_rates wide vs)"
  by (induction wide vs rule: validate_rates.induct) simp_all

lemma runtime_only_load_doc: "yaml_contract Y \<Longrightarrow> runtime_only (load_doc Y path)"
  by (cases "y_load_file Y path")
     (auto simp: load_doc_def yaml_contract_def lib_throws_def runtime_only_def
       split: sum.splits fault.splits exn.splits)

text \<open>
  Whatever the document, loading fails only by throwing \<open>std::runtime_error\<close> or one of its yaml-cpp
  subclasses, the exceptions the caller's handler reports.
\<close>

lemma loadConfig_runtime_only:
  assumes "yaml_contract Y"
  shows "runtime_only (loadConfig Y path)"
  using assms
  by (auto simp: loadConfig_def parse_connection_def parse_sdrplay_section_def
      parse_sdrconnect_section_def parse_receivers_def Let_def
      intro!: runtime_only_rules runtime_only_parsers runtime_only_validate runtime_only_load_doc
      split: option.split)

section \<open>The requirements on a document, in the order they are checked\<close>

text \<open>What a document says: the values of its fields, \<open>None\<close> where a field is absent.\<close>

record raw_vrx =
  rv_name :: "string option"
  rv_tcp :: "u16 option"
  rv_spy :: "u16 option"
  rv_center :: "fp option"
  rv_rate :: "fp option"

record raw_config =
  raw_center :: "fp option"
  raw_rate :: "fp option"
  raw_connection :: "string option"
  raw_sdrplay :: "sdrplay_config option"
  raw_sdrconnect :: "sdrconnect_config option"
  raw_receivers :: "raw_vrx list option"

text \<open>
  The library reads a field: it is absent, or it is there and converts. What follows states that a document
  is readable through the library's accessors and says what the raw record says; optional fields that are
  absent have their default.
\<close>

definition reads :: "'n yaml \<Rightarrow> ('n \<Rightarrow> 'a outcome) \<Rightarrow> 'n \<Rightarrow> string \<Rightarrow> 'a option \<Rightarrow> bool" where
  "reads Y as_T node key v \<longleftrightarrow> (case v of
       None \<Rightarrow> y_get Y node key = Inr None
     | Some x \<Rightarrow> \<exists>n. y_get Y node key = Inr (Some n) \<and> as_T n = Inr x)"

definition or_default :: "'a \<Rightarrow> 'a option \<Rightarrow> 'a" where
  "or_default d v = (case v of None \<Rightarrow> d | Some x \<Rightarrow> x)"

definition reads_sdrplay :: "'n yaml \<Rightarrow> 'n \<Rightarrow> sdrplay_config \<Rightarrow> bool" where
  "reads_sdrplay Y node s \<longleftrightarrow> (\<exists>gain lna ag point pp bt.
     reads Y (y_string Y) node ''serial_number'' (serialNumber s) \<and>
     reads Y (y_int Y) node ''gain_reduction_db'' gain \<and> gainReductionDb s = or_default 50 gain \<and>
     reads Y (y_int Y) node ''lna_state'' lna \<and> lnaState s = or_default 0 lna \<and>
     reads Y (y_bool Y) node ''agc'' ag \<and> agc s = or_default False ag \<and>
     reads Y (y_int Y) node ''agc_set_point_dbfs'' point \<and> agcSetPointDbfs s = or_default (-30) point \<and>
     reads Y (y_double Y) node ''ppm'' pp \<and> ppm s = or_default (Fin 0) pp \<and>
     reads Y (y_bool Y) node ''bias_t'' bt \<and> biasT s = or_default False bt \<and>
     reads Y (y_int Y) node ''antenna'' (antenna s))"

definition reads_sdrconnect :: "'n yaml \<Rightarrow> 'n \<Rightarrow> sdrconnect_config \<Rightarrow> bool" where
  "reads_sdrconnect Y node s \<longleftrightarrow> (\<exists>ho po mo.
     reads Y (y_string Y) node ''host'' ho \<and> host s = or_default ''127.0.0.1'' ho \<and>
     reads Y (y_u16 Y) node ''port'' po \<and> port s = or_default 5454 po \<and>
     reads Y (y_string Y) node ''serial_number'' (sc_serialNumber s) \<and>
     reads Y (y_string Y) node ''network_mode'' mo \<and> networkMode s = or_default ''Full IQ'' mo \<and>
     reads Y (y_string Y) node ''antenna'' (sc_antenna s))"

definition reads_vrx :: "'n yaml \<Rightarrow> 'n \<Rightarrow> raw_vrx \<Rightarrow> bool" where
  "reads_vrx Y node r \<longleftrightarrow> reads Y (y_string Y) node ''name'' (rv_name r) \<and>
     reads Y (y_u16 Y) node ''tcp_port'' (rv_tcp r) \<and> reads Y (y_u16 Y) node ''spyserver_port'' (rv_spy r) \<and>
     reads Y (y_double Y) node ''center_frequency_hz'' (rv_center r) \<and>
     reads Y (y_double Y) node ''sample_rate_hz'' (rv_rate r)"

text \<open>A section or a list that is absent, or there and read by the given relation.\<close>

definition reads_part :: "'n yaml \<Rightarrow> ('n \<Rightarrow> 'a \<Rightarrow> bool) \<Rightarrow> 'n \<Rightarrow> string \<Rightarrow> 'a option \<Rightarrow> bool" where
  "reads_part Y R node key v \<longleftrightarrow> (case v of
       None \<Rightarrow> y_get Y node key = Inr None
     | Some x \<Rightarrow> \<exists>n. y_get Y node key = Inr (Some n) \<and> R n x)"

definition reads_list :: "'n yaml \<Rightarrow> 'n \<Rightarrow> raw_vrx list option \<Rightarrow> bool" where
  "reads_list Y node v \<longleftrightarrow> (case v of
       None \<Rightarrow> \<not> y_is_sequence Y node
     | Some rs \<Rightarrow> y_is_sequence Y node \<and> list_all2 (reads_vrx Y) (y_elems Y node) rs)"

definition reads_config :: "'n yaml \<Rightarrow> 'n \<Rightarrow> raw_config \<Rightarrow> bool" where
  "reads_config Y doc r \<longleftrightarrow> reads Y (y_double Y) doc ''center_frequency_hz'' (raw_center r) \<and>
     reads Y (y_double Y) doc ''sample_rate_hz'' (raw_rate r) \<and>
     reads Y (y_string Y) doc ''connection'' (raw_connection r) \<and>
     reads_part Y (reads_sdrplay Y) doc ''sdrplay'' (raw_sdrplay r) \<and>
     reads_part Y (reads_sdrconnect Y) doc ''sdrconnect'' (raw_sdrconnect r) \<and>
     ((raw_receivers r = None \<and> y_get Y doc ''virtual_receivers'' = Inr None) \<or>
      (\<exists>n. y_get Y doc ''virtual_receivers'' = Inr (Some n) \<and> reads_list Y n (raw_receivers r)))"

text \<open>The requirements, as the list of the messages of all that are violated, in the order of the checks.\<close>

definition missing_field :: "string \<Rightarrow> string \<Rightarrow> 'a option \<Rightarrow> string list" where
  "missing_field ctxt key v = (if v = None then [ctxt @ '': missing required field '' @ quoted key] else [])"

definition raw_mode :: "raw_config \<Rightarrow> connection_mode" where
  "raw_mode r = (if raw_connection r = Some ''sdrconnect'' then SdrConnect else Api)"

definition vrx_errors :: "raw_vrx \<Rightarrow> string list" where
  "vrx_errors r = (case rv_name r of
       None \<Rightarrow> missing_field ''virtual_receivers[]'' ''name'' (rv_name r)
     | Some nm \<Rightarrow> (let ctxt = ''virtual_receivers[]: '' @ quoted nm in
         missing_field ctxt ''tcp_port'' (rv_tcp r) @
         missing_field ctxt ''center_frequency_hz'' (rv_center r) @
         missing_field ctxt ''sample_rate_hz'' (rv_rate r)))"

definition connection_errors :: "raw_config \<Rightarrow> string list" where
  "connection_errors r = (case raw_connection r of
       None \<Rightarrow> []
     | Some m \<Rightarrow> if m \<in> {''api'', ''sdrconnect''} then []
         else [''config: '' @ quoted ''connection'' @ '' must be '' @ quoted ''api'' @ '' or '' @
               quoted ''sdrconnect'' @ '', got '' @ quoted m])"

definition section_errors :: "raw_config \<Rightarrow> string list" where
  "section_errors r =
     (if raw_mode r = Api then
        (if raw_sdrplay r = None
         then [''config: missing required '' @ quoted ''sdrplay'' @ '' section (connection: api)''] else [])
      else case raw_sdrconnect r of
        None \<Rightarrow> [''config: missing required '' @ quoted ''sdrconnect'' @ '' section (connection: sdrconnect)'']
      | Some s \<Rightarrow> if networkMode s \<in> {''Full IQ'', ''IQ Lite'', ''Compact''} then []
          else [''config: sdrconnect.network_mode must be one of '' @ quoted ''Full IQ'' @ '', '' @
                quoted ''IQ Lite'' @ '', '' @ quoted ''Compact'' @ '', got '' @ quoted (networkMode s)])"

definition receiver_errors :: "raw_config \<Rightarrow> string list" where
  "receiver_errors r = (case raw_receivers r of
       Some (v # vs) \<Rightarrow> concat (map vrx_errors (v # vs))
     | _ \<Rightarrow> [''config: missing/empty required '' @ quoted ''virtual_receivers'' @ '' list''])"

text \<open>The values of a document that violates nothing.\<close>

definition made_vrx :: "raw_vrx \<Rightarrow> vrx_config" where
  "made_vrx r = \<lparr>vc_name = the (rv_name r), tcpPort = the (rv_tcp r), spyserverPort = or_default 0 (rv_spy r),
     vc_centerFrequencyHz = the (rv_center r), vc_sampleRateHz = the (rv_rate r)\<rparr>"

definition made_config :: "raw_config \<Rightarrow> app_config" where
  "made_config r = \<lparr>connection = raw_mode r, centerFrequencyHz = the (raw_center r), sampleRateHz = the (raw_rate r),
     sdrplay = or_default default_sdrplay_config (raw_sdrplay r),
     sdrconnect = (if raw_mode r = SdrConnect then raw_sdrconnect r else None),
     virtualReceivers = map made_vrx (the (raw_receivers r))\<rparr>"

text \<open>The receivers whose rate does not divide the wideband rate, in exact arithmetic.\<close>

definition rate_accepted :: "fp \<Rightarrow> vrx_config \<Rightarrow> bool" where
  "rate_accepted wide v \<longleftrightarrow> (\<exists>r. wide = Fin r \<and> 0 < r \<and> rate_divides r v)"

definition rate_errors :: "app_config \<Rightarrow> string list" where
  "rate_errors c = map (\<lambda>v. rate_message ''config: VRX '' (vc_name v) (sampleRateHz c) (vc_sampleRateHz v))
     (filter (\<lambda>v. \<not> rate_accepted (sampleRateHz c) v) (virtualReceivers c))"

definition config_errors :: "raw_config \<Rightarrow> string list" where
  "config_errors r = missing_field ''config'' ''center_frequency_hz'' (raw_center r) @
     missing_field ''config'' ''sample_rate_hz'' (raw_rate r) @
     connection_errors r @ section_errors r @ receiver_errors r @ rate_errors (made_config r)"

definition first_error :: "string list \<Rightarrow> 'a \<Rightarrow> 'a outcome" where
  "first_error es a = (case es of [] \<Rightarrow> Inr a | m # _ \<Rightarrow> Inl (Throw (RuntimeError m)))"

lemma first_error_simps [simp]: "first_error [] a = Inr a"
  "first_error (m # es) a = Inl (Throw (RuntimeError m))"
  by (simp_all add: first_error_def)

text \<open>Checks in sequence: the later ones matter when the earlier ones are passed.\<close>

lemma bind_first_error:
  assumes "es = [] \<Longrightarrow> f a = first_error fs b"
  shows "bindr (first_error es a) f = first_error (es @ fs) b"
  using assms by (cases es) simp_all

lemma requireField_reads: "reads Y as_T node key v \<Longrightarrow>
    requireField Y as_T node key ctxt = first_error (missing_field ctxt key v) (the v)"
  by (cases v) (auto simp: reads_def requireField_def missing_field_def)

lemma optField_reads: "reads Y as_T node key v \<Longrightarrow>
    optField Y as_T node key assign c = Inr (case v of None \<Rightarrow> c | Some x \<Rightarrow> assign x c)"
  by (cases v) (auto simp: reads_def optField_def)

lemma sdrplay_reads: "reads_sdrplay Y node s \<Longrightarrow> parseSdrplayConfig Y node = Inr s"
  unfolding reads_sdrplay_def parseSdrplayConfig_def
  by (elim exE conjE) (simp add: optField_reads default_sdrplay_config_def or_default_def split: option.split)

lemma sdrconnect_reads: "reads_sdrconnect Y node s \<Longrightarrow> parseSdrConnectConfig Y (Some node) =
    first_error (if networkMode s \<in> {''Full IQ'', ''IQ Lite'', ''Compact''} then []
      else [''config: sdrconnect.network_mode must be one of '' @ quoted ''Full IQ'' @ '', '' @
            quoted ''IQ Lite'' @ '', '' @ quoted ''Compact'' @ '', got '' @ quoted (networkMode s)]) s"
  unfolding reads_sdrconnect_def parseSdrConnectConfig_def
  by (elim exE conjE) (simp add: optField_reads default_sdrconnect_config_def or_default_def split: option.split)

lemma vrx_reads:
  assumes "reads_vrx Y node r"
  shows "parseVirtualReceiverConfig Y node = first_error (vrx_errors r) (made_vrx r)"
  using assms unfolding reads_vrx_def parseVirtualReceiverConfig_def
  by (elim conjE) (cases "rv_name r"; cases "rv_tcp r"; cases "rv_center r"; cases "rv_rate r"; cases "rv_spy r";
    simp add: requireField_reads optField_reads vrx_errors_def missing_field_def made_vrx_def or_default_def
      default_vrx_config_def Let_def)

lemma vrxs_read:
  assumes "list_all2 (reads_vrx Y) nodes rs"
  shows "mapr (parseVirtualReceiverConfig Y) nodes = first_error (concat (map vrx_errors rs)) (map made_vrx rs)"
  using assms
proof (induction rule: list_all2_induct)
  case (Cons n ns r rs)
  have "mapr (parseVirtualReceiverConfig Y) (n # ns) = first_error (vrx_errors r @ concat (map vrx_errors rs) @ []) (map made_vrx (r # rs))"
    unfolding mapr.simps vrx_reads [OF Cons.hyps(1)] Cons.IH by (intro bind_first_error) simp
  then show ?case by simp
qed simp

lemma rate_check: "wide \<le> Fin 0 \<or> \<not> feq (std_fmod wide (vc_sampleRateHz v)) (Fin 0) \<longleftrightarrow> \<not> rate_accepted wide v"
proof
  assume "\<not> rate_accepted wide v"
  then show "wide \<le> Fin 0 \<or> \<not> feq (std_fmod wide (vc_sampleRateHz v)) (Fin 0)"
    using fmod_zeroD [of wide "vc_sampleRateHz v"] unfolding rate_accepted_def rate_divides_def by blast
next
  assume a: "wide \<le> Fin 0 \<or> \<not> feq (std_fmod wide (vc_sampleRateHz v)) (Fin 0)"
  show "\<not> rate_accepted wide v"
  proof
    assume "rate_accepted wide v"
    then obtain r s k where r: "wide = Fin r" "0 < r" "vc_sampleRateHz v = Fin s" "r = of_int k * s"
      by (auto simp: rate_accepted_def rate_divides_def)
    then have "s \<noteq> 0" by auto
    then have "rtrunc (r / s) = k" by (simp add: r(4))
    with a r \<open>s \<noteq> 0\<close> show False by (auto simp: feq_def)
  qed
qed

lemma validate_rates_first: "validate_rates wide vs = first_error
    (map (\<lambda>v. rate_message ''config: VRX '' (vc_name v) wide (vc_sampleRateHz v)) (filter (\<lambda>v. \<not> rate_accepted wide v) vs)) ()"
  by (induction vs) (simp_all add: rate_check)

lemma connection_reads:
  assumes "reads Y (y_string Y) doc ''connection'' (raw_connection r)" and "connection c = Api"
  shows "parse_connection Y doc c = first_error (connection_errors r) (c\<lparr>connection := raw_mode r\<rparr>)"
  using assms by (cases "raw_connection r")
    (auto simp: parse_connection_def reads_def connection_errors_def raw_mode_def)

lemma sections_read:
  assumes "reads_part Y (reads_sdrplay Y) doc ''sdrplay'' (raw_sdrplay r)"
    and "reads_part Y (reads_sdrconnect Y) doc ''sdrconnect'' (raw_sdrconnect r)" and "connection c = raw_mode r"
    and "sdrplay c = default_sdrplay_config" and "sdrconnect c = None"
  shows "bindr (parse_sdrplay_section Y doc c) (parse_sdrconnect_section Y doc) =
    first_error (section_errors r) (c\<lparr>sdrplay := or_default default_sdrplay_config (raw_sdrplay r),
      sdrconnect := (if raw_mode r = SdrConnect then raw_sdrconnect r else None)\<rparr>)"
proof (cases "raw_mode r")
  case Api
  with assms show ?thesis by (cases "raw_sdrplay r")
    (auto simp: parse_sdrplay_section_def parse_sdrconnect_section_def reads_part_def section_errors_def
      sdrplay_reads or_default_def)
next
  case SdrConnect
  have p: "parse_sdrplay_section Y doc c = Inr (c\<lparr>sdrplay := or_default default_sdrplay_config (raw_sdrplay r)\<rparr>)"
    using assms(1,3,4) SdrConnect
    by (cases "raw_sdrplay r") (auto simp: parse_sdrplay_section_def reads_part_def sdrplay_reads or_default_def)
  show ?thesis
  proof (cases "raw_sdrconnect r")
    case None
    with assms(2,3) SdrConnect show ?thesis
      by (simp add: p parse_sdrconnect_section_def reads_part_def section_errors_def parseSdrConnectConfig_def)
  next
    case (Some s)
    then obtain n where "y_get Y doc ''sdrconnect'' = Inr (Some n)" "reads_sdrconnect Y n s"
      using assms(2) by (auto simp: reads_part_def)
    with assms(3) SdrConnect Some show ?thesis
      by (simp add: p parse_sdrconnect_section_def section_errors_def sdrconnect_reads)
  qed
qed

lemma receivers_read:
  assumes "(raw_receivers r = None \<and> y_get Y doc ''virtual_receivers'' = Inr None) \<or>
      (\<exists>n. y_get Y doc ''virtual_receivers'' = Inr (Some n) \<and> reads_list Y n (raw_receivers r))"
  shows "parse_receivers Y doc c = first_error (receiver_errors r)
    (c\<lparr>virtualReceivers := map made_vrx (the (raw_receivers r))\<rparr>)"
  using assms
proof (elim disjE exE conjE)
  fix n assume n: "y_get Y doc ''virtual_receivers'' = Inr (Some n)" "reads_list Y n (raw_receivers r)"
  show ?thesis
  proof (cases "raw_receivers r")
    case (Some rs)
    then have l: "y_is_sequence Y n" "list_all2 (reads_vrx Y) (y_elems Y n) rs" using n(2) by (simp_all add: reads_list_def)
    show ?thesis
    proof (cases rs)
      case Nil
      with l Some n(1) show ?thesis by (simp add: parse_receivers_def receiver_errors_def Let_def)
    next
      case (Cons v vs)
      then have "y_elems Y n \<noteq> []" using l(2) by auto
      moreover have "receiver_errors r = concat (map vrx_errors rs) @ []" using Some Cons by (simp add: receiver_errors_def)
      ultimately show ?thesis using l(1) n(1) Some
        by (simp only: parse_receivers_def Let_def bindr_simps option.simps length_0_conv vrxs_read [OF l(2)] option.sel simp_thms if_False)
          (rule bind_first_error, simp)
    qed
  qed (use n in \<open>simp add: parse_receivers_def receiver_errors_def reads_list_def Let_def\<close>)
qed (simp add: parse_receivers_def receiver_errors_def Let_def)

lemma bindr_assoc: "bindr (bindr m f) g = bindr m (\<lambda>x. bindr (f x) g)"
  by (cases m) simp_all

lemma validation_errors: "bindr (validate_rates (sampleRateHz c) (virtualReceivers c)) (\<lambda>_. Inr c) =
    first_error (rate_errors c) c"
  using bind_first_error [of "rate_errors c" "\<lambda>_. Inr c" "()" "[]" c]
  by (simp add: validate_rates_first rate_errors_def)

lemma load_decides:
  assumes "y_load_file Y path = Inr doc" and "reads_config Y doc r"
  shows "loadConfig Y path = (case config_errors r of
        [] \<Rightarrow> Inr (made_config r)
      | message # _ \<Rightarrow> Inl (Throw (RuntimeError message)))"
proof -
  have r: "reads Y (y_double Y) doc ''center_frequency_hz'' (raw_center r)"
    "reads Y (y_double Y) doc ''sample_rate_hz'' (raw_rate r)"
    "reads Y (y_string Y) doc ''connection'' (raw_connection r)"
    "reads_part Y (reads_sdrplay Y) doc ''sdrplay'' (raw_sdrplay r)"
    "reads_part Y (reads_sdrconnect Y) doc ''sdrconnect'' (raw_sdrconnect r)"
    "(raw_receivers r = None \<and> y_get Y doc ''virtual_receivers'' = Inr None) \<or>
      (\<exists>n. y_get Y doc ''virtual_receivers'' = Inr (Some n) \<and> reads_list Y n (raw_receivers r))"
    using assms(2) unfolding reads_config_def by blast+
  let ?c0 = "default_app_config\<lparr>centerFrequencyHz := the (raw_center r), sampleRateHz := the (raw_rate r)\<rparr>"
  let ?c1 = "?c0\<lparr>connection := raw_mode r\<rparr>"
  let ?c2 = "?c1\<lparr>sdrplay := or_default default_sdrplay_config (raw_sdrplay r),
    sdrconnect := (if raw_mode r = SdrConnect then raw_sdrconnect r else None)\<rparr>"
  let ?check = "\<lambda>c. bindr (validate_rates (sampleRateHz c) (virtualReceivers c)) (\<lambda>_. Inr c)"
  let ?receivers = "\<lambda>c. bindr (parse_receivers Y doc c) ?check"
  let ?sections = "\<lambda>c. bindr (parse_sdrplay_section Y doc c) (\<lambda>c. bindr (parse_sdrconnect_section Y doc c) ?receivers)"
  have d: "load_doc Y path = Inr doc" using assms(1) by (simp add: load_doc_def)
  have "?c2\<lparr>virtualReceivers := map made_vrx (the (raw_receivers r))\<rparr> = made_config r"
    by (simp add: made_config_def default_app_config_def)
  then have e1: "?receivers ?c2 = first_error (receiver_errors r @ rate_errors (made_config r)) (made_config r)"
    unfolding receivers_read [OF r(6)] by (intro bind_first_error) (simp only: validation_errors)
  have "bindr (parse_sdrplay_section Y doc ?c1) (parse_sdrconnect_section Y doc) = first_error (section_errors r) ?c2"
    by (rule sections_read [OF r(4,5)]) (simp_all add: default_app_config_def)
  then have "?sections ?c1 = bindr (first_error (section_errors r) ?c2) ?receivers" by (metis bindr_assoc)
  also have "\<dots> = first_error (section_errors r @ receiver_errors r @ rate_errors (made_config r)) (made_config r)"
    by (rule bind_first_error) (rule e1)
  finally have e2: "?sections ?c1 = \<dots>" .
  have "parse_connection Y doc ?c0 = first_error (connection_errors r) ?c1"
    by (rule connection_reads [OF r(3)]) (simp add: default_app_config_def)
  then have cc: "bindr (parse_connection Y doc ?c0) ?sections = bindr (first_error (connection_errors r) ?c1) ?sections"
    by (rule arg_cong)
  have e3: "bindr (parse_connection Y doc ?c0) ?sections = first_error (connection_errors r @
      section_errors r @ receiver_errors r @ rate_errors (made_config r)) (made_config r)"
    unfolding cc by (rule bind_first_error) (rule e2)
  have "loadConfig Y path = first_error (config_errors r) (made_config r)"
    unfolding loadConfig_def config_errors_def d bindr_simps requireField_reads [OF r(1)] requireField_reads [OF r(2)]
    by (rule bind_first_error, rule bind_first_error) (rule e3)
  then show ?thesis by (simp add: first_error_def)
qed

lemma load_unparsable: "y_load_file Y path = Inl (Throw (YamlException what)) \<Longrightarrow>
    loadConfig Y path = Inl (Throw (RuntimeError (''config: failed to parse '' @ quoted path @ '': '' @ what)))"
  by (simp add: loadConfig_def load_doc_def)

text \<open>
  Property C28: a file the library cannot parse is reported with its path and the library's message; and on a
  document whose fields the library can read, the loader decides exactly the listed requirements, in their
  order: required fields and sections (which section depends on \<open>connection\<close>), the three network modes, a
  non-empty list of receivers with their required fields, and rates that divide the wideband rate in exact
  arithmetic. It throws the message of the first that is violated, naming the field or the receiver, and
  otherwise returns the configuration with the document's values and the defaults for what is absent.
\<close>

theorem loadConfig_errors:
  assumes "y_load_file Y path = Inr doc" and "reads_config Y doc r"
  shows "loadConfig Y path = (case config_errors r of
        [] \<Rightarrow> Inr (made_config r)
      | message # _ \<Rightarrow> Inl (Throw (RuntimeError message))) \<and>
    (\<forall>path' what. y_load_file Y path' = Inl (Throw (YamlException what)) \<longrightarrow>
      loadConfig Y path' = Inl (Throw (RuntimeError (''config: failed to parse '' @ quoted path' @ '': '' @ what))))"
  by (intro conjI allI impI load_decides [OF assms] load_unparsable)

text \<open>A document with a receiver whose rate does not divide the wideband rate and one without a port.\<close>

definition broken_doc :: ytree where
  "broken_doc = YMap [(''center_frequency_hz'', YInt 100), (''sample_rate_hz'', YInt 10),
     (''connection'', YStr ''sdrconnect''), (''sdrconnect'', YMap [(''network_mode'', YStr ''Compact'')]),
     (''virtual_receivers'', YSeq [
        YMap [(''name'', YStr ''a''), (''tcp_port'', YInt 1235), (''center_frequency_hz'', YInt 100), (''sample_rate_hz'', YInt 3)],
        YMap [(''name'', YStr ''b''), (''center_frequency_hz'', YInt 101), (''sample_rate_hz'', YInt 5)]])]"

definition broken_raw :: raw_config where
  "broken_raw = \<lparr>raw_center = Some (Fin 100), raw_rate = Some (Fin 10), raw_connection = Some ''sdrconnect'',
     raw_sdrplay = None, raw_sdrconnect = Some (default_sdrconnect_config\<lparr>networkMode := ''Compact''\<rparr>),
     raw_receivers = Some [
       \<lparr>rv_name = Some ''a'', rv_tcp = Some 1235, rv_spy = None, rv_center = Some (Fin 100), rv_rate = Some (Fin 3)\<rparr>,
       \<lparr>rv_name = Some ''b'', rv_tcp = None, rv_spy = None, rv_center = Some (Fin 101), rv_rate = Some (Fin 5)\<rparr>]\<rparr>"

lemma tree_reads: "reads (tree_yaml d) as_T (YMap es) key v \<longleftrightarrow> (case v of
     None \<Rightarrow> map_of es key = None | Some x \<Rightarrow> \<exists>n. map_of es key = Some n \<and> as_T n = Inr x)"
  by (simp add: reads_def tree_yaml_def split: option.split)

lemma tree_accessors [simp]: "y_string (tree_yaml d) (YStr x) = Inr x"
  "y_double (tree_yaml d) (YInt i) = Inr (Fin (of_int i))"
  "y_u16 (tree_yaml d) (YInt i) = (if 0 \<le> i \<and> i < 65536 then Inr (word_of_int i) else bad_conversion)"
  "y_get (tree_yaml d) (YMap es) k = Inr (map_of es k)"
  "y_is_sequence (tree_yaml d) (YSeq ns)" "y_elems (tree_yaml d) (YSeq ns) = ns"
  "y_load_file (tree_yaml d) p = Inr d"
  by (simp_all add: tree_yaml_def)

lemma broken_reads: "reads_config (tree_yaml d) broken_doc broken_raw"
proof -
  have "reads_sdrconnect (tree_yaml d) (YMap [(''network_mode'', YStr ''Compact'')])
      (default_sdrconnect_config\<lparr>networkMode := ''Compact''\<rparr>)"
    unfolding reads_sdrconnect_def tree_reads
    by (intro exI [of _ None] exI [of _ "Some ''Compact''"]) (simp add: or_default_def default_sdrconnect_config_def)
  then show ?thesis
    by (simp add: broken_doc_def broken_raw_def reads_config_def tree_reads reads_part_def reads_list_def reads_vrx_def)
qed

text \<open>What a document says does not depend on the files the library finds.\<close>

lemma reads_files [simp]: "reads (Y\<lparr>y_load_file := files\<rparr>) as_T n k v \<longleftrightarrow> reads Y as_T n k v"
  by (cases v) (simp_all add: reads_def)

lemma reads_part_files [simp]: "reads_part (Y\<lparr>y_load_file := files\<rparr>) R n k v \<longleftrightarrow> reads_part Y R n k v"
  by (cases v) (simp_all add: reads_part_def)

lemma reads_other_files: "reads_config (Y\<lparr>y_load_file := files\<rparr>) doc r \<longleftrightarrow> reads_config Y doc r"
proof -
  have p: "reads_vrx (Y\<lparr>y_load_file := files\<rparr>) = reads_vrx Y"
    "reads_sdrplay (Y\<lparr>y_load_file := files\<rparr>) = reads_sdrplay Y"
    "reads_sdrconnect (Y\<lparr>y_load_file := files\<rparr>) = reads_sdrconnect Y"
    by (intro ext, simp add: reads_vrx_def reads_sdrplay_def reads_sdrconnect_def)+
  then have "reads_list (Y\<lparr>y_load_file := files\<rparr>) n v \<longleftrightarrow> reads_list Y n v" for n v
    by (cases v) (simp_all add: reads_list_def)
  with p show ?thesis by (simp add: reads_config_def)
qed

theorem loadConfig_errors_witness:
  "let Y = (tree_yaml broken_doc)\<lparr>y_load_file := (\<lambda>p. if p = ''config.yaml'' then Inr broken_doc
       else Inl (Throw (YamlException ''bad file'')))\<rparr> in
   loadConfig Y ''config.yaml'' = Inl (Throw (RuntimeError
     (''virtual_receivers[]: '' @ quoted ''b'' @ '': missing required field '' @ quoted ''tcp_port''))) \<and>
   loadConfig Y ''x'' = Inl (Throw (RuntimeError (''config: failed to parse '' @ quoted ''x'' @ '': bad file'')))"
proof -
  let ?files = "\<lambda>p. if p = ''config.yaml'' then Inr broken_doc else Inl (Throw (YamlException ''bad file''))"
  let ?Y = "(tree_yaml broken_doc)\<lparr>y_load_file := ?files\<rparr>"
  have "y_load_file ?Y ''config.yaml'' = Inr broken_doc" by simp
  moreover have "reads_config ?Y broken_doc broken_raw" by (simp only: reads_other_files broken_reads)
  ultimately have "loadConfig ?Y ''config.yaml'' = (case config_errors broken_raw of [] \<Rightarrow> Inr (made_config broken_raw)
        | message # _ \<Rightarrow> Inl (Throw (RuntimeError message))) \<and>
      (\<forall>path' what. y_load_file ?Y path' = Inl (Throw (YamlException what)) \<longrightarrow>
        loadConfig ?Y path' = Inl (Throw (RuntimeError (''config: failed to parse '' @ quoted path' @ '': '' @ what))))"
    by (rule loadConfig_errors)
  moreover have "y_load_file ?Y ''x'' = Inl (Throw (YamlException ''bad file''))" by simp
  moreover have "hd (config_errors broken_raw) =
      ''virtual_receivers[]: '' @ quoted ''b'' @ '': missing required field '' @ quoted ''tcp_port''"
    "config_errors broken_raw \<noteq> []"
    by (simp_all add: config_errors_def broken_raw_def missing_field_def connection_errors_def section_errors_def
        raw_mode_def receiver_errors_def vrx_errors_def Let_def)
  ultimately show ?thesis unfolding Let_def by (cases "config_errors broken_raw") auto
qed

end
