(* ===== verification/VirtualReceiver.thy ===== *)
theory VirtualReceiver
  imports Nco Config
begin

text \<open>
  \<open>src/dsp/virtual_receiver.hpp\<close> and \<open>src/dsp/virtual_receiver.cpp\<close>: one channel of the server. A
  receiver owns an oscillator and a decimating filter, converts the filtered samples to unsigned
  bytes, and hands them to the callbacks its protocol endpoints registered. The interface the
  endpoints rely on when a client retunes is the locale \<open>tunable\<close>.
\<close>

section \<open>State\<close>

text \<open>The callbacks the two kinds of endpoint register on a receiver.\<close>

datatype callback = RtlTcpBroadcast | SpyServerBroadcast

record vrx =
  vr_name :: string
  widebandCenterHz :: fp
  widebandSampleRateHz :: fp
  vr_centerFrequencyHz :: fp
  vr_nco :: nco
  vr_decimator :: decimator
  decimationFactor :: int
  callbacks :: "callback list"

definition getSampleRateHz :: "vrx \<Rightarrow> fp" where
  "getSampleRateHz v = fdiv binary64 (widebandSampleRateHz v) (f64_of_int (decimationFactor v))"

definition addIqCallback :: "vrx \<Rightarrow> callback \<Rightarrow> vrx" where
  "addIqCallback v cb = v\<lparr>callbacks := callbacks v @ [cb]\<rparr>"

section \<open>Construction and retuning\<close>

definition buildTaps :: "libm \<Rightarrow> fp \<Rightarrow> fp \<Rightarrow> fp list outcome" where
  "buildTaps L vrxSampleRateHz wideRateHz =
     designLowPassFir L 129 (fmul binary64 vrxSampleRateHz (lit (45 / 100))) wideRateHz"

definition span_lo :: "vrx \<Rightarrow> fp" where
  "span_lo v = fsub binary64 (widebandCenterHz v) (fdiv binary64 (widebandSampleRateHz v) (Fin 2))"

definition span_hi :: "vrx \<Rightarrow> fp" where
  "span_hi v = fadd binary64 (widebandCenterHz v) (fdiv binary64 (widebandSampleRateHz v) (Fin 2))"

definition assertWithinSpan :: "vrx \<Rightarrow> fp \<Rightarrow> unit outcome" where
  "assertWithinSpan v freqHz =
     (if freqHz < span_lo v \<or> span_hi v < freqHz then
        Inl (Throw (OutOfRange (''VRX '' @ quoted (vr_name v) @ '': requested frequency '' @
          to_string_f64 freqHz @ '' Hz is outside the wideband capture'' @ [CHR 0x27] @ ''s span ['' @
          to_string_f64 (span_lo v) @ '', '' @ to_string_f64 (span_hi v) @ ''] Hz.'')))
      else Inr ())"

definition cast_int :: "fp \<Rightarrow> int outcome" where
  "cast_int x = (case cast_i32 x of None \<Rightarrow> Inl UB | Some i \<Rightarrow> Inr i)"

definition mk_vrx :: "libm \<Rightarrow> vrx_config \<Rightarrow> fp \<Rightarrow> fp \<Rightarrow> vrx outcome" where
  "mk_vrx L cfg centerHz rateHz =
     bindr (cast_int (fdiv binary64 rateHz (vc_sampleRateHz cfg))) (\<lambda>factor.
     bindr (buildTaps L (vc_sampleRateHz cfg) rateHz) (\<lambda>taps.
     bindr (mk_decimator taps factor) (\<lambda>dec.
     let v = \<lparr>vr_name = vc_name cfg, widebandCenterHz = centerHz, widebandSampleRateHz = rateHz,
              vr_centerFrequencyHz = vc_centerFrequencyHz cfg, vr_nco = mk_nco rateHz,
              vr_decimator = dec, decimationFactor = factor, callbacks = []\<rparr> in
     if \<not> feq (std_fmod rateHz (vc_sampleRateHz cfg)) (Fin 0) then
       Inl (Throw (RuntimeError (rate_message ''VRX '' (vc_name cfg) rateHz (vc_sampleRateHz cfg))))
     else bindr (assertWithinSpan v (vr_centerFrequencyHz v)) (\<lambda>_.
       Inr (v\<lparr>vr_nco := setOffsetHz L (vr_nco v)
                 (fsub binary64 (vr_centerFrequencyHz v) (widebandCenterHz v))\<rparr>)))))"

definition retune :: "libm \<Rightarrow> vrx \<Rightarrow> fp \<Rightarrow> vrx outcome" where
  "retune L v newCenterFrequencyHz =
     bindr (assertWithinSpan v newCenterFrequencyHz) (\<lambda>_.
     Inr (v\<lparr>vr_centerFrequencyHz := newCenterFrequencyHz,
            vr_nco := setOffsetHz L (vr_nco v) (fsub binary64 newCenterFrequencyHz (widebandCenterHz v))\<rparr>))"

section \<open>The sample path\<close>

text \<open>One filtered sample as an unsigned byte centred on 128.\<close>

definition sample_to_byte :: "fp \<Rightarrow> u8 option" where
  "sample_to_byte x =
     (let clamped = std_max (Fin (-1)) (std_min (Fin 1) x)
      in map_option (\<lambda>i. word_of_int (i + 128)) (std_lround (fmul binary32 clamped (Fin 127))))"

fun bytes_of_samples :: "fp list \<Rightarrow> bytes option" where
  "bytes_of_samples [] = Some []"
| "bytes_of_samples (x # xs) =
     (case (sample_to_byte x, bytes_of_samples xs) of
        (Some b, Some bs) \<Rightarrow> Some (b # bs)
      | _ \<Rightarrow> None)"

text \<open>
  One wideband chunk: the bytes handed to each callback, in registration order, and the receiver
  afterwards. \<open>None\<close> is an access outside a buffer or an undefined conversion.
\<close>

definition processWidebandChunk ::
  "libm \<Rightarrow> vrx \<Rightarrow> fp list \<Rightarrow> nat \<Rightarrow> ((callback \<times> bytes) list \<times> vrx) option" where
  "processWidebandChunk L v widebandIq numSamples =
     (if length widebandIq < numSamples * 2 then None
      else case mixInPlace L (vr_nco v) (take (numSamples * 2) widebandIq) numSamples of
        None \<Rightarrow> None
      | Some (mixBuf, nco') \<Rightarrow>
          (case process (vr_decimator v) mixBuf of
             None \<Rightarrow> None
           | Some (decimated, dec') \<Rightarrow>
               let v' = v\<lparr>vr_nco := nco', vr_decimator := dec'\<rparr> in
               if decimated = [] then Some ([], v')
               else map_option (\<lambda>outBuf. (map (\<lambda>cb. (cb, outBuf)) (callbacks v), v'))
                      (bytes_of_samples decimated)))"

section \<open>Conversion to bytes\<close>

lemma fpround32_127: "fpround binary32 127 = Fin 127" "fpround binary32 (- 127) = Fin (- 127)"
  using f32_of_int_exact [of 127] f32_of_int_exact [of "-127"] by (simp_all add: f32_of_int_def)

definition byte_value :: "rat \<Rightarrow> int" where
  "byte_value x = 128 + round_away (nearest binary32 (max (-1) (min 1 x) * 127))"

lemma clamp_Fin: "std_max (Fin (-1)) (std_min (Fin 1) (Fin x)) = Fin (max (-1) (min 1 x))"
  by (simp add: std_max_def std_min_def max_def min_def)

lemma product_bounded:
  assumes "-1 \<le> c" and "c \<le> 1"
  shows "fpround binary32 (c * 127) = Fin (nearest binary32 (c * 127)) \<and>
    -127 \<le> nearest binary32 (c * 127) \<and> nearest binary32 (c * 127) \<le> 127"
proof -
  have r: "representable binary32 127"
    using b32.representable_int [of 127] by (simp add: binary32_def)
  have "\<bar>c * 127\<bar> \<le> 127" using assms by (simp add: abs_le_iff)
  from b32.fpround_small [OF this r] obtain y where
    y: "fpround binary32 (c * 127) = Fin y" "\<bar>y\<bar> \<le> 127" by blast
  then show ?thesis using b32.fpround_Fin [OF y(1)] by (auto simp: abs_le_iff)
qed

lemma byte_value_bounds: "1 \<le> byte_value x \<and> byte_value x \<le> 255"
proof -
  let ?p = "nearest binary32 (max (-1) (min 1 x) * 127)"
  have "-127 \<le> ?p" "?p \<le> 127" using product_bounded [of "max (-1) (min 1 x)"] by auto
  then have "round_away (of_int (-127)) \<le> round_away ?p" "round_away ?p \<le> round_away (of_int 127)"
    by (intro round_away_mono; simp)+
  then show ?thesis unfolding round_away_of_int byte_value_def by linarith
qed

lemma sample_to_byte_Fin: "sample_to_byte (Fin x) = Some (word_of_int (byte_value x))"
proof -
  have p: "fpround binary32 (max (-1) (min 1 x) * 127) = Fin (nearest binary32 (max (-1) (min 1 x) * 127))"
    using product_bounded [of "max (-1) (min 1 x)"] by auto
  have "- (2 ^ 63) \<le> byte_value x - 128 \<and> byte_value x - 128 < 2 ^ 63"
    using byte_value_bounds [of x] by auto
  then show ?thesis
    unfolding sample_to_byte_def Let_def clamp_Fin by (simp add: p byte_value_def add.commute)
qed

lemma sample_to_byte_special:
  "sample_to_byte PInf = Some 255" "sample_to_byte NInf = Some 1" "sample_to_byte NaN = Some 255"
  using round_away_of_int [of 127] round_away_of_int [of "-127"]
  by (simp_all add: sample_to_byte_def std_max_def std_min_def fpround32_127)

lemma unat_byte_value: "unat (word_of_int (byte_value x) :: u8) = nat (byte_value x)"
  using byte_value_bounds [of x] by (simp add: unat_eq_nat_uint take_bit_int_eq_self uint_word_of_int)

lemma sample_to_byte_total: "\<exists>b. sample_to_byte x = Some b \<and> 1 \<le> unat b"
proof (cases x)
  case (Fin r)
  then show ?thesis using byte_value_bounds [of r]
    by (auto simp: sample_to_byte_Fin unat_byte_value le_nat_iff)
qed (simp_all add: sample_to_byte_special)

lemma byte_value_mono: "x \<le> y \<Longrightarrow> byte_value x \<le> byte_value y"
  unfolding byte_value_def
  by (intro add_left_mono round_away_mono b32.nearest_mono mult_right_mono) auto

text \<open>
  Property C33: the conversion of a filtered sample is defined for every floating-point value, NaN and
  infinities included, never yields the byte 0, and for a finite sample differs from the ideal
  level, 128 plus 127 times the clamped sample, by at most half a step and the rounding of
  one float product.
\<close>

theorem sample_to_byte_accurate:
  "(\<exists>b. sample_to_byte x = Some b \<and> 1 \<le> unat b) \<and>
   (\<exists>b. sample_to_byte (Fin r) = Some b \<and>
      \<bar>of_nat (unat b) - (128 + 127 * max (-1) (min 1 r))\<bar> \<le> 1 / 2 + 1 / 2 ^ 18)"
proof
  let ?c = "max (-1) (min 1 r)"
  have c: "-1 \<le> ?c" "?c \<le> 1" by auto
  have "\<bar>?c * 127\<bar> \<le> 127" using c by (simp add: abs_le_iff)
  also have "(127::rat) < 2 powi 7" by simp
  finally have "\<bar>nearest binary32 (?c * 127) - ?c * 127\<bar> \<le> 2 powi (7 - int (prec binary32) - 1)"
    by (rule b32.nearest_error_below) (simp add: binary32_def)
  also have "(2::rat) powi (7 - int (prec binary32) - 1) = 1 / 2 ^ 18"
    by (simp add: binary32_def power_int_minus field_simps)
  finally have e: "\<bar>nearest binary32 (?c * 127) - ?c * 127\<bar> \<le> 1 / 2 ^ 18" .
  have v: "rat_of_int (byte_value r) = 128 + of_int (round_away (nearest binary32 (?c * 127)))"
    by (simp add: byte_value_def)
  have "\<bar>rat_of_int (byte_value r) - (128 + 127 * ?c)\<bar> \<le> 1 / 2 + 1 / 2 ^ 18"
    using e round_away_error [of "nearest binary32 (?c * 127)"] unfolding v by linarith
  moreover have "rat_of_nat (unat (word_of_int (byte_value r) :: u8)) = of_int (byte_value r)"
    unfolding unat_byte_value using byte_value_bounds [of r] by (intro of_nat_nat) linarith
  ultimately show "\<exists>b. sample_to_byte (Fin r) = Some b \<and>
      \<bar>of_nat (unat b) - (128 + 127 * max (-1) (min 1 r))\<bar> \<le> 1 / 2 + 1 / 2 ^ 18"
    by (intro exI [of _ "word_of_int (byte_value r)"] conjI sample_to_byte_Fin) (simp only:)
qed (rule sample_to_byte_total)

text \<open>
  The conversion is monotone: a larger sample (infinities included) never becomes a
  smaller byte.
\<close>

theorem sample_to_byte_mono:
  assumes "x \<le> y" and "sample_to_byte x = Some a" and "sample_to_byte y = Some b"
  shows "unat a \<le> unat b"
proof -
  have fin: "unat (word_of_int (byte_value r) :: u8) \<le> 255" "1 \<le> unat (word_of_int (byte_value r) :: u8)" for r
    using byte_value_bounds [of r] unfolding unat_byte_value by linarith+
  show ?thesis
    using assms fin byte_value_mono
    by (cases x; cases y) (auto simp: sample_to_byte_special sample_to_byte_Fin unat_byte_value nat_mono)
qed

theorem sample_to_byte_mono_witness: "unat (1 :: u8) \<le> unat (255 :: u8)"
  by (rule sample_to_byte_mono [of NInf PInf]) (simp_all add: sample_to_byte_special)

section \<open>The interface of a tunable receiver\<close>

text \<open>
  Both servers retune a receiver inside \<open>try { vrx.retune(f); } catch (const std::exception&) {}\<close>:
  an exception leaves the receiver as it was.
\<close>

definition try_retune :: "('v \<Rightarrow> fp \<Rightarrow> 'v outcome) \<Rightarrow> 'v \<Rightarrow> fp \<Rightarrow> 'v" where
  "try_retune retune_op v f = (case retune_op v f of Inr v' \<Rightarrow> v' | Inl _ \<Rightarrow> v)"

locale tunable =
  fixes retune_op :: "'v \<Rightarrow> fp \<Rightarrow> 'v outcome"
    and centre :: "'v \<Rightarrow> fp"
    and in_range :: "'v \<Rightarrow> fp \<Rightarrow> bool"
    and params :: "'v \<Rightarrow> 'p"
  assumes accept: "in_range v f \<Longrightarrow> \<exists>v'. retune_op v f = Inr v' \<and> centre v' = f \<and> params v' = params v"
    and reject: "\<not> in_range v f \<Longrightarrow> \<exists>m. retune_op v f = Inl (Throw (OutOfRange m))"
    and in_range_params: "params v = params w \<Longrightarrow> in_range v f = in_range w f"
begin

lemma try_retune_centre: "centre (try_retune retune_op v f) = (if in_range v f then f else centre v)"
  using accept [of v f] reject [of v f] by (auto simp: try_retune_def)

lemma try_retune_params [simp]: "params (try_retune retune_op v f) = params v"
  using accept [of v f] reject [of v f] by (cases "in_range v f") (auto simp: try_retune_def)

lemma try_retune_in_range [simp]: "in_range (try_retune retune_op v f) g = in_range v g"
  by (rule in_range_params) simp

lemma try_retune_rejected: "\<not> in_range v f \<Longrightarrow> try_retune retune_op v f = v"
  using reject [of v f] by (auto simp: try_retune_def)

text \<open>After any sequence of requests the receiver is at the last one its span allows.\<close>

lemma requests_params: "params (foldl (try_retune retune_op) v fs) = params v"
  by (induction fs arbitrary: v) simp_all

lemma requests_centre:
  "centre (foldl (try_retune retune_op) v fs) = last (centre v # filter (in_range v) fs)"
proof (induction fs arbitrary: v)
  case (Cons f fs)
  have w: "in_range (try_retune retune_op v f) = in_range v" by (rule ext) simp
  show ?case by (simp add: Cons.IH w try_retune_centre)
qed simp

lemma requests_in_range: "in_range v (centre v) \<Longrightarrow>
    in_range (foldl (try_retune retune_op) v fs) (centre (foldl (try_retune retune_op) v fs))"
  by (induction fs arbitrary: v) (simp_all add: try_retune_centre)

end

definition within_span :: "vrx \<Rightarrow> fp \<Rightarrow> bool" where
  "within_span v f \<longleftrightarrow> \<not> (f < span_lo v \<or> span_hi v < f)"

definition vrx_params :: "vrx \<Rightarrow> string \<times> fp \<times> fp \<times> decimator \<times> int \<times> callback list" where
  "vrx_params v = (vr_name v, widebandCenterHz v, widebandSampleRateHz v, vr_decimator v,
     decimationFactor v, callbacks v)"

interpretation vt: tunable "retune L" vr_centerFrequencyHz within_span vrx_params for L
proof unfold_locales
  fix v f
  show "within_span v f \<Longrightarrow> \<exists>v'. retune L v f = Inr v' \<and> vr_centerFrequencyHz v' = f \<and>
      vrx_params v' = vrx_params v"
    by (simp add: retune_def assertWithinSpan_def within_span_def vrx_params_def)
  show "\<not> within_span v f \<Longrightarrow> \<exists>m. retune L v f = Inl (Throw (OutOfRange m))"
    by (simp add: retune_def assertWithinSpan_def within_span_def)
qed (simp add: within_span_def span_lo_def span_hi_def vrx_params_def)

section \<open>Properties of a receiver\<close>

definition vrx_inv :: "vrx \<Rightarrow> bool" where
  "vrx_inv v \<longleftrightarrow> decimator_inv (vr_decimator v) \<and> dec_factor (vr_decimator v) = decimationFactor v \<and>
     within_span v (vr_centerFrequencyHz v)"

lemma assertWithinSpan_Inr: "assertWithinSpan v f = Inr () \<longleftrightarrow> within_span v f"
  by (simp add: assertWithinSpan_def within_span_def)

lemma two53: "fpround binary64 (2 ^ 53) = Fin (2 ^ 53)"
  using f64_of_int_exact [of "2 ^ 53"] by (simp add: f64_of_int_def)

lemma cast_quotient:
  assumes "cast_int (fpround binary64 (of_int k)) = Inr f" and "1 \<le> f"
  shows "f = k"
proof -
  obtain y where y: "fpround binary64 (of_int k) = Fin y" and f: "f = rtrunc y" "f < 2 ^ 31"
    using assms(1) by (cases "fpround binary64 (of_int k)")
      (auto simp: cast_int_def cast_i32_def Let_def split: if_splits)
  have "k \<le> 2 ^ 53"
  proof (rule ccontr)
    assume "\<not> k \<le> 2 ^ 53"
    then have "of_int (2 ^ 53) \<le> (of_int k :: rat)" by (simp only: of_int_le_iff)
    then have "Fin (2 ^ 53) \<le> Fin y" using b64.fpround_mono [of "2 ^ 53" "of_int k"] two53 y by simp
    then have "2 ^ 53 \<le> y" by simp
    then have "2 ^ 53 \<le> f" by (simp add: f(1) rtrunc_def le_floor_iff)
    with f(2) show False by simp
  qed
  moreover have "0 \<le> k"
  proof (rule ccontr)
    assume "\<not> 0 \<le> k"
    then have "Fin y \<le> Fin 0" using b64.fpround_mono [of "of_int k" 0] y by simp
    then have "rtrunc y \<le> 0" by (auto simp: rtrunc_def)
    with f(1) assms(2) show False by simp
  qed
  ultimately have "f64_of_int k = Fin (of_int k)" by simp
  then show ?thesis using y f(1) by (simp add: f64_of_int_def)
qed

lemma fmod_zero_quotient:
  assumes "feq (std_fmod x (Fin s)) (Fin 0)"
  shows "\<exists>k. x = Fin (of_int k * s) \<and> s \<noteq> 0"
proof -
  obtain r where xy: "x = Fin r" "s \<noteq> 0" "r - of_int (rtrunc (r / s)) * s = 0"
    using assms by (cases x) (auto simp: feq_def split: if_splits)
  then show ?thesis by (auto intro: exI [of _ "rtrunc (r / s)"])
qed

lemma half_exact:
  assumes "\<bar>n\<bar> \<le> 2 ^ 53"
  shows "fpround binary64 (of_int n / 2) = Fin (of_int n / 2)"
proof -
  have r: "rat_of_int n / 2 = of_int n * 2 powi (-1)" by (simp add: power_int_minus)
  have "\<bar>rat_of_int n\<bar> \<le> of_int (2 ^ 53)" using assms by (simp only: of_int_le_iff flip: of_int_abs)
  also have "\<dots> = (2::rat) powi 53" by simp
  finally have "\<bar>rat_of_int n * 2 powi (-1)\<bar> \<le> 2 powi 53 * 2 powi (-1)"
    by (simp add: abs_mult power_int_minus)
  also have "\<dots> = (2::rat) powi 52" by (simp flip: power_int_add)
  also have "\<dots> < 2 powi 1024" by (simp only: powi_less_iff)
  finally have "representable binary64 (of_int n * 2 powi (-1))"
    using assms by (intro representableI) (simp_all add: binary64_def)
  from b64.fpround_representable [OF this] show ?thesis by (simp only: r)
qed

lemma span_exact:
  assumes "widebandCenterHz v = Fin (of_int c)" and "widebandSampleRateHz v = Fin (of_int s)"
    and "\<bar>c\<bar> + \<bar>s\<bar> \<le> 2 ^ 51"
  shows "span_lo v = Fin (of_int c - of_int s / 2)" and "span_hi v = Fin (of_int c + of_int s / 2)"
proof -
  have h: "fpround binary64 (of_int s / 2) = Fin (of_int s / 2)"
    using assms(3) by (intro half_exact) simp
  have lo: "(of_int c - of_int s / 2 :: rat) = of_int (2 * c - s) / 2" by (simp add: diff_divide_distrib)
  have hi: "(of_int c + of_int s / 2 :: rat) = of_int (2 * c + s) / 2" by (simp add: add_divide_distrib)
  have "fpround binary64 (of_int (2 * c - s) / 2) = Fin (of_int (2 * c - s) / 2)"
    using assms(3) by (intro half_exact) simp
  moreover have "fpround binary64 (of_int (2 * c + s) / 2) = Fin (of_int (2 * c + s) / 2)"
    using assms(3) by (intro half_exact) simp
  ultimately have "fpround binary64 (of_int c - of_int s / 2) = Fin (of_int c - of_int s / 2)"
    "fpround binary64 (of_int c + of_int s / 2) = Fin (of_int c + of_int s / 2)"
    unfolding lo hi by auto
  then show "span_lo v = Fin (of_int c - of_int s / 2)" "span_hi v = Fin (of_int c + of_int s / 2)"
    by (simp_all add: span_lo_def span_hi_def fsub_def assms(1,2) h)
qed

text \<open>A small receiver on a capture of 8 Hz around 100 Hz, with a single unit tap.\<close>

definition demo_vrx :: vrx where
  "demo_vrx = \<lparr>vr_name = ''demo'', widebandCenterHz = Fin 100, widebandSampleRateHz = Fin 8,
     vr_centerFrequencyHz = Fin 101, vr_nco = mk_nco (Fin 8),
     vr_decimator = \<lparr>dec_taps = [Fin 1], dec_factor = 2, dec_history = []\<rparr>,
     decimationFactor = 2, callbacks = [RtlTcpBroadcast]\<rparr>"

lemma demo_vrx_simps [simp]:
  "widebandCenterHz demo_vrx = Fin (of_int 100)" "widebandSampleRateHz demo_vrx = Fin (of_int 8)"
  "vr_centerFrequencyHz demo_vrx = Fin 101" "callbacks demo_vrx = [RtlTcpBroadcast]"
  "decimationFactor demo_vrx = 2"
  by (simp_all add: demo_vrx_def)

lemma demo_vrx_span: "within_span demo_vrx (Fin f) \<longleftrightarrow> 96 \<le> f \<and> f \<le> 104"
  by (auto simp: within_span_def span_exact [of demo_vrx 100 8])

lemma demo_vrx_inv: "vrx_inv demo_vrx"
  by (simp add: vrx_inv_def demo_vrx_span) (simp add: demo_vrx_def decimator_inv_def)

lemma mk_vrx_inv:
  assumes "mk_vrx L cfg centerHz rateHz = Inr v"
  shows "vrx_inv v \<and> callbacks v = [] \<and> vr_centerFrequencyHz v = vc_centerFrequencyHz cfg"
proof -
  obtain f taps dec where "mk_decimator taps f = Inr dec" "vr_decimator v = dec" "decimationFactor v = f"
    "callbacks v = []" "vr_centerFrequencyHz v = vc_centerFrequencyHz cfg" "within_span v (vr_centerFrequencyHz v)"
    using assms
    by (auto simp: mk_vrx_def Let_def assertWithinSpan_Inr within_span_def span_lo_def span_hi_def split: if_splits)
  then show ?thesis using mk_decimator_inv by (simp add: vrx_inv_def)
qed

text \<open>
  Property C31: a receiver that was constructed without an exception satisfies its invariant, is tuned to
  its configured frequency, has no callbacks yet, decimates by exactly the integer ratio of the
  wideband rate to its own rate, and reports exactly the configured output rate.
\<close>

theorem mk_vrx_ok:
  assumes "mk_vrx L cfg centerHz rateHz = Inr v"
    and "vc_sampleRateHz cfg = Fin s" and "representable binary64 s"
  shows "vrx_inv v \<and> vr_centerFrequencyHz v = vc_centerFrequencyHz cfg \<and> callbacks v = [] \<and>
    1 \<le> decimationFactor v \<and> rateHz = Fin (of_int (decimationFactor v) * s) \<and>
    getSampleRateHz v = vc_sampleRateHz cfg"
proof -
  obtain f taps dec where f: "cast_int (fdiv binary64 rateHz (vc_sampleRateHz cfg)) = Inr f"
    and dec: "mk_decimator taps f = Inr dec"
    and fm: "feq (std_fmod rateHz (vc_sampleRateHz cfg)) (Fin 0)"
    and v: "decimationFactor v = f" "widebandSampleRateHz v = rateHz"
    using assms(1) by (auto simp: mk_vrx_def Let_def split: if_splits)
  have f1: "1 \<le> f" using dec by (auto simp: mk_decimator_def split: if_splits)
  from fmod_zero_quotient [OF fm [unfolded assms(2)]] obtain k where
    k: "rateHz = Fin (of_int k * s)" "s \<noteq> 0" by auto
  then have "cast_int (fpround binary64 (of_int k)) = Inr f" using f assms(2) by simp
  from cast_quotient [OF this f1] have "f = k" .
  moreover from f have "f < 2 ^ 31"
    by (cases "fdiv binary64 rateHz (vc_sampleRateHz cfg)")
      (auto simp: cast_int_def cast_i32_def Let_def split: if_splits)
  ultimately have "getSampleRateHz v = Fin s"
    using v k f1 b64.fpround_representable [OF assms(3)] by (simp add: getSampleRateHz_def)
  with v k f1 \<open>f = k\<close> mk_vrx_inv [OF assms(1)] assms(2) show ?thesis by simp
qed

theorem mk_vrx_ok_witness:
  "\<exists>v. mk_vrx demo_libm (default_vrx_config\<lparr>vc_centerFrequencyHz := Fin 101, vc_sampleRateHz := Fin 2\<rparr>)
      (Fin 100) (Fin 8) = Inr v \<and> vrx_inv v \<and> decimationFactor v = 4 \<and> getSampleRateHz v = Fin 2"
proof -
  let ?cfg = "default_vrx_config\<lparr>vc_centerFrequencyHz := Fin 101, vc_sampleRateHz := Fin 2\<rparr>"
  have two: "representable binary64 2"
    using b64.representable_int [of 2] by (simp add: binary64_def)
  obtain taps where t: "buildTaps demo_libm (Fin 2) (Fin 8) = Inr taps" "length taps = 129"
    using designLowPassFir_ok [of 129 demo_libm] by (fastforce simp: buildTaps_def)
  let ?d = "\<lparr>dec_taps = taps, dec_factor = 4, dec_history = replicate ((length taps - 1) * 2) (Fin 0)\<rparr>"
  have d: "mk_decimator taps 4 = Inr ?d" using t(2) by (auto simp: mk_decimator_def)
  have q: "fpround binary64 4 = Fin 4" using f64_of_int_exact [of 4] by (simp add: f64_of_int_def)
  have ten: "cast_int (Fin 4) = Inr 4" by (simp add: cast_int_def cast_i32_def rtrunc_def)
  let ?v = "\<lparr>vr_name = [], widebandCenterHz = Fin 100, widebandSampleRateHz = Fin 8,
    vr_centerFrequencyHz = Fin 101, vr_nco = mk_nco (Fin 8), vr_decimator = ?d,
    decimationFactor = 4, callbacks = []\<rparr>"
  have w: "assertWithinSpan ?v (Fin 101) = Inr ()"
    unfolding assertWithinSpan_Inr within_span_def
    using span_exact [of ?v 100 8] by simp
  obtain v where v: "mk_vrx demo_libm ?cfg (Fin 100) (Fin 8) = Inr v"
    using t d q ten w by (auto simp: mk_vrx_def default_vrx_config_def Let_def feq_def rtrunc_def)
  from mk_vrx_ok [OF v, of 2] two have
    "vrx_inv v" "Fin (8::rat) = Fin (of_int (decimationFactor v) * 2)" "getSampleRateHz v = Fin 2"
    by (simp_all add: default_vrx_config_def)
  moreover from this(2) have "rat_of_int (decimationFactor v) = of_int 4" by simp
  then have "decimationFactor v = 4" by (simp only: of_int_eq_iff)
  ultimately show ?thesis using v by blast
qed

lemma within_span_exact:
  assumes "widebandCenterHz v = Fin (of_int c)" and "widebandSampleRateHz v = Fin (of_int s)"
    and "\<bar>c\<bar> + \<bar>s\<bar> \<le> 2 ^ 51"
  shows "within_span v (Fin f) \<longleftrightarrow> 2 * \<bar>f - of_int c\<bar> \<le> of_int s"
  unfolding within_span_def span_exact [OF assms] by (auto simp: abs_if field_simps)

text \<open>
  Construction on a capture of whole Hertz whose rate is a multiple of the receiver's: the only way it
  fails is a centre outside the span.
\<close>

lemma mk_vrx_whole_hertz:
  assumes "vc_sampleRateHz cfg = Fin (of_int r)" and "vc_centerFrequencyHz cfg = Fin f"
    and "1 \<le> r" and "1 \<le> D" and "D < 2 ^ 31" and "\<bar>c\<bar> + D * r \<le> 2 ^ 51"
  shows "if 2 * \<bar>f - of_int c\<bar> \<le> of_int (D * r)
    then \<exists>v. mk_vrx L cfg (Fin (of_int c)) (Fin (of_int (D * r))) = Inr v
    else \<exists>m. mk_vrx L cfg (Fin (of_int c)) (Fin (of_int (D * r))) = Inl (Throw (OutOfRange m))"
proof -
  obtain taps where t: "buildTaps L (Fin (of_int r)) (Fin (of_int (D * r))) = Inr taps" "length taps = 129"
    using designLowPassFir_ok [of 129 L] by (fastforce simp: buildTaps_def)
  let ?d = "\<lparr>dec_taps = taps, dec_factor = D, dec_history = replicate ((length taps - 1) * 2) (Fin 0)\<rparr>"
  have d: "mk_decimator taps D = Inr ?d" using t(2) assms(4) by (auto simp: mk_decimator_def)
  have "rat_of_int (D * r) / of_int r = of_int D" using assms(3) by simp
  moreover have "f64_of_int D = Fin (of_int D)" using assms(4,5) by (intro f64_of_int_exact) simp
  ultimately have q: "fdiv binary64 (Fin (of_int (D * r))) (Fin (of_int r)) = Fin (of_int D)"
    using assms(3) by (simp add: f64_of_int_def)
  have i: "cast_int (Fin (of_int D)) = Inr D" using assms(4,5) by (simp add: cast_int_def cast_i32_def)
  have m: "feq (std_fmod (Fin (of_int (D * r))) (Fin (of_int r))) (Fin 0)"
    using assms(3) by (simp add: feq_def)
  let ?v = "\<lparr>vr_name = vc_name cfg, widebandCenterHz = Fin (of_int c), widebandSampleRateHz = Fin (of_int (D * r)),
    vr_centerFrequencyHz = Fin f, vr_nco = mk_nco (Fin (of_int (D * r))), vr_decimator = ?d,
    decimationFactor = D, callbacks = []\<rparr>"
  have "0 < D * r" using assms(3,4) by simp
  then have a: "\<bar>c\<bar> + \<bar>D * r\<bar> \<le> 2 ^ 51" using assms(6) by simp
  have w: "within_span ?v (Fin f) \<longleftrightarrow> 2 * \<bar>f - of_int c\<bar> \<le> of_int (D * r)"
    by (rule within_span_exact [OF _ _ a]) simp_all
  have "mk_vrx L cfg (Fin (of_int c)) (Fin (of_int (D * r))) = bindr (assertWithinSpan ?v (Fin f)) (\<lambda>_.
      Inr (?v\<lparr>vr_nco := setOffsetHz L (vr_nco ?v) (fsub binary64 (vr_centerFrequencyHz ?v) (widebandCenterHz ?v))\<rparr>))"
    unfolding mk_vrx_def assms(1,2) q i bindr_simps t(1) d Let_def using m by simp
  then show ?thesis
    using assertWithinSpan_Inr [of ?v "Fin f"] w by (auto simp: assertWithinSpan_def split: if_splits)
qed

text \<open>
  Property C37: on a capture whose centre and rate are whole numbers of Hertz (far below the precision
  limit of \<open>double\<close>) the span check is exact: a request is accepted iff it lies at most half the
  sample rate from the centre, and a rejected request throws \<open>std::out_of_range\<close>.
\<close>

theorem retune_exact_span:
  assumes "widebandCenterHz v = Fin (of_int c)" and "widebandSampleRateHz v = Fin (of_int s)"
    and "\<bar>c\<bar> + \<bar>s\<bar> \<le> 2 ^ 51"
  shows "if 2 * \<bar>f - of_int c\<bar> \<le> of_int s
    then \<exists>v'. retune L v (Fin f) = Inr v' \<and> vr_centerFrequencyHz v' = Fin f
    else \<exists>m. retune L v (Fin f) = Inl (Throw (OutOfRange m))"
  using within_span_exact [OF assms, of f] vt.accept [of v "Fin f" L] vt.reject [of v "Fin f" L] by auto

theorem retune_exact_span_witness:
  "(\<exists>v'. retune demo_libm demo_vrx (Fin 104) = Inr v' \<and> vr_centerFrequencyHz v' = Fin 104) \<and>
   (\<exists>m. retune demo_libm demo_vrx (Fin (209 / 2)) = Inl (Throw (OutOfRange m)))"
  using retune_exact_span [of demo_vrx 100 8 104 demo_libm] retune_exact_span [of demo_vrx 100 8 "209 / 2" demo_libm]
  by simp

text \<open>
  Under any sequence of retune requests from any of its clients the receiver stays inside
  the captured span; it ends at the last request the span allows, or where it was when there was
  none, and nothing but its tuning changes.
\<close>

theorem retune_requests:
  assumes "within_span v (vr_centerFrequencyHz v)"
  shows "let w = foldl (try_retune (retune L)) v fs in
    within_span w (vr_centerFrequencyHz w) \<and> vrx_params w = vrx_params v \<and>
    vr_centerFrequencyHz w = last (vr_centerFrequencyHz v # filter (within_span v) fs)"
  using vt.requests_in_range [OF assms] vt.requests_params vt.requests_centre by (simp add: Let_def)

theorem retune_requests_witness:
  "vr_centerFrequencyHz (foldl (try_retune (retune demo_libm)) demo_vrx [Fin 97, Fin 3, Fin 98, Fin 900]) = Fin 98"
  using retune_requests [of demo_vrx demo_libm "[Fin 97, Fin 3, Fin 98, Fin 900]"]
  by (simp add: demo_vrx_span Let_def)

lemma bytes_of_samples_total:
  "\<exists>bs. bytes_of_samples xs = Some bs \<and> length bs = length xs \<and> (\<forall>b \<in> set bs. 1 \<le> unat b)"
proof (induction xs)
  case (Cons x xs)
  then show ?case using sample_to_byte_total [of x] by auto
qed simp

lemma processWidebandChunk_total:
  assumes "vrx_inv v" and "length iq = 2 * n"
  shows "\<exists>bs v'. processWidebandChunk L v iq n =
      Some (if bs = [] then [] else map (\<lambda>cb. (cb, bs)) (callbacks v), v') \<and>
    length bs = 2 * (n div nat (decimationFactor v)) \<and> (\<forall>b \<in> set bs. 1 \<le> unat b) \<and>
    vrx_inv v' \<and> vr_centerFrequencyHz v' = vr_centerFrequencyHz v \<and> callbacks v' = callbacks v"
proof -
  obtain xs where xs: "iq = interleave xs" "length xs = n"
    using interleave_surj [of iq] assms(2) by auto
  obtain ys nco' where m: "mixInPlace L (vr_nco v) (interleave xs) n = Some (interleave ys, nco')"
    "length ys = n" using mixInPlace_samples_lemma xs(2) by blast
  have inv: "decimator_inv (vr_decimator v)" "dec_factor (vr_decimator v) = decimationFactor v"
    "within_span v (vr_centerFrequencyHz v)" using assms(1) by (auto simp: vrx_inv_def)
  from process_total [OF inv(1), of "interleave ys"] obtain out dec' where
    p: "process (vr_decimator v) (interleave ys) = Some (out, dec')" "decimator_inv dec'"
      "dec_factor dec' = decimationFactor v" "length out = 2 * (n div nat (decimationFactor v))"
    using m(2) inv(2) by auto
  from bytes_of_samples_total [of out] obtain bs where
    b: "bytes_of_samples out = Some bs" "length bs = length out" "\<forall>b \<in> set bs. 1 \<le> unat b" by blast
  let ?v = "v\<lparr>vr_nco := nco', vr_decimator := dec'\<rparr>"
  have "within_span ?v (vr_centerFrequencyHz ?v)"
    using inv(3) by (simp add: within_span_def span_lo_def span_hi_def)
  then have "vrx_inv ?v" using p by (simp add: vrx_inv_def)
  moreover have "processWidebandChunk L v iq n =
      Some (if bs = [] then [] else map (\<lambda>cb. (cb, bs)) (callbacks v), ?v)"
    using xs m p b by (auto simp: processWidebandChunk_def Let_def)
  ultimately show ?thesis using b p(4)
    by (intro exI [of _ bs] exI [of _ ?v]) auto
qed

text \<open>
  Property C11: a receiver in its invariant processes every wideband chunk without touching memory outside its
  buffers: every registered callback, in registration order, gets the same \<open>2 * (n div D)\<close> bytes,
  none of them 0 (no callback runs when that is nothing), and the invariant and the tuning stay.
\<close>

theorem processWidebandChunk_ok:
  assumes "vrx_inv v" and "length iq = 2 * n"
  shows "\<exists>bs v'. processWidebandChunk L v iq n =
      Some (if bs = [] then [] else map (\<lambda>cb. (cb, bs)) (callbacks v), v') \<and>
    length bs = 2 * (n div nat (decimationFactor v)) \<and> (\<forall>b \<in> set bs. 1 \<le> unat b) \<and>
    vrx_inv v' \<and> vr_centerFrequencyHz v' = vr_centerFrequencyHz v \<and> callbacks v' = callbacks v"
  by (rule processWidebandChunk_total [OF assms])

theorem processWidebandChunk_ok_witness:
  "\<exists>bs v'. processWidebandChunk demo_libm demo_vrx (replicate 6 (Fin 1)) 3 = Some ([(RtlTcpBroadcast, bs)], v') \<and>
    length bs = 2 \<and> vrx_inv v'"
proof -
  from processWidebandChunk_ok [OF demo_vrx_inv, of "replicate 6 (Fin 1)" 3 demo_libm]
  obtain bs v' where r: "processWidebandChunk demo_libm demo_vrx (replicate 6 (Fin 1)) 3 =
      Some (if bs = [] then [] else map (\<lambda>cb. (cb, bs)) (callbacks demo_vrx), v')"
    "length bs = 2" "vrx_inv v'" by auto
  then have "bs \<noteq> []" by auto
  with r show ?thesis by auto
qed

end
