(* ===== verification/ReceiverThreads.thy ===== *)
theory ReceiverThreads
  imports VirtualReceiver
begin

text \<open>
  A receiver (\<open>src/dsp/virtual_receiver.cpp\<close>, \<open>src/dsp/nco.hpp\<close>) between its threads: the read threads of its
  endpoints' clients call \<open>retune\<close> while the streaming thread is in \<open>processWidebandChunk\<close>, without a lock.
  Every read and write of a shared member is one step here, in the order of the source: \<open>retune\<close> writes
  \<open>centerFrequencyHz_\<close>, \<open>rotationRe_\<close>, \<open>rotationIm_\<close>; \<open>mixInPlace\<close> reads \<open>rotationRe_\<close>, then \<open>rotationIm_\<close>. All
  else a chunk touches belongs to the streaming thread, all else \<open>retune\<close> reads never changes.
\<close>

section \<open>State and steps\<close>

text \<open>A call of \<open>retune(f)\<close>: before the check, and before each of its writes.\<close>

datatype retune_pc = RetuneCheck fp | RetuneCentre fp | RetuneRe fp | RetuneIm fp

text \<open>A chunk: before the reads, after the first, after both; \<open>StreamCrashed\<close> is undefined behaviour in it.\<close>

datatype stream_pc = StreamIdle | StreamReads "fp list" nat | StreamHalf "fp list" nat fp | StreamMix "fp list" nat fp fp
  | StreamCrashed

text \<open>
  \<open>rx_log\<close> holds, for every chunk, its length, the rotation it was mixed with and what the callbacks got;
  \<open>rx_accepted\<close> the frequencies written to \<open>centerFrequencyHz_\<close>, in order; \<open>rx_overlapped\<close> whether a retune ever
  began to write while another was not done.
\<close>

record rx_state =
  rx_vrx :: vrx
  rx_retunes :: "retune_pc list"
  rx_stream :: stream_pc
  rx_log :: "(nat \<times> iq \<times> (callback \<times> bytes) list) list"
  rx_accepted :: "fp list"
  rx_overlapped :: bool

definition rx_initial :: "vrx \<Rightarrow> rx_state" where
  "rx_initial v = \<lparr>rx_vrx = v, rx_retunes = [], rx_stream = StreamIdle, rx_log = [], rx_accepted = [],
     rx_overlapped = False\<rparr>"

text \<open>The rotation \<open>setOffsetHz\<close> computes for a centre frequency.\<close>

definition target :: "libm \<Rightarrow> vrx \<Rightarrow> fp \<Rightarrow> iq" where
  "target L v f = rotation (setOffsetHz L (vr_nco v) (fsub binary64 f (widebandCenterHz v)))"

definition set_rotation :: "iq \<Rightarrow> vrx \<Rightarrow> vrx" where
  "set_rotation rot v = v\<lparr>vr_nco := (vr_nco v)\<lparr>rotationRe := fst rot, rotationIm := snd rot\<rparr>\<rparr>"

fun writing :: "retune_pc \<Rightarrow> bool" where
  "writing (RetuneRe f) = True"
| "writing (RetuneIm f) = True"
| "writing _ = False"

inductive rx_step :: "libm \<Rightarrow> rx_state \<Rightarrow> rx_state \<Rightarrow> bool" for L where
  rx_request: "rx_step L s (s\<lparr>rx_retunes := RetuneCheck f # rx_retunes s\<rparr>)"
| rx_reject: "rx_retunes s = us @ RetuneCheck f # ws \<Longrightarrow> assertWithinSpan (rx_vrx s) f = Inl e \<Longrightarrow>
     rx_step L s (s\<lparr>rx_retunes := us @ ws\<rparr>)"
| rx_accept: "rx_retunes s = us @ RetuneCheck f # ws \<Longrightarrow> assertWithinSpan (rx_vrx s) f = Inr () \<Longrightarrow>
     rx_step L s (s\<lparr>rx_retunes := us @ RetuneCentre f # ws\<rparr>)"
| rx_centre: "rx_retunes s = us @ RetuneCentre f # ws \<Longrightarrow>
     rx_step L s (s\<lparr>rx_vrx := (rx_vrx s)\<lparr>vr_centerFrequencyHz := f\<rparr>, rx_retunes := us @ RetuneRe f # ws,
       rx_accepted := rx_accepted s @ [f], rx_overlapped := (rx_overlapped s \<or> (\<exists>pc \<in> set (us @ ws). writing pc))\<rparr>)"
| rx_re: "rx_retunes s = us @ RetuneRe f # ws \<Longrightarrow>
     rx_step L s (s\<lparr>rx_vrx := set_rotation (fst (target L (rx_vrx s) f), rotationIm (vr_nco (rx_vrx s))) (rx_vrx s),
       rx_retunes := us @ RetuneIm f # ws\<rparr>)"
| rx_im: "rx_retunes s = us @ RetuneIm f # ws \<Longrightarrow>
     rx_step L s (s\<lparr>rx_vrx := set_rotation (rotationRe (vr_nco (rx_vrx s)), snd (target L (rx_vrx s) f)) (rx_vrx s),
       rx_retunes := us @ ws\<rparr>)"
| rx_chunk: "rx_stream s = StreamIdle \<Longrightarrow> length iq = 2 * n \<Longrightarrow> rx_step L s (s\<lparr>rx_stream := StreamReads iq n\<rparr>)"
| rx_read_re: "rx_stream s = StreamReads iq n \<Longrightarrow>
     rx_step L s (s\<lparr>rx_stream := StreamHalf iq n (rotationRe (vr_nco (rx_vrx s)))\<rparr>)"
| rx_read_im: "rx_stream s = StreamHalf iq n re \<Longrightarrow>
     rx_step L s (s\<lparr>rx_stream := StreamMix iq n re (rotationIm (vr_nco (rx_vrx s)))\<rparr>)"
| rx_mix: "rx_stream s = StreamMix iq n re im \<Longrightarrow>
     processWidebandChunk L (set_rotation (re, im) (rx_vrx s)) iq n = Some (outs, v') \<Longrightarrow>
     rx_step L s (s\<lparr>rx_vrx := set_rotation (rotation (vr_nco (rx_vrx s))) v', rx_stream := StreamIdle,
       rx_log := (n, (re, im), outs) # rx_log s\<rparr>)"
| rx_crash: "rx_stream s = StreamMix iq n re im \<Longrightarrow>
     processWidebandChunk L (set_rotation (re, im) (rx_vrx s)) iq n = None \<Longrightarrow>
     rx_step L s (s\<lparr>rx_stream := StreamCrashed\<rparr>)"

section \<open>What the steps keep\<close>

text \<open>The members nobody writes after construction.\<close>

definition fixed :: "vrx \<Rightarrow> fp \<times> fp \<times> fp \<times> int \<times> callback list" where
  "fixed v = (widebandCenterHz v, widebandSampleRateHz v, nco_sampleRateHz (vr_nco v), decimationFactor v, callbacks v)"

lemma target_fixed: "fixed v = fixed w \<Longrightarrow> target L v f = target L w f"
  by (simp add: fixed_def target_def setOffsetHz_def rotation_def Let_def)

lemma span_fixed: "fixed v = fixed w \<Longrightarrow> within_span v f \<longleftrightarrow> within_span w f"
  by (simp add: fixed_def within_span_def span_lo_def span_hi_def)

lemma set_rotation_simps [simp]:
  "fixed (set_rotation rot v) = fixed v" "vr_centerFrequencyHz (set_rotation rot v) = vr_centerFrequencyHz v"
  "rotation (vr_nco (set_rotation rot v)) = rot" "rotationRe (vr_nco (set_rotation rot v)) = fst rot"
  "rotationIm (vr_nco (set_rotation rot v)) = snd rot" "callbacks (set_rotation rot v) = callbacks v"
  "decimationFactor (set_rotation rot v) = decimationFactor v"
  by (simp_all add: set_rotation_def fixed_def rotation_def)

lemma set_centre_simps [simp]:
  "fixed (v\<lparr>vr_centerFrequencyHz := f\<rparr>) = fixed v" "vr_nco (v\<lparr>vr_centerFrequencyHz := f\<rparr>) = vr_nco v"
  by (simp_all add: fixed_def)

lemma vrx_inv_rotation [simp]: "vrx_inv (set_rotation rot v) \<longleftrightarrow> vrx_inv v"
  by (simp add: vrx_inv_def set_rotation_def within_span_def span_lo_def span_hi_def)

lemma vrx_inv_centre: "vrx_inv v \<Longrightarrow> within_span v f \<Longrightarrow> vrx_inv (v\<lparr>vr_centerFrequencyHz := f\<rparr>)"
  by (simp add: vrx_inv_def within_span_def span_lo_def span_hi_def)

lemma chunk_keeps:
  assumes "processWidebandChunk L v iq n = Some (outs, v')"
  shows "fixed v' = fixed v \<and> vr_centerFrequencyHz v' = vr_centerFrequencyHz v"
  using assms
  by (auto simp: processWidebandChunk_def mixInPlace_def fixed_def Let_def split: if_splits option.splits prod.splits)

section \<open>No interleaving is unsafe\<close>

text \<open>The rotations that were asked for: the one at the start and those of the accepted frequencies.\<close>

definition rotations :: "libm \<Rightarrow> vrx \<Rightarrow> fp list \<Rightarrow> iq set" where
  "rotations L v fs = insert (rotation (vr_nco v)) (target L v ` set fs)"

lemma rotations_snoc [simp]: "rotations L v (fs @ [f]) = insert (target L v f) (rotations L v fs)"
  by (auto simp: rotations_def)

fun retune_ok :: "vrx \<Rightarrow> fp list \<Rightarrow> retune_pc \<Rightarrow> bool" where
  "retune_ok v fs (RetuneCheck f) \<longleftrightarrow> True"
| "retune_ok v fs (RetuneCentre f) \<longleftrightarrow> within_span v f"
| "retune_ok v fs (RetuneRe f) \<longleftrightarrow> f \<in> set fs"
| "retune_ok v fs (RetuneIm f) \<longleftrightarrow> f \<in> set fs"

fun stream_ok :: "iq set \<Rightarrow> stream_pc \<Rightarrow> bool" where
  "stream_ok R StreamIdle \<longleftrightarrow> True"
| "stream_ok R (StreamReads iq n) \<longleftrightarrow> length iq = 2 * n"
| "stream_ok R (StreamHalf iq n re) \<longleftrightarrow> length iq = 2 * n \<and> re \<in> fst ` R"
| "stream_ok R (StreamMix iq n re im) \<longleftrightarrow> length iq = 2 * n \<and> re \<in> fst ` R \<and> im \<in> snd ` R"
| "stream_ok R StreamCrashed \<longleftrightarrow> False"

definition log_ok :: "vrx \<Rightarrow> iq set \<Rightarrow> nat \<times> iq \<times> (callback \<times> bytes) list \<Rightarrow> bool" where
  "log_ok v R e = (case e of (n, rot, outs) \<Rightarrow> fst rot \<in> fst ` R \<and> snd rot \<in> snd ` R \<and>
     (\<exists>bs. outs = (if bs = [] then [] else map (\<lambda>cb. (cb, bs)) (callbacks v)) \<and>
       length bs = 2 * (n div nat (decimationFactor v)) \<and> (\<forall>b \<in> set bs. 1 \<le> unat b)))"

lemma retune_ok_mono: "retune_ok v fs pc \<Longrightarrow> retune_ok v (fs @ [f]) pc"
  by (cases pc) auto

lemma stream_ok_mono: "stream_ok R pc \<Longrightarrow> R \<subseteq> R' \<Longrightarrow> stream_ok R' pc"
  by (cases pc) (auto intro: image_mono [THEN subsetD])

lemma log_ok_mono: "log_ok v R e \<Longrightarrow> R \<subseteq> R' \<Longrightarrow> log_ok v R' e"
  using image_mono [of R R' fst] image_mono [of R R' snd] by (cases e) (auto simp: log_ok_def simp del: image_subset_iff)

definition rx_inv :: "libm \<Rightarrow> vrx \<Rightarrow> rx_state \<Rightarrow> bool" where
  "rx_inv L v s \<longleftrightarrow> (let R = rotations L v (rx_accepted s) in
     vrx_inv (rx_vrx s) \<and> fixed (rx_vrx s) = fixed v \<and>
     rotationRe (vr_nco (rx_vrx s)) \<in> fst ` R \<and> rotationIm (vr_nco (rx_vrx s)) \<in> snd ` R \<and>
     (\<forall>f \<in> set (rx_accepted s). within_span v f) \<and>
     (\<forall>pc \<in> set (rx_retunes s). retune_ok v (rx_accepted s) pc) \<and>
     stream_ok R (rx_stream s) \<and> (\<forall>e \<in> set (rx_log s). log_ok v R e))"

lemma rx_inv_initial: "vrx_inv v \<Longrightarrow> rx_inv L v (rx_initial v)"
  by (simp add: rx_inv_def rx_initial_def rotations_def Let_def) (simp add: rotation_def)

lemma rx_inv_step: "rx_step L s s' \<Longrightarrow> rx_inv L v s \<Longrightarrow> rx_inv L v s'"
proof (induction rule: rx_step.induct)
  case (rx_accept s us f ws)
  then have "within_span v f" using span_fixed [of v "rx_vrx s"] by (auto simp: rx_inv_def Let_def assertWithinSpan_Inr)
  with rx_accept show ?case by (simp add: rx_inv_def Let_def ball_Un)
next
  case (rx_centre s us f ws)
  let ?R = "rotations L v (rx_accepted s)" and ?R' = "rotations L v (rx_accepted s @ [f])"
  have sub: "?R \<subseteq> ?R'" by auto
  have i: "vrx_inv (rx_vrx s)" "fixed (rx_vrx s) = fixed v" "rotationRe (vr_nco (rx_vrx s)) \<in> fst ` ?R"
    "rotationIm (vr_nco (rx_vrx s)) \<in> snd ` ?R" "\<forall>f \<in> set (rx_accepted s). within_span v f"
    "\<forall>pc \<in> set us \<union> set ws. retune_ok v (rx_accepted s) pc" "within_span v f"
    "stream_ok ?R (rx_stream s)" "\<forall>e \<in> set (rx_log s). log_ok v ?R e"
    using rx_centre by (simp_all add: rx_inv_def Let_def ball_Un)
  from i(1,7) have "vrx_inv ((rx_vrx s)\<lparr>vr_centerFrequencyHz := f\<rparr>)"
    using span_fixed [OF i(2)] by (intro vrx_inv_centre) simp_all
  moreover have "\<forall>pc \<in> set us \<union> set ws. retune_ok v (rx_accepted s @ [f]) pc" using i(6) retune_ok_mono by blast
  moreover have "stream_ok ?R' (rx_stream s)" using i(8) sub by (rule stream_ok_mono)
  moreover have "\<forall>e \<in> set (rx_log s). log_ok v ?R' e" using i(9) log_ok_mono [OF _ sub] by blast
  moreover have "rotationRe (vr_nco (rx_vrx s)) \<in> fst ` ?R'" "rotationIm (vr_nco (rx_vrx s)) \<in> snd ` ?R'"
    using i(3,4) sub by (auto simp del: rotations_snoc)
  ultimately show ?case using i(2,5,7) by (simp add: rx_inv_def Let_def ball_Un del: rotations_snoc)
next
  case (rx_re s us f ws)
  then have f: "f \<in> set (rx_accepted s)" and e: "fixed (rx_vrx s) = fixed v" by (auto simp: rx_inv_def Let_def)
  have t: "target L (rx_vrx s) f = target L v f" using e by (rule target_fixed)
  from f have "target L v f \<in> rotations L v (rx_accepted s)" by (simp add: rotations_def)
  with rx_re f show ?case by (simp add: rx_inv_def Let_def ball_Un t)
next
  case (rx_im s us f ws)
  then have f: "f \<in> set (rx_accepted s)" and e: "fixed (rx_vrx s) = fixed v" by (auto simp: rx_inv_def Let_def)
  have t: "target L (rx_vrx s) f = target L v f" using e by (rule target_fixed)
  from f have "target L v f \<in> rotations L v (rx_accepted s)" by (simp add: rotations_def)
  with rx_im show ?case by (simp add: rx_inv_def Let_def ball_Un t)
next
  case (rx_mix s iq n re im outs v')
  then have i: "vrx_inv (set_rotation (re, im) (rx_vrx s))" "length iq = 2 * n" "fixed (rx_vrx s) = fixed v"
    by (auto simp: rx_inv_def Let_def)
  have c: "callbacks (set_rotation (re, im) (rx_vrx s)) = callbacks v"
    "decimationFactor (set_rotation (re, im) (rx_vrx s)) = decimationFactor v" using i(3) by (simp_all add: fixed_def)
  from processWidebandChunk_total [OF i(1,2), of L, unfolded c rx_mix(2)] obtain bs where
    "outs = (if bs = [] then [] else map (\<lambda>cb. (cb, bs)) (callbacks v))"
    "length bs = 2 * (n div nat (decimationFactor v))" "\<forall>b \<in> set bs. 1 \<le> unat b" "vrx_inv v'" by blast
  moreover from this have "log_ok v (rotations L v (rx_accepted s)) (n, (re, im), outs)"
    using rx_mix(1,3) by (auto simp: log_ok_def rx_inv_def Let_def)
  ultimately show ?case using rx_mix i chunk_keeps [OF rx_mix(2)]
    by (simp add: rx_inv_def Let_def) (simp add: rotation_def)
next
  case (rx_crash s iq n re im)
  then have "vrx_inv (set_rotation (re, im) (rx_vrx s))" "length iq = 2 * n" by (auto simp: rx_inv_def Let_def)
  from processWidebandChunk_total [OF this, of L] rx_crash(2) show ?case by simp
qed (auto simp: rx_inv_def Let_def)

lemma rx_inv_reachable: "(rx_step L)\<^sup>*\<^sup>* (rx_initial v) s \<Longrightarrow> vrx_inv v \<Longrightarrow> rx_inv L v s"
  by (induction rule: rtranclp_induct) (auto intro: rx_inv_initial rx_inv_step)

text \<open>
  Property C12: however the retunes of any number of clients and the chunks of the streaming thread interleave,
  access by access: no chunk leaves its buffers, every callback gets the same \<open>2 * (n div D)\<close> non-zero bytes,
  the centre frequency stays in the span, and every chunk is mixed with a rotation each part of which was
  computed for a frequency that was accepted (or is the one from the start), though not always both parts for
  the same.
\<close>

theorem receiver_interleaved_safe:
  assumes "(rx_step L)\<^sup>*\<^sup>* (rx_initial v) s" and "vrx_inv v"
  shows "rx_stream s \<noteq> StreamCrashed \<and> vrx_inv (rx_vrx s) \<and> callbacks (rx_vrx s) = callbacks v \<and>
    (\<forall>f \<in> set (rx_accepted s). within_span v f) \<and>
    (\<forall>(n, rot, outs) \<in> set (rx_log s).
       fst rot \<in> fst ` rotations L v (rx_accepted s) \<and> snd rot \<in> snd ` rotations L v (rx_accepted s) \<and>
       (\<exists>bs. outs = (if bs = [] then [] else map (\<lambda>cb. (cb, bs)) (callbacks v)) \<and>
         length bs = 2 * (n div nat (decimationFactor v)) \<and> (\<forall>b \<in> set bs. 1 \<le> unat b)))"
proof -
  have i: "rx_inv L v s" by (rule rx_inv_reachable [OF assms])
  then have "stream_ok (rotations L v (rx_accepted s)) (rx_stream s)" by (simp add: rx_inv_def Let_def)
  then have "rx_stream s \<noteq> StreamCrashed" by auto
  moreover have "callbacks (rx_vrx s) = callbacks v" using i by (simp add: rx_inv_def Let_def fixed_def)
  ultimately show ?thesis using i unfolding rx_inv_def Let_def log_ok_def by blast
qed

section \<open>Retunes that do not overlap take effect in order\<close>

text \<open>The receiver after the accepted requests, one after the other.\<close>

definition retuned :: "libm \<Rightarrow> vrx \<Rightarrow> fp list \<Rightarrow> vrx" where
  "retuned L v fs = foldl (try_retune (retune L)) v fs"

lemma try_retune_accepted:
  assumes "within_span w f"
  shows "vr_centerFrequencyHz (try_retune (retune L) w f) = f \<and>
    rotation (vr_nco (try_retune (retune L) w f)) = target L w f"
  using assms by (simp add: try_retune_def retune_def assertWithinSpan_def within_span_def target_def)

lemma try_retune_fixed: "fixed (try_retune (retune L) w f) = fixed w"
  by (simp add: try_retune_def retune_def assertWithinSpan_def fixed_def setOffsetHz_def Let_def)

lemma retuned_fixed: "fixed (retuned L v fs) = fixed v"
  unfolding retuned_def by (induction fs arbitrary: v) (simp_all add: try_retune_fixed)

lemma retuned_snoc:
  assumes "within_span v f"
  shows "vr_centerFrequencyHz (retuned L v (fs @ [f])) = f" "rotation (vr_nco (retuned L v (fs @ [f]))) = target L v f"
proof -
  have "within_span (retuned L v fs) f" using assms span_fixed [OF retuned_fixed] by blast
  from try_retune_accepted [OF this, of L] show "vr_centerFrequencyHz (retuned L v (fs @ [f])) = f"
    and "rotation (vr_nco (retuned L v (fs @ [f]))) = target L v f"
    by (simp_all add: retuned_def target_fixed [OF retuned_fixed, unfolded retuned_def])
qed

definition serial_inv :: "libm \<Rightarrow> vrx \<Rightarrow> rx_state \<Rightarrow> bool" where
  "serial_inv L v s \<longleftrightarrow> (\<not> rx_overlapped s \<longrightarrow> (let w = retuned L v (rx_accepted s) in
     vr_centerFrequencyHz (rx_vrx s) = vr_centerFrequencyHz w \<and> length (filter writing (rx_retunes s)) \<le> 1 \<and>
     (\<forall>f. RetuneRe f \<in> set (rx_retunes s) \<longrightarrow> rotation (vr_nco w) = target L v f) \<and>
     (\<forall>f. RetuneIm f \<in> set (rx_retunes s) \<longrightarrow> rotation (vr_nco w) = target L v f \<and>
        rotationRe (vr_nco (rx_vrx s)) = fst (target L v f)) \<and>
     ((\<forall>pc \<in> set (rx_retunes s). \<not> writing pc) \<longrightarrow> rotation (vr_nco (rx_vrx s)) = rotation (vr_nco w))))"

lemma no_other_writing: "length (filter writing (us @ pc # ws)) \<le> 1 \<Longrightarrow> writing pc \<Longrightarrow>
    \<forall>pc' \<in> set us \<union> set ws. \<not> writing pc'"
  by (auto simp: filter_empty_conv)

lemma not_writing: "\<forall>pc \<in> A. \<not> writing pc \<Longrightarrow> RetuneRe f \<notin> A \<and> RetuneIm f \<notin> A"
  by force

lemma serial_step: "rx_step L s s' \<Longrightarrow> rx_inv L v s \<Longrightarrow> serial_inv L v s \<Longrightarrow> serial_inv L v s'"
proof (induction rule: rx_step.induct)
  case (rx_centre s us f ws)
  show ?case
  proof (cases "rx_overlapped s \<or> (\<exists>pc \<in> set (us @ ws). writing pc)")
    case True
    then show ?thesis by (simp add: serial_inv_def)
  next
    case False
    then have n: "\<forall>pc \<in> set us \<union> set ws. \<not> writing pc" by auto
    have "within_span v f" using rx_centre by (simp add: rx_inv_def Let_def)
    note r = retuned_snoc [OF this, of L "rx_accepted s"]
    have "filter writing us = []" "filter writing ws = []" using n by (auto simp: filter_empty_conv)
    with r not_writing [OF n] show ?thesis by (auto simp: serial_inv_def Let_def)
  qed
next
  case (rx_re s us f ws)
  show ?case
  proof (cases "rx_overlapped s")
    case False
    have t: "target L (rx_vrx s) f = target L v f" using rx_re.prems(1) by (intro target_fixed) (simp add: rx_inv_def Let_def)
    have i: "length (filter writing (us @ RetuneRe f # ws)) \<le> 1" using rx_re False by (simp add: serial_inv_def Let_def)
    from not_writing [OF no_other_writing [OF i]] have o: "RetuneRe g \<notin> set us \<union> set ws \<and> RetuneIm g \<notin> set us \<union> set ws" for g
      by simp
    from rx_re False o i show ?thesis by (simp add: serial_inv_def Let_def t)
  qed (simp add: serial_inv_def)
next
  case (rx_im s us f ws)
  show ?case
  proof (cases "rx_overlapped s")
    case False
    have t: "target L (rx_vrx s) f = target L v f" using rx_im.prems(1) by (intro target_fixed) (simp add: rx_inv_def Let_def)
    have i: "length (filter writing (us @ RetuneIm f # ws)) \<le> 1" using rx_im False by (simp add: serial_inv_def Let_def)
    from not_writing [OF no_other_writing [OF i]] have o: "RetuneRe g \<notin> set us \<union> set ws \<and> RetuneIm g \<notin> set us \<union> set ws" for g
      by simp
    from rx_im False o i show ?thesis by (simp add: serial_inv_def Let_def t)
  qed (simp add: serial_inv_def)
next
  case (rx_mix s iq n re im outs v')
  from chunk_keeps [OF rx_mix(2)] rx_mix.prems show ?case
    by (simp add: serial_inv_def Let_def) (simp add: rotation_def)
qed (auto simp: serial_inv_def Let_def)

lemma serial_reachable:
  assumes "(rx_step L)\<^sup>*\<^sup>* (rx_initial v) s" and "vrx_inv v"
  shows "serial_inv L v s"
  using assms(1)
proof (induction rule: rtranclp_induct)
  case base
  then show ?case by (simp add: serial_inv_def rx_initial_def retuned_def)
next
  case (step s s')
  then show ?case using rx_inv_reachable [OF _ assms(2)] by (blast intro: serial_step)
qed

text \<open>
  Property C13: as long as no two retunes overlap, the accesses of the threads refine the atomic receiver: when no
  retune is in its writes, the centre frequency and the oscillator are those of the accepted requests made one
  after the other, whatever the streaming thread does meanwhile.
\<close>

theorem retunes_serialise:
  assumes "(rx_step L)\<^sup>*\<^sup>* (rx_initial v) s" and "vrx_inv v" and "\<not> rx_overlapped s"
    and "\<forall>pc \<in> set (rx_retunes s). \<not> writing pc"
  shows "vr_centerFrequencyHz (rx_vrx s) =
      vr_centerFrequencyHz (foldl (try_retune (retune L)) v (rx_accepted s)) \<and>
    rotation (vr_nco (rx_vrx s)) = rotation (vr_nco (foldl (try_retune (retune L)) v (rx_accepted s)))"
  using serial_reachable [OF assms(1,2)] assms(3,4) by (simp add: serial_inv_def retuned_def Let_def)

section \<open>Overlapping retunes\<close>

text \<open>
  When two retunes overlap, the receiver can come to rest reporting one frequency with the oscillator at the
  other, until the next retune.
\<close>

lemma retunes_can_mix:
  assumes "within_span v f" and "within_span v g"
  shows "\<exists>s. (rx_step L)\<^sup>*\<^sup>* (rx_initial v) s \<and> rx_retunes s = [] \<and>
    vr_centerFrequencyHz (rx_vrx s) = g \<and> rotation (vr_nco (rx_vrx s)) = target L v f"
proof -
  let ?s0 = "rx_initial v"
  let ?s1 = "?s0\<lparr>rx_retunes := [RetuneCheck f]\<rparr>" and ?s2 = "?s0\<lparr>rx_retunes := [RetuneCheck g, RetuneCheck f]\<rparr>"
  let ?s3 = "?s0\<lparr>rx_retunes := [RetuneCentre g, RetuneCheck f]\<rparr>" and ?s4 = "?s0\<lparr>rx_retunes := [RetuneCentre g, RetuneCentre f]\<rparr>"
  let ?s5 = "?s4\<lparr>rx_vrx := v\<lparr>vr_centerFrequencyHz := f\<rparr>, rx_retunes := [RetuneCentre g, RetuneRe f], rx_accepted := [f]\<rparr>"
  let ?v = "v\<lparr>vr_centerFrequencyHz := g\<rparr>" and ?im = "\<lambda>v. rotationIm (vr_nco v)" and ?re = "\<lambda>v. rotationRe (vr_nco v)"
  let ?s6 = "?s5\<lparr>rx_vrx := ?v, rx_retunes := [RetuneRe g, RetuneRe f], rx_accepted := [f, g], rx_overlapped := True\<rparr>"
  let ?v7 = "set_rotation (fst (target L ?v g), ?im ?v) ?v"
  let ?v8 = "set_rotation (?re ?v7, snd (target L ?v7 g)) ?v7"
  let ?v9 = "set_rotation (fst (target L ?v8 f), ?im ?v8) ?v8"
  let ?v10 = "set_rotation (?re ?v9, snd (target L ?v9 f)) ?v9"
  have a: "assertWithinSpan v f = Inr ()" "assertWithinSpan v g = Inr ()" using assms by (simp_all add: assertWithinSpan_Inr)
  have "rx_step L ?s0 ?s1" using rx_request [of L ?s0 f] by (simp add: rx_initial_def)
  moreover have "rx_step L ?s1 ?s2" using rx_request [of L ?s1 g] by simp
  moreover have "rx_step L ?s2 ?s3" using rx_accept [of ?s2 "[]" g "[RetuneCheck f]" L] a by (simp add: rx_initial_def)
  moreover have "rx_step L ?s3 ?s4" using rx_accept [of ?s3 "[RetuneCentre g]" f "[]" L] a by (simp add: rx_initial_def)
  moreover have "rx_step L ?s4 ?s5" using rx_centre [of ?s4 "[RetuneCentre g]" f "[]" L] by (simp add: rx_initial_def)
  moreover have "rx_step L ?s5 ?s6" using rx_centre [of ?s5 "[]" g "[RetuneRe f]" L] by (simp add: rx_initial_def)
  moreover have "rx_step L ?s6 (?s6\<lparr>rx_vrx := ?v7, rx_retunes := [RetuneIm g, RetuneRe f]\<rparr>)"
    using rx_re [of ?s6 "[]" g "[RetuneRe f]" L] by simp
  moreover have "rx_step L (?s6\<lparr>rx_vrx := ?v7, rx_retunes := [RetuneIm g, RetuneRe f]\<rparr>) (?s6\<lparr>rx_vrx := ?v8, rx_retunes := [RetuneRe f]\<rparr>)"
    using rx_im [of "?s6\<lparr>rx_vrx := ?v7, rx_retunes := [RetuneIm g, RetuneRe f]\<rparr>" "[]" g "[RetuneRe f]" L] by simp
  moreover have "rx_step L (?s6\<lparr>rx_vrx := ?v8, rx_retunes := [RetuneRe f]\<rparr>) (?s6\<lparr>rx_vrx := ?v9, rx_retunes := [RetuneIm f]\<rparr>)"
    using rx_re [of "?s6\<lparr>rx_vrx := ?v8, rx_retunes := [RetuneRe f]\<rparr>" "[]" f "[]" L] by simp
  moreover have "rx_step L (?s6\<lparr>rx_vrx := ?v9, rx_retunes := [RetuneIm f]\<rparr>) (?s6\<lparr>rx_vrx := ?v10, rx_retunes := []\<rparr>)"
    using rx_im [of "?s6\<lparr>rx_vrx := ?v9, rx_retunes := [RetuneIm f]\<rparr>" "[]" f "[]" L] by simp
  ultimately have "(rx_step L)\<^sup>*\<^sup>* ?s0 (?s6\<lparr>rx_vrx := ?v10, rx_retunes := []\<rparr>)"
    by (meson converse_rtranclp_into_rtranclp rtranclp.rtrancl_refl)
  moreover have "target L ?v8 f = target L v f" "target L ?v9 f = target L v f" by (rule target_fixed, simp)+
  then have "rotation (vr_nco ?v10) = target L v f" by simp
  ultimately show ?thesis by (intro exI [of _ "?s6\<lparr>rx_vrx := ?v10, rx_retunes := []\<rparr>"]) simp
qed

section \<open>A concrete run\<close>

text \<open>The demonstration receiver is retuned to 98 Hz while a chunk is read: the chunk got the first half of the rotation before.\<close>

lemma demo_chunk_run: "\<exists>s bs. (rx_step L)\<^sup>*\<^sup>* (rx_initial demo_vrx) s \<and> rx_retunes s = [] \<and> rx_accepted s = [Fin 98] \<and>
    \<not> rx_overlapped s \<and> rx_log s = [(3, (Fin 1, snd (target L demo_vrx (Fin 98))), [(RtlTcpBroadcast, bs)])]"
proof -
  let ?f = "Fin 98 :: fp" and ?iq = "replicate 6 (Fin 1)"
  let ?s0 = "(rx_initial demo_vrx)\<lparr>rx_stream := StreamReads ?iq 3\<rparr>"
  let ?s1 = "(rx_initial demo_vrx)\<lparr>rx_stream := StreamHalf ?iq 3 (Fin 1)\<rparr>"
  let ?s2 = "?s1\<lparr>rx_retunes := [RetuneCheck ?f]\<rparr>" and ?s3 = "?s1\<lparr>rx_retunes := [RetuneCentre ?f]\<rparr>"
  let ?v4 = "demo_vrx\<lparr>vr_centerFrequencyHz := ?f\<rparr>"
  let ?s4 = "?s1\<lparr>rx_vrx := ?v4, rx_retunes := [RetuneRe ?f], rx_accepted := [?f]\<rparr>"
  let ?v5 = "set_rotation (fst (target L ?v4 ?f), rotationIm (vr_nco ?v4)) ?v4"
  let ?s5 = "?s4\<lparr>rx_vrx := ?v5, rx_retunes := [RetuneIm ?f]\<rparr>"
  let ?v6 = "set_rotation (rotationRe (vr_nco ?v5), snd (target L ?v5 ?f)) ?v5"
  let ?s6 = "?s4\<lparr>rx_vrx := ?v6, rx_retunes := []\<rparr>" and ?im = "snd (target L demo_vrx ?f)"
  have span: "within_span demo_vrx ?f" by (simp add: demo_vrx_span)
  have t: "target L (set_rotation r ?v4) ?f = target L demo_vrx ?f" for r by (rule target_fixed) simp
  have "rx_step L (rx_initial demo_vrx) ?s0" using rx_chunk [of "rx_initial demo_vrx" ?iq 3 L] by (simp add: rx_initial_def)
  moreover have "rx_step L ?s0 ?s1" using rx_read_re [of ?s0 ?iq 3 L] by (simp add: rx_initial_def demo_vrx_def mk_nco_def)
  moreover have "rx_step L ?s1 ?s2" using rx_request [of L ?s1 ?f] by (simp add: rx_initial_def)
  moreover have "rx_step L ?s2 ?s3" using rx_accept [of ?s2 "[]" ?f "[]" L] span by (simp add: rx_initial_def assertWithinSpan_Inr)
  moreover have "rx_step L ?s3 ?s4" using rx_centre [of ?s3 "[]" ?f "[]" L] by (simp add: rx_initial_def)
  moreover have "rx_step L ?s4 ?s5" using rx_re [of ?s4 "[]" ?f "[]" L] by simp
  moreover have "rx_step L ?s5 ?s6" using rx_im [of ?s5 "[]" ?f "[]" L] by simp
  moreover have "rx_step L ?s6 (?s6\<lparr>rx_stream := StreamMix ?iq 3 (Fin 1) ?im\<rparr>)"
    using rx_read_im [of ?s6 ?iq 3 "Fin 1" L] by (simp add: t)
  ultimately have run: "(rx_step L)\<^sup>*\<^sup>* (rx_initial demo_vrx) (?s6\<lparr>rx_stream := StreamMix ?iq 3 (Fin 1) ?im\<rparr>)"
    by (meson converse_rtranclp_into_rtranclp rtranclp.rtrancl_refl)
  let ?s7 = "?s6\<lparr>rx_stream := StreamMix ?iq 3 (Fin 1) ?im\<rparr>" and ?w = "set_rotation (Fin 1, ?im) ?v6"
  have "vrx_inv ?w" using vrx_inv_centre [OF demo_vrx_inv span] by simp
  from processWidebandChunk_total [OF this, of ?iq 3 L] obtain bs v' where
    p: "processWidebandChunk L ?w ?iq 3 = Some ([(RtlTcpBroadcast, bs)], v')"
    by (auto simp: demo_vrx_def split: if_splits)
  have "rx_step L ?s7 (?s7\<lparr>rx_vrx := set_rotation (rotation (vr_nco ?v6)) v', rx_stream := StreamIdle,
      rx_log := [(3, (Fin 1, ?im), [(RtlTcpBroadcast, bs)])]\<rparr>)"
    using rx_mix [of ?s7 ?iq 3 "Fin 1" ?im L "[(RtlTcpBroadcast, bs)]" v'] p by (simp add: rx_initial_def)
  with run have "(rx_step L)\<^sup>*\<^sup>* (rx_initial demo_vrx) (?s7\<lparr>rx_vrx := set_rotation (rotation (vr_nco ?v6)) v',
      rx_stream := StreamIdle, rx_log := [(3, (Fin 1, ?im), [(RtlTcpBroadcast, bs)])]\<rparr>)" by (rule rtranclp.rtrancl_into_rtrancl)
  then show ?thesis by (intro exI conjI, assumption) (simp_all add: rx_initial_def)
qed

theorem receiver_interleaved_safe_witness:
  "\<exists>(s :: rx_state) bs. rx_log s = [(3, (Fin 1, snd (target demo_libm demo_vrx (Fin 98))), [(RtlTcpBroadcast, bs)])] \<and>
     length bs = 2 \<and> vrx_inv (rx_vrx s)"
proof -
  obtain s bs where r: "(rx_step demo_libm)\<^sup>*\<^sup>* (rx_initial demo_vrx) s"
    and l: "rx_log s = [(3, (Fin 1, snd (target demo_libm demo_vrx (Fin 98))), [(RtlTcpBroadcast, bs)])]"
    using demo_chunk_run [of demo_libm] by blast
  from receiver_interleaved_safe [OF r demo_vrx_inv] l have "length bs = 2" "vrx_inv (rx_vrx s)"
    by (auto split: if_splits)
  with l show ?thesis by blast
qed

theorem retunes_serialise_witness:
  "\<exists>s. (rx_step demo_libm)\<^sup>*\<^sup>* (rx_initial demo_vrx) s \<and> vr_centerFrequencyHz (rx_vrx s) = Fin 98"
proof -
  obtain s where r: "(rx_step demo_libm)\<^sup>*\<^sup>* (rx_initial demo_vrx) s" and a: "rx_accepted s = [Fin 98]"
    "\<not> rx_overlapped s" "rx_retunes s = []" using demo_chunk_run [of demo_libm] by blast
  from retunes_serialise [OF r demo_vrx_inv a(2)] a have
    "vr_centerFrequencyHz (rx_vrx s) = vr_centerFrequencyHz (try_retune (retune demo_libm) demo_vrx (Fin 98))" by simp
  also have "\<dots> = Fin 98" by (simp add: vt.try_retune_centre demo_vrx_span)
  finally show ?thesis using r by blast
qed

end
