(* ===== verification/StreamFrames.thy ===== *)
theory StreamFrames
  imports Prelude
begin

text \<open>
  The receive loops of the server and of the WebSocket client have one shape: bytes from
  \<open>recv\<close> are appended to a buffer, an inner loop takes complete frames off its front and handles
  them, and an incomplete frame stays for the next \<open>recv\<close>. This theory states that shape once:
  what a parser must promise (the locale \<open>framing\<close>, and \<open>codec\<close> when there is an encoder), and what
  follows for every such loop, that the way TCP cuts the stream into chunks does not matter.
\<close>

section \<open>Parsers and loops\<close>

text \<open>
  A parser looks at the front of the buffer: it needs more bytes, has found a frame of a given size
  on the wire, or has found something that ends the connection. A handler returns the new state and
  possibly a reason to stop.
\<close>

datatype ('f, 'e) parsed = NeedMore | Frame 'f nat | Abort 'e

function drain ::
  "(bytes \<Rightarrow> ('f, 'e) parsed) \<Rightarrow> ('s \<Rightarrow> 'f \<Rightarrow> 's \<times> 'e option) \<Rightarrow> 's \<Rightarrow> bytes \<Rightarrow> 's \<times> bytes \<times> 'e option" where
  "drain next_frame h s buf =
     (case next_frame buf of
        NeedMore \<Rightarrow> (s, buf, None)
      | Abort e \<Rightarrow> (s, buf, Some e)
      | Frame f n \<Rightarrow>
          if n = 0 \<or> length buf < n then (s, buf, None)
          else (case h s f of
                  (s', Some e) \<Rightarrow> (s', drop n buf, Some e)
                | (s', None) \<Rightarrow> drain next_frame h s' (drop n buf)))"
  by pat_completeness auto
termination
  by (relation "measure (\<lambda>(_, _, _, buf). length buf)") auto

declare drain.simps [simp del]

text \<open>One \<open>recv\<close>: nothing happens any more once the loop has ended.\<close>

fun feed ::
  "(bytes \<Rightarrow> ('f, 'e) parsed) \<Rightarrow> ('s \<Rightarrow> 'f \<Rightarrow> 's \<times> 'e option) \<Rightarrow>
   's \<times> bytes \<times> 'e option \<Rightarrow> bytes \<Rightarrow> 's \<times> bytes \<times> 'e option" where
  "feed next_frame h (s, buf, Some e) c = (s, buf, Some e)"
| "feed next_frame h (s, buf, None) c = drain next_frame h s (buf @ c)"

text \<open>The frames themselves, without any buffer.\<close>

fun run_frames :: "('s \<Rightarrow> 'f \<Rightarrow> 's \<times> 'e option) \<Rightarrow> 's \<Rightarrow> 'f list \<Rightarrow> 's \<times> 'e option" where
  "run_frames h s [] = (s, None)"
| "run_frames h s (f # fs) =
     (case h s f of (s', Some e) \<Rightarrow> (s', Some e) | (s', None) \<Rightarrow> run_frames h s' fs)"

text \<open>What an observer sees of a loop: the state, the verdict, and the buffer while it runs.\<close>

definition view :: "'s \<times> bytes \<times> 'e option \<Rightarrow> 's \<times> bytes option \<times> 'e option" where
  "view r = (case r of (s, buf, v) \<Rightarrow> (s, if v = None then Some buf else None, v))"

lemma view_simps [simp]:
  "view (s, buf, None) = (s, Some buf, None)"
  "view (s, buf, Some e) = (s, None, Some e)"
  by (simp_all add: view_def)

lemma view_eq_None: "view r = (s, Some b, None) \<longleftrightarrow> r = (s, b, None)"
  by (cases r) (auto simp: view_def)

lemma view_feed:
  assumes "view r1 = view r2"
  shows "view (feed nf h r1 c) = view (feed nf h r2 c)"
proof -
  obtain s1 b1 v1 s2 b2 v2 where "r1 = (s1, b1, v1)" "r2 = (s2, b2, v2)"
    by (cases r1; cases r2) auto
  with assms show ?thesis by (cases v1; cases v2) auto
qed

lemma foldl_feed_stopped [simp]: "foldl (feed nf h) (s, buf, Some e) cs = (s, buf, Some e)"
  by (induction cs) simp_all

lemma run_frames_append: "run_frames h s (fs @ gs) =
    (case run_frames h s fs of (s', Some e) \<Rightarrow> (s', Some e) | (s', None) \<Rightarrow> run_frames h s' gs)"
  by (induction fs arbitrary: s) (auto split: prod.splits option.splits)

lemma run_frames_total: "(\<And>s f. snd (h s f) = None) \<Longrightarrow>
    run_frames h s fs = (foldl (\<lambda>s f. fst (h s f)) s fs, None)"
proof (induction fs arbitrary: s)
  case (Cons f fs)
  show ?case using Cons.IH [OF Cons.prems, of "fst (h s f)"] Cons.prems [of s f]
    by (cases "h s f") auto
qed simp

lemma run_frames_inv:
  assumes "\<And>s f. P s \<Longrightarrow> P (fst (h s f))" and "P s"
  shows "P (fst (run_frames h s fs))"
  using assms(2)
proof (induction fs arbitrary: s)
  case (Cons f fs)
  then show ?case using assms(1) [of s f] by (auto split: prod.splits option.splits)
qed simp

section \<open>Contract of a parser\<close>

locale framing =
  fixes next_frame :: "bytes \<Rightarrow> ('f, 'e) parsed"
  assumes empty_more: "next_frame [] = NeedMore"
    and frame_bound: "next_frame b = Frame f n \<Longrightarrow> 0 < n \<and> n \<le> length b"
    and frame_stable: "next_frame b = Frame f n \<Longrightarrow> next_frame (b @ ext) = Frame f n"
    and abort_stable: "next_frame b = Abort e \<Longrightarrow> next_frame (b @ ext) = Abort e"
begin

lemma drain_NeedMore: "next_frame buf = NeedMore \<Longrightarrow> drain next_frame h s buf = (s, buf, None)"
  by (simp add: drain.simps)

lemma drain_Abort: "next_frame buf = Abort e \<Longrightarrow> drain next_frame h s buf = (s, buf, Some e)"
  by (simp add: drain.simps)

lemma drain_Frame:
  assumes "next_frame buf = Frame f n"
  shows "drain next_frame h s buf =
    (case h s f of (s', Some e) \<Rightarrow> (s', drop n buf, Some e)
     | (s', None) \<Rightarrow> drain next_frame h s' (drop n buf))"
  using frame_bound [OF assms] assms by (subst drain.simps) (auto split: prod.splits option.splits)

text \<open>The loop leaves a buffer that holds no complete frame, a suffix of what it started from.\<close>

lemma drain_leftover:
  "drain next_frame h s buf = (s', rest, None) \<Longrightarrow>
   next_frame rest = NeedMore \<and> (\<exists>k. rest = drop k buf)"
proof (induction "length buf" arbitrary: s buf rule: less_induct)
  case less
  show ?case
  proof (cases "next_frame buf")
    case NeedMore
    then show ?thesis using less.prems by (auto simp: drain_NeedMore intro: exI [of _ 0])
  next
    case (Frame f n)
    note b = frame_bound [OF Frame]
    from less.prems obtain s1 where
      r: "drain next_frame h s1 (drop n buf) = (s', rest, None)"
      unfolding drain_Frame [OF Frame] by (auto split: prod.splits option.splits)
    have "length (drop n buf) < length buf" using b by auto
    from less.hyps [OF this r] show ?thesis by auto
  next
    case (Abort e)
    then show ?thesis using less.prems by (simp add: drain_Abort)
  qed
qed

text \<open>Handling a buffer and then more bytes is handling all of them at once.\<close>

lemma drain_append:
  "view (feed next_frame h (drain next_frame h s buf) ext) = view (drain next_frame h s (buf @ ext))"
proof (induction "length buf" arbitrary: s buf rule: less_induct)
  case less
  show ?case
  proof (cases "next_frame buf")
    case NeedMore
    then show ?thesis by (simp add: drain_NeedMore)
  next
    case (Abort e)
    then show ?thesis using abort_stable [OF Abort] by (simp add: drain_Abort)
  next
    case (Frame f n)
    note b = frame_bound [OF Frame] and st = frame_stable [OF Frame, of ext]
    have "length (drop n buf) < length buf" using b by auto
    note IH = less.hyps [OF this]
    show ?thesis
      unfolding drain_Frame [OF Frame] drain_Frame [OF st]
      using b IH by (auto split: prod.splits option.splits)
  qed
qed

lemma drain_chunks:
  "view (foldl (feed next_frame h) (drain next_frame h s buf) cs) =
   view (drain next_frame h s (buf @ concat cs))"
proof (induction cs rule: rev_induct)
  case (snoc c cs)
  have "view (feed next_frame h (foldl (feed next_frame h) (drain next_frame h s buf) cs) c) =
      view (feed next_frame h (drain next_frame h s (buf @ concat cs)) c)"
    by (rule view_feed) (rule snoc.IH)
  also have "\<dots> = view (drain next_frame h s (buf @ concat (cs @ [c])))"
    by (simp add: drain_append)
  finally show ?case by simp
qed simp

text \<open>The way the stream is cut into chunks does not matter.\<close>

lemma chunk_independence:
  "view (foldl (feed next_frame h) (s, [], None) cs) = view (drain next_frame h s (concat cs))"
  using drain_chunks [of h s "[]" cs] by (simp add: drain_NeedMore empty_more)

lemma leftover_incomplete:
  assumes "foldl (feed next_frame h) (s, [], None) cs = (s', rest, None)"
  shows "next_frame rest = NeedMore"
proof -
  have "view (drain next_frame h s (concat cs)) = (s', Some rest, None)"
    using chunk_independence [of h s cs] assms by simp
  then have "drain next_frame h s (concat cs) = (s', rest, None)" by (simp add: view_eq_None)
  from drain_leftover [OF this] show ?thesis by simp
qed

end

section \<open>Contract of an encoder\<close>

text \<open>
  With an encoder whose frames the parser finds again, the loop handles exactly the frames that
  were sent, in order, however they arrive; an incomplete frame at the end stays in the buffer.
\<close>

locale codec = framing next_frame for next_frame :: "bytes \<Rightarrow> ('f, 'e) parsed" +
  fixes enc :: "'f \<Rightarrow> bytes" and valid :: "'f \<Rightarrow> bool"
  assumes enc_parsed: "valid f \<Longrightarrow> next_frame (enc f) = Frame f (length (enc f))"
begin

lemma drain_encoded:
  assumes "\<forall>f \<in> set fs. valid f" and "next_frame rest = NeedMore"
  shows "view (drain next_frame h s (concat (map enc fs) @ rest)) =
    (case run_frames h s fs of (s', v) \<Rightarrow> (s', if v = None then Some rest else None, v))"
  using assms(1)
proof (induction fs arbitrary: s)
  case Nil
  then show ?case using assms(2) by (simp add: drain_NeedMore)
next
  case (Cons f fs)
  have "next_frame (enc f @ concat (map enc fs) @ rest) = Frame f (length (enc f))"
    using Cons.prems by (intro frame_stable enc_parsed) simp
  from drain_Frame [OF this, of h s] Cons show ?case
    by (cases "h s f") (auto split: option.splits)
qed

lemma chunked_run:
  assumes "concat cs = concat (map enc fs) @ rest"
    and "\<forall>f \<in> set fs. valid f" and "next_frame rest = NeedMore"
  shows "view (foldl (feed next_frame h) (s, [], None) cs) =
    (case run_frames h s fs of (s', v) \<Rightarrow> (s', if v = None then Some rest else None, v))"
  unfolding chunk_independence assms(1) by (rule drain_encoded [OF assms(2,3)])

end

end
