(* ===== verification/ClientRegistry.thy ===== *)
theory ClientRegistry
  imports Prelude
begin

text \<open>
  Both servers keep a registry of their connected clients, guarded by \<open>clientsMutex_\<close>: the accept
  thread adds a descriptor, the read thread of a client removes it, the streaming thread walks over
  it. \<open>RtlTcpServer\<close> uses a vector of descriptors, \<open>SpyServerServer\<close> an ordered map from descriptors
  to client states. The locale \<open>registry\<close> is the contract both satisfy; what the servers need of a
  registry is proved from it once.
\<close>

section \<open>Histories of connections\<close>

datatype conn_event = Connect int | Disconnect int

text \<open>The clients connected after a history, and histories in which descriptors are not reused while open.\<close>

fun connected_fds :: "conn_event list \<Rightarrow> int set" where
  "connected_fds [] = {}"
| "connected_fds (Connect fd # es) = insert fd (connected_fds es)"
| "connected_fds (Disconnect fd # es) = connected_fds es - {fd}"

text \<open>Histories are listed latest event first.\<close>

fun fresh_history :: "conn_event list \<Rightarrow> bool" where
  "fresh_history [] = True"
| "fresh_history (Connect fd # es) \<longleftrightarrow> fd \<notin> connected_fds es \<and> fresh_history es"
| "fresh_history (Disconnect fd # es) \<longleftrightarrow> fresh_history es"

fun replay :: "'r \<Rightarrow> (int \<Rightarrow> 'r \<Rightarrow> 'r) \<Rightarrow> (int \<Rightarrow> 'r \<Rightarrow> 'r) \<Rightarrow> conn_event list \<Rightarrow> 'r" where
  "replay empty_reg add_op del_op [] = empty_reg"
| "replay empty_reg add_op del_op (Connect fd # es) = add_op fd (replay empty_reg add_op del_op es)"
| "replay empty_reg add_op del_op (Disconnect fd # es) = del_op fd (replay empty_reg add_op del_op es)"

section \<open>The contract\<close>

locale registry =
  fixes empty_reg :: 'r
    and add_op :: "int \<Rightarrow> 'r \<Rightarrow> 'r"
    and del_op :: "int \<Rightarrow> 'r \<Rightarrow> 'r"
    and members :: "'r \<Rightarrow> int list"
    and reg_inv :: "'r \<Rightarrow> bool"
  assumes empty_inv: "reg_inv empty_reg" and empty_members: "members empty_reg = []"
    and add_inv: "reg_inv r \<Longrightarrow> fd \<notin> set (members r) \<Longrightarrow> reg_inv (add_op fd r)"
    and add_members: "reg_inv r \<Longrightarrow> set (members (add_op fd r)) = insert fd (set (members r))"
    and del_inv: "reg_inv r \<Longrightarrow> reg_inv (del_op fd r)"
    and del_members: "reg_inv r \<Longrightarrow> set (members (del_op fd r)) = set (members r) - {fd}"
    and inv_distinct: "reg_inv r \<Longrightarrow> distinct (members r)"
begin

lemma replay_ok: "fresh_history es \<Longrightarrow>
    reg_inv (replay empty_reg add_op del_op es) \<and>
    set (members (replay empty_reg add_op del_op es)) = connected_fds es"
  by (induction es rule: connected_fds.induct)
    (auto simp: empty_inv empty_members add_inv add_members del_inv del_members)

lemma distinct_count: "distinct xs \<Longrightarrow> count_list xs x = (if x \<in> set xs then 1 else 0)"
  by (induction xs) auto

text \<open>A walk over the registry visits every connected client exactly once, and nobody else.\<close>

lemma walk_once: "fresh_history es \<Longrightarrow>
    count_list (members (replay empty_reg add_op del_op es)) fd = (if fd \<in> connected_fds es then 1 else 0)"
  using replay_ok [of es] inv_distinct by (auto simp: count_list_0_iff distinct_count)

lemma removed_not_visited: "reg_inv r \<Longrightarrow> fd \<notin> set (members (del_op fd r))"
  by (simp add: del_members)

end

section \<open>Sending\<close>

text \<open>
  The result of one \<open>send\<close>: the number of bytes the kernel took, or -1 with \<open>EAGAIN\<close>/\<open>EWOULDBLOCK\<close> or
  with another error. \<open>taken\<close> is what reaches the peer.
\<close>

datatype send_result = Accepted nat | WouldBlock | SendError

fun taken :: "send_result \<Rightarrow> bytes \<Rightarrow> bytes" where
  "taken (Accepted k) data = take k data"
| "taken WouldBlock data = []"
| "taken SendError data = []"

text \<open>What the broadcast loops log.\<close>

datatype send_report = Silent | ShortWrite nat | WriteError

fun report_send :: "send_result \<Rightarrow> nat \<Rightarrow> send_report" where
  "report_send (Accepted k) len = (if k < len then ShortWrite k else Silent)"
| "report_send WouldBlock len = Silent"
| "report_send SendError len = WriteError"

lemma length_taken: "length (taken r data) \<le> length data"
  by (cases r) auto

lemma taken_prefix: "\<exists>rest. data = taken r data @ rest"
  by (cases r) (simp_all, metis append_take_drop_id)

text \<open>What one peer has received after a sequence of sends with the given results.\<close>

fun received :: "(send_result \<times> bytes) list \<Rightarrow> bytes" where
  "received [] = []"
| "received ((r, data) # bs) = taken r data @ received bs"

lemma received_append: "received (bs @ cs) = received bs @ received cs"
  by (induction bs rule: received.induct) simp_all

section \<open>Listening sockets\<close>

text \<open>
  \<open>start\<close> and \<open>stop\<close> of the two servers are the same code on the same three members. The results of the
  system calls are the fields of \<open>listen_os\<close>; the calls that release something are returned.
\<close>

record listener =
  listenFd :: int
  running :: bool
  acceptJoinable :: bool

definition new_listener :: listener where
  "new_listener = \<lparr>listenFd = -1, running = False, acceptJoinable = False\<rparr>"

record listen_os =
  os_socket :: int
  os_bind :: int
  os_listen :: int
  os_error :: string

datatype sock_op = Shutdown int | Close int | JoinThread

definition start_listener :: "listen_os \<Rightarrow> u16 \<Rightarrow> listener \<Rightarrow> exn option \<times> sock_op list \<times> listener" where
  "start_listener os portno l =
     (let l1 = l\<lparr>listenFd := os_socket os\<rparr> in
      if listenFd l1 < 0 then (Some (RuntimeError (''socket() failed: '' @ os_error os)), [], l1)
      else if os_bind os < 0 then
        (Some (RuntimeError (''bind() to port '' @ show_int (uint portno) @ '' failed: '' @ os_error os)),
         [Close (listenFd l1)], l1)
      else if os_listen os < 0 then
        (Some (RuntimeError (''listen() failed: '' @ os_error os)), [Close (listenFd l1)], l1)
      else (None, [], l1\<lparr>running := True, acceptJoinable := True\<rparr>))"

definition stop_listener :: "int list \<Rightarrow> listener \<Rightarrow> sock_op list \<times> listener" where
  "stop_listener client_fds l =
     (if \<not> running l then ([], l)
      else
        (let l1 = l\<lparr>running := False\<rparr>;
             (ops, l2) = (if 0 \<le> listenFd l1
                          then ([Shutdown (listenFd l1), Close (listenFd l1)], l1\<lparr>listenFd := -1\<rparr>)
                          else ([], l1));
             (ops2, l3) = (if acceptJoinable l2 then ([JoinThread], l2\<lparr>acceptJoinable := False\<rparr>)
                           else ([], l2))
         in (ops @ ops2 @ map Shutdown client_fds, l3)))"

text \<open>
  A server that fails to start has released its socket and throws the error of the call
  that failed, and its destructor (which calls \<open>stop\<close>) then does nothing; one that started closes its
  listening socket exactly once, joins the accept thread before it shuts the clients down, and only
  shuts their sockets down, since their own threads close them; stopping again does nothing.
\<close>

theorem listener_lifecycle:
  "case start_listener os portno new_listener of
     (Some e, ops, l) \<Rightarrow>
       (ops = (if 0 \<le> os_socket os then [Close (os_socket os)] else [])) \<and>
       (\<exists>msg. e = RuntimeError msg) \<and> stop_listener cs l = ([], l)
   | (None, ops, l) \<Rightarrow>
       ops = [] \<and> 0 \<le> os_socket os \<and> 0 \<le> os_bind os \<and> 0 \<le> os_listen os \<and>
       fst (stop_listener cs l) =
         [Shutdown (os_socket os), Close (os_socket os), JoinThread] @ map Shutdown cs \<and>
       snd (stop_listener cs l) = new_listener \<and>
       stop_listener cs' (snd (stop_listener cs l)) = ([], new_listener)"
  by (auto simp: start_listener_def stop_listener_def new_listener_def Let_def)

end
