(* ===== verification/ServerThreads.thy ===== *)
theory ServerThreads
  imports ClientRegistry
begin

text \<open>
  The life of a server's threads, common to \<open>src/rtltcp/server.cpp\<close> and \<open>src/spyserver/server.cpp\<close>: the accept
  thread that registers a client and starts its detached read thread, the read threads that take their
  client out of the registry and close it, and the thread in \<open>stop\<close>. \<open>lifecycle\<close> and \<open>life_step\<close> are the
  abstract specification; a server whose steps simulate it (the locale \<open>server_threads\<close>) has its invariant.
\<close>

section \<open>The abstract server\<close>

text \<open>
  Where the accept thread is: before the check of \<open>running_\<close>, in \<open>accept\<close>, or with a new descriptor that is
  not greeted (the greeting is rtl_tcp's), not registered, or registered without a read thread yet.
\<close>

datatype accept_pc = AtCheck | InAccept | Accepted_fd int | Greeted_fd int | Registered_fd int | AcceptDone

text \<open>
  Where \<open>stop\<close> is: it clears \<open>running_\<close>, closes the listening socket, joins the accept thread, takes a snapshot
  of the registry under the mutex, and shuts the clients of the snapshot down.
\<close>

datatype stop_pc = NotStopping | Unlistening | Joining | Snapshot | ShuttingDown "int list" | Stopped

text \<open>Whose step it is: a server's own threads, and the other endpoint of the same receiver, which retunes it.\<close>

datatype server_actor = AcceptThread | ReadThread int | StreamThread | StopThread | OtherEndpoint

text \<open>A read thread is listed with its descriptor and whether it has taken its client out of the registry.\<close>

record lifecycle =
  lc_running :: bool
  lc_accept :: accept_pc
  lc_stop :: stop_pc
  lc_shut :: "int list"
  lc_table :: "int set"
  lc_threads :: "(int \<times> bool) list"

definition life_initial :: lifecycle where
  "life_initial = \<lparr>lc_running = True, lc_accept = AtCheck, lc_stop = NotStopping, lc_shut = [],
     lc_table = {}, lc_threads = []\<rparr>"

fun accept_fds :: "accept_pc \<Rightarrow> int list" where
  "accept_fds (Accepted_fd fd) = [fd]"
| "accept_fds (Greeted_fd fd) = [fd]"
| "accept_fds (Registered_fd fd) = [fd]"
| "accept_fds _ = []"

fun registered_fds :: "accept_pc \<Rightarrow> int set" where
  "registered_fds (Registered_fd fd) = {fd}"
| "registered_fds _ = {}"

definition open_fds :: "lifecycle \<Rightarrow> int list" where
  "open_fds l = accept_fds (lc_accept l) @ map fst (lc_threads l)"

inductive life_step :: "lifecycle \<Rightarrow> lifecycle \<Rightarrow> bool" where
  life_idle: "life_step l l"
| life_check: "lc_accept l = AtCheck \<Longrightarrow>
     life_step l (l\<lparr>lc_accept := (if lc_running l then InAccept else AcceptDone)\<rparr>)"
| life_accept_fails: "lc_accept l = InAccept \<Longrightarrow> life_step l (l\<lparr>lc_accept := AtCheck\<rparr>)"
| life_accept: "lc_accept l = InAccept \<Longrightarrow> lc_stop l \<in> {NotStopping, Unlistening} \<Longrightarrow> fd \<notin> set (open_fds l) \<Longrightarrow>
     life_step l (l\<lparr>lc_accept := Accepted_fd fd\<rparr>)"
| life_greet: "lc_accept l = Accepted_fd fd \<Longrightarrow> life_step l (l\<lparr>lc_accept := Greeted_fd fd\<rparr>)"
| life_register: "lc_accept l \<in> {Accepted_fd fd, Greeted_fd fd} \<Longrightarrow>
     life_step l (l\<lparr>lc_accept := Registered_fd fd, lc_table := insert fd (lc_table l)\<rparr>)"
| life_spawn: "lc_accept l = Registered_fd fd \<Longrightarrow>
     life_step l (l\<lparr>lc_accept := AtCheck, lc_threads := (fd, False) # lc_threads l\<rparr>)"
| life_remove: "lc_threads l = us @ (fd, False) # ws \<Longrightarrow>
     life_step l (l\<lparr>lc_table := lc_table l - {fd}, lc_threads := us @ (fd, True) # ws\<rparr>)"
| life_close: "lc_threads l = us @ (fd, True) # ws \<Longrightarrow> life_step l (l\<lparr>lc_threads := us @ ws\<rparr>)"
| life_stop_begins: "lc_stop l = NotStopping \<Longrightarrow>
     life_step l (l\<lparr>lc_running := False, lc_stop := Unlistening\<rparr>)"
| life_unlistens: "lc_stop l = Unlistening \<Longrightarrow> life_step l (l\<lparr>lc_stop := Joining\<rparr>)"
| life_joined: "lc_stop l = Joining \<Longrightarrow> lc_accept l = AcceptDone \<Longrightarrow> life_step l (l\<lparr>lc_stop := Snapshot\<rparr>)"
| life_snapshot: "lc_stop l = Snapshot \<Longrightarrow> set fds = lc_table l \<Longrightarrow>
     life_step l (l\<lparr>lc_stop := ShuttingDown fds\<rparr>)"
| life_shutdown: "lc_stop l = ShuttingDown (fd # fds) \<Longrightarrow>
     life_step l (l\<lparr>lc_stop := ShuttingDown fds, lc_shut := fd # lc_shut l\<rparr>)"
| life_returns: "lc_stop l = ShuttingDown [] \<Longrightarrow> life_step l (l\<lparr>lc_stop := Stopped\<rparr>)"

section \<open>Its invariant\<close>

definition live_fds :: "(int \<times> bool) list \<Rightarrow> int set" where
  "live_fds ts = fst ` set (filter (\<lambda>t. \<not> snd t) ts)"

lemma live_fds_simps [simp]:
  "live_fds [] = {}" "live_fds (t # ts) = (if snd t then live_fds ts else insert (fst t) (live_fds ts))"
  "live_fds (ts @ us) = live_fds ts \<union> live_fds us"
  by (auto simp: live_fds_def)

lemma live_fds_threads: "fd \<in> live_fds ts \<Longrightarrow> fd \<in> fst ` set ts"
  by (auto simp: live_fds_def)

text \<open>\<open>stop\<close> has joined the accept thread.\<close>

definition joined :: "stop_pc \<Rightarrow> bool" where
  "joined p \<longleftrightarrow> p \<notin> {NotStopping, Unlistening, Joining}"

fun still_to_shut :: "stop_pc \<Rightarrow> int set option" where
  "still_to_shut (ShuttingDown fds) = Some (set fds)"
| "still_to_shut Stopped = Some {}"
| "still_to_shut _ = None"

definition life_inv :: "lifecycle \<Rightarrow> bool" where
  "life_inv l \<longleftrightarrow> distinct (open_fds l) \<and>
     lc_table l = registered_fds (lc_accept l) \<union> live_fds (lc_threads l) \<and>
     (joined (lc_stop l) \<longrightarrow> lc_accept l = AcceptDone) \<and>
     (\<forall>fds. still_to_shut (lc_stop l) = Some fds \<longrightarrow> lc_table l \<subseteq> set (lc_shut l) \<union> fds)"

lemma life_inv_initial: "life_inv life_initial"
  by (simp add: life_inv_def life_initial_def open_fds_def joined_def)

lemma registered_accept: "fd \<in> registered_fds p \<Longrightarrow> fd \<in> set (accept_fds p)"
  by (cases p) auto

lemma still_joined: "still_to_shut p = Some fds \<Longrightarrow> joined p"
  by (cases p) (auto simp: joined_def)

lemma life_inv_step: "life_step l l' \<Longrightarrow> life_inv l \<Longrightarrow> life_inv l'"
proof (induction rule: life_step.induct)
  case (life_register l fd)
  then have "\<not> joined (lc_stop l)" by (auto simp: life_inv_def)
  moreover have "still_to_shut (lc_stop l) \<noteq> Some fds" for fds using still_joined calculation by blast
  moreover have "fd \<notin> fst ` set (lc_threads l)" "distinct (map fst (lc_threads l))" "lc_table l = live_fds (lc_threads l)"
    using life_register by (cases "lc_accept l"; simp add: life_inv_def open_fds_def)+
  ultimately show ?case by (simp add: life_inv_def open_fds_def)
next
  case (life_remove l us fd ws)
  then show ?case unfolding life_inv_def open_fds_def by (auto dest: live_fds_threads registered_accept)
next
  case (life_close l us fd ws)
  then show ?case unfolding life_inv_def open_fds_def by (auto dest: live_fds_threads registered_accept)
qed (unfold life_inv_def open_fds_def joined_def, auto dest: live_fds_threads)

lemma life_table_owned: "life_inv l \<Longrightarrow> lc_table l \<subseteq> registered_fds (lc_accept l) \<union> fst ` set (lc_threads l)"
  by (auto simp: life_inv_def dest: live_fds_threads)

lemma life_table_open: "life_inv l \<Longrightarrow> lc_table l \<subseteq> set (open_fds l)"
  by (cases "lc_accept l") (auto simp: life_inv_def open_fds_def dest: live_fds_threads)

text \<open>Once the accept thread is joined, clients can only leave.\<close>

lemma life_table_shrinks: "life_step l l' \<Longrightarrow> life_inv l \<Longrightarrow> joined (lc_stop l) \<Longrightarrow>
    joined (lc_stop l') \<and> lc_table l' \<subseteq> lc_table l"
  by (induction rule: life_step.induct) (auto simp: life_inv_def joined_def)

section \<open>The contract of a server\<close>

locale server_threads =
  fixes step :: "'s \<Rightarrow> 's \<Rightarrow> bool" and init :: 's and life :: "'s \<Rightarrow> lifecycle"
  assumes init_life: "life init = life_initial"
    and simulates: "step s s' \<Longrightarrow> life_step (life s) (life s')"
begin

lemma reachable_inv: "step\<^sup>*\<^sup>* init s \<Longrightarrow> life_inv (life s)"
  by (induction rule: rtranclp_induct) (auto simp: init_life life_inv_initial intro: life_inv_step simulates)

lemma run_shrinks:
  assumes "step\<^sup>*\<^sup>* s s'" and "step\<^sup>*\<^sup>* init s" and "joined (lc_stop (life s))"
  shows "joined (lc_stop (life s')) \<and> lc_table (life s') \<subseteq> lc_table (life s)"
  using assms(1)
proof (induction rule: rtranclp_induct)
  case (step y z)
  have "life_inv (life y)" using assms(2) step(1) by (blast intro: reachable_inv rtranclp_trans)
  from life_table_shrinks [OF simulates [OF step(2)] this] step.IH show ?case by blast
qed (simp add: assms(3))

text \<open>When \<open>stop\<close> has returned, every client that is still connected has been shut down, for good.\<close>

lemma stopped_all_shut: "step\<^sup>*\<^sup>* init s \<Longrightarrow> lc_stop (life s) = Stopped \<Longrightarrow>
    lc_accept (life s) = AcceptDone \<and> lc_table (life s) \<subseteq> set (lc_shut (life s))"
  using reachable_inv [of s] by (auto simp: life_inv_def joined_def)

end

end
