(* ===== verification/RtlTcp.thy ===== *)
theory RtlTcp
  imports StreamFrames ClientRegistry VirtualReceiver
begin

text \<open>
  \<open>src/rtltcp/protocol.cpp\<close> and \<open>src/rtltcp/server.cpp\<close>: the endpoint that presents a virtual receiver
  as an rtl-sdr dongle. The 12-byte greeting, the 5-byte command parser, the receive loop of a client,
  the command handler and the broadcast of samples. The threads of the server are in \<open>RtlThreads\<close>.
\<close>

section \<open>Wire protocol\<close>

definition buildDongleInfoHeader :: bytes where
  "buildDongleInfoHeader =
     map (\<lambda>c. of_nat (of_char c)) ''RTL0'' @ [0, 0, 0, 6] @ [0, 0, 0, 0]"

definition COMMAND_LENGTH :: nat where "COMMAND_LENGTH = 5"

record parsed_command =
  pc_cmd :: u8
  pc_param :: u32

definition parseCommand :: "bytes \<Rightarrow> parsed_command option" where
  "parseCommand buf =
     (if length buf < COMMAND_LENGTH then None
      else Some \<lparr>pc_cmd = buf ! 0,
                 pc_param = push_bit 24 (ucast (buf ! 1)) OR push_bit 16 (ucast (buf ! 2)) OR
                            push_bit 8 (ucast (buf ! 3)) OR ucast (buf ! 4)\<rparr>)"

text \<open>The command ids the handler distinguishes.\<close>

definition SET_FREQUENCY :: u8 where "SET_FREQUENCY = 1"
definition SET_SAMPLE_RATE :: u8 where "SET_SAMPLE_RATE = 2"

definition SET_GAIN_MODE :: u8 where "SET_GAIN_MODE = 3"
definition SET_GAIN :: u8 where "SET_GAIN = 4"
definition SET_FREQUENCY_CORRECTION :: u8 where "SET_FREQUENCY_CORRECTION = 5"
definition SET_AGC_MODE :: u8 where "SET_AGC_MODE = 8"
definition SET_DIRECT_SAMPLING :: u8 where "SET_DIRECT_SAMPLING = 9"
definition SET_OFFSET_TUNING :: u8 where "SET_OFFSET_TUNING = 10"
definition SET_TUNER_GAIN_BY_INDEX :: u8 where "SET_TUNER_GAIN_BY_INDEX = 13"
definition SET_BIAS_TEE :: u8 where "SET_BIAS_TEE = 14"

definition accepted_and_ignored :: "u8 list" where
  "accepted_and_ignored = [SET_GAIN_MODE, SET_GAIN, SET_AGC_MODE, SET_FREQUENCY_CORRECTION, SET_TUNER_GAIN_BY_INDEX,
     SET_BIAS_TEE, SET_DIRECT_SAMPLING, SET_OFFSET_TUNING]"

text \<open>What a client sends for a command.\<close>

definition encode_command :: "parsed_command \<Rightarrow> bytes" where
  "encode_command c = pc_cmd c # be32 (pc_param c)"

lemma length_encode_command [simp]: "length (encode_command c) = 5"
  by (simp add: encode_command_def)

lemma parseCommand_Cons5 [frame_simps]:
  "parseCommand (a # b # c # d # e # rest) = Some \<lparr>pc_cmd = a, pc_param = of_be32 b c d e\<rparr>"
  by (simp add: parseCommand_def COMMAND_LENGTH_def of_be32_def)

lemma parseCommand_encode: "parseCommand (encode_command c @ rest) = Some c"
  by (simp add: encode_command_def be32_def frame_simps of_be32_inverse)

lemma parseCommand_None_iff: "parseCommand b = None \<longleftrightarrow> length b < 5"
  by (simp add: parseCommand_def COMMAND_LENGTH_def)

lemma parseCommand_append: "parseCommand b = Some c \<Longrightarrow> parseCommand (b @ ext) = Some c"
  by (auto simp: parseCommand_def COMMAND_LENGTH_def nth_append split: if_splits)

text \<open>
  Command parsing inverts the encoding for every command and parameter whatever follows in the
  buffer, and a buffer of fewer than five bytes is refused and no longer one is; the greeting is the
  magic, tuner type 6 and no gain steps, both big-endian, in 12 bytes.
\<close>

theorem rtl_wire_roundtrip:
  "parseCommand (encode_command c @ rest) = Some c \<and>
   (parseCommand b = None \<longleftrightarrow> length b < 5) \<and>
   buildDongleInfoHeader = [0x52, 0x54, 0x4C, 0x30] @ be32 6 @ be32 0 \<and>
   length buildDongleInfoHeader = 12"
proof -
  have h: "buildDongleInfoHeader = [0x52, 0x54, 0x4C, 0x30] @ be32 6 @ be32 0"
    by (simp add: buildDongleInfoHeader_def be32_def drop_bit_eq_div)
  have "length buildDongleInfoHeader = 12" unfolding h by simp
  with h show ?thesis by (simp add: parseCommand_encode parseCommand_None_iff)
qed

section \<open>Command handling\<close>

text \<open>What the handler logs: the outcome of a retune, a refused rate, an unknown command.\<close>

datatype rtl_report =
    Retuned u32
  | RetuneRejected fault
  | SampleRateIgnored u32
  | Unhandled u8 u32

definition handleCommand :: "libm \<Rightarrow> vrx \<Rightarrow> u8 \<Rightarrow> u32 \<Rightarrow> vrx \<times> rtl_report list" where
  "handleCommand L v cmd param =
     (if cmd = SET_FREQUENCY then
        (case retune L v (f64_of_int (uint param)) of
           Inr v' \<Rightarrow> (v', [Retuned param])
         | Inl e \<Rightarrow> (v, [RetuneRejected e]))
      else if cmd = SET_SAMPLE_RATE then
        (v, if feq (f64_of_int (uint param)) (getSampleRateHz v) then [] else [SampleRateIgnored param])
      else if cmd \<in> set accepted_and_ignored then (v, [])
      else (v, [Unhandled cmd param]))"

lemma handleCommand_try_retune:
  "fst (handleCommand L v cmd param) =
     (if cmd = SET_FREQUENCY then try_retune (retune L) v (f64_of_int (uint param)) else v)"
  by (auto simp: handleCommand_def try_retune_def split: sum.split)

text \<open>The state a read thread works on: the shared receiver and its log.\<close>

definition handle_frame ::
  "libm \<Rightarrow> vrx \<times> rtl_report list \<Rightarrow> parsed_command \<Rightarrow> (vrx \<times> rtl_report list) \<times> fault option" where
  "handle_frame L s c =
     (case handleCommand L (fst s) (pc_cmd c) (pc_param c) of (v', rs) \<Rightarrow> ((v', snd s @ rs), None))"

lemma handle_frame_simps [simp]:
  "snd (handle_frame L s c) = None"
  "fst (fst (handle_frame L s c)) = (if pc_cmd c = SET_FREQUENCY
     then try_retune (retune L) (fst s) (f64_of_int (uint (pc_param c))) else fst s)"
  using handleCommand_try_retune [of L "fst s" "pc_cmd c" "pc_param c"]
  by (auto simp: handle_frame_def split: prod.split)

section \<open>The receive loop\<close>

text \<open>
  The inner loop of \<open>clientReadLoop\<close>, with its \<open>offset\<close>: handles complete commands and erases them
  from the front of the buffer.
\<close>

function command_loop ::
  "libm \<Rightarrow> vrx \<times> rtl_report list \<Rightarrow> bytes \<Rightarrow> nat \<Rightarrow> (vrx \<times> rtl_report list) \<times> bytes" where
  "command_loop L s recvBuf offset =
     (if COMMAND_LENGTH \<le> length recvBuf - offset then
        (let s' = (case parseCommand (drop offset recvBuf) of
                     None \<Rightarrow> s
                   | Some parsed \<Rightarrow> fst (handle_frame L s parsed))
         in command_loop L s' recvBuf (offset + COMMAND_LENGTH))
      else (s, drop offset recvBuf))"
  by pat_completeness auto
termination
  by (relation "measure (\<lambda>(_, _, recvBuf, offset). length recvBuf - offset)") (auto simp: COMMAND_LENGTH_def)

declare command_loop.simps [simp del]

text \<open>One successful \<open>recv\<close> of the loop.\<close>

definition recv_chunk ::
  "libm \<Rightarrow> (vrx \<times> rtl_report list) \<times> bytes \<Rightarrow> bytes \<Rightarrow> (vrx \<times> rtl_report list) \<times> bytes" where
  "recv_chunk L t chunk = command_loop L (fst t) (snd t @ chunk) 0"

text \<open>The parser the loop embodies, and the contract it satisfies.\<close>

definition next_command :: "bytes \<Rightarrow> (parsed_command, fault) parsed" where
  "next_command b = (case parseCommand b of None \<Rightarrow> NeedMore | Some c \<Rightarrow> Frame c COMMAND_LENGTH)"

interpretation rtl: codec next_command encode_command "\<lambda>_. True"
proof unfold_locales
  show "next_command [] = NeedMore"
    by (simp add: next_command_def parseCommand_def COMMAND_LENGTH_def)
  fix b f n ext and e :: fault
  show "next_command b = Frame f n \<Longrightarrow> 0 < n \<and> n \<le> length b"
    by (auto simp: next_command_def parseCommand_def COMMAND_LENGTH_def split: if_splits)
  show "next_command b = Frame f n \<Longrightarrow> next_command (b @ ext) = Frame f n"
    by (auto simp: next_command_def parseCommand_append split: option.splits)
  show "next_command b = Abort e \<Longrightarrow> next_command (b @ ext) = Abort e"
    by (simp add: next_command_def split: option.splits)
  show "next_command (encode_command f) = Frame f (length (encode_command f))"
    using parseCommand_encode [of f "[]"] by (simp add: next_command_def COMMAND_LENGTH_def)
qed

lemma command_loop_drain:
  "drain next_command (handle_frame L) s (drop offset recvBuf) =
     (fst (command_loop L s recvBuf offset), snd (command_loop L s recvBuf offset), None)"
proof (induction L s recvBuf offset rule: command_loop.induct)
  case (1 L s recvBuf offset)
  show ?case
  proof (cases "COMMAND_LENGTH \<le> length recvBuf - offset")
    case True
    then obtain c where c: "parseCommand (drop offset recvBuf) = Some c"
      by (cases "parseCommand (drop offset recvBuf)") (auto simp: parseCommand_None_iff COMMAND_LENGTH_def)
    then have "next_command (drop offset recvBuf) = Frame c COMMAND_LENGTH"
      by (simp add: next_command_def)
    moreover have "handle_frame L s c = (fst (handle_frame L s c), None)" by (simp add: prod_eq_iff)
    ultimately have "drain next_command (handle_frame L) s (drop offset recvBuf) =
        drain next_command (handle_frame L) (fst (handle_frame L s c))
          (drop (offset + COMMAND_LENGTH) recvBuf)"
      by (subst rtl.drain_Frame) (auto simp: add.commute split: prod.splits option.splits)
    moreover have "command_loop L s recvBuf offset =
        command_loop L (fst (handle_frame L s c)) recvBuf (offset + COMMAND_LENGTH)"
      using True c by (simp add: command_loop.simps [of L s recvBuf offset])
    ultimately show ?thesis using 1 [OF True refl] c by simp
  next
    case False
    then have "next_command (drop offset recvBuf) = NeedMore"
      by (auto simp: next_command_def parseCommand_def)
    from rtl.drain_NeedMore [OF this] False show ?thesis
      by (subst (1 2) command_loop.simps) simp
  qed
qed

lemma recv_chunk_feed:
  "feed next_command (handle_frame L) (fst t, snd t, None) chunk =
     (fst (recv_chunk L t chunk), snd (recv_chunk L t chunk), None)"
  using command_loop_drain [of L "fst t" 0 "snd t @ chunk"] by (simp add: recv_chunk_def)

lemma recv_chunks_feed:
  "foldl (feed next_command (handle_frame L)) (fst t, snd t, None) cs =
     (fst (foldl (recv_chunk L) t cs), snd (foldl (recv_chunk L) t cs), None)"
proof (induction cs arbitrary: t)
  case (Cons c cs)
  then show ?case by (simp only: foldl_Cons recv_chunk_feed)
qed simp

text \<open>The commands handled in order, as a fold over the commands themselves.\<close>

lemma run_frames_rtl:
  "run_frames (handle_frame L) s cs = (foldl (\<lambda>s c. fst (handle_frame L s c)) s cs, None)"
  by (rule run_frames_total) simp

lemma retunes_of_commands:
  "fst (foldl (\<lambda>s c. fst (handle_frame L s c)) s cs) =
     foldl (try_retune (retune L)) (fst s)
       (map (\<lambda>c. f64_of_int (uint (pc_param c))) (filter (\<lambda>c. pc_cmd c = SET_FREQUENCY) cs))"
  by (induction cs arbitrary: s) simp_all

text \<open>
  Property C14: whatever way TCP cuts the stream of a client's commands into chunks, the read loop handles
  exactly the commands that were sent, in order, keeps the incomplete tail, and changes nothing of
  the receiver but its tuning, which ends at the last requested frequency inside the span.
\<close>

theorem rtl_commands_any_chunking:
  assumes "concat chunks = concat (map encode_command cmds) @ tail" and "length tail < 5"
  shows "\<exists>v' rs. foldl (recv_chunk L) ((v, []), []) chunks = ((v', rs), tail) \<and>
    (v', rs) = foldl (\<lambda>s c. fst (handle_frame L s c)) (v, []) cmds \<and>
    vrx_params v' = vrx_params v \<and>
    vr_centerFrequencyHz v' = last (vr_centerFrequencyHz v # filter (within_span v)
      [f64_of_int (uint (pc_param c)). c \<leftarrow> cmds, pc_cmd c = SET_FREQUENCY])"
proof -
  have fs: "[f64_of_int (uint (pc_param c)). c \<leftarrow> cmds, pc_cmd c = SET_FREQUENCY] =
    map (\<lambda>c. f64_of_int (uint (pc_param c))) (filter (\<lambda>c. pc_cmd c = SET_FREQUENCY) cmds)"
    by (induction cmds) auto
  have "next_command tail = NeedMore"
    using assms(2) by (simp add: next_command_def parseCommand_def COMMAND_LENGTH_def)
  from rtl.chunked_run [OF assms(1) _ this, of "handle_frame L" "(v, [])"]
  have "foldl (feed next_command (handle_frame L)) ((v, []), [], None) chunks =
      (foldl (\<lambda>s c. fst (handle_frame L s c)) (v, []) cmds, tail, None)"
    by (simp add: run_frames_rtl view_eq_None)
  then have r: "foldl (recv_chunk L) ((v, []), []) chunks =
      (foldl (\<lambda>s c. fst (handle_frame L s c)) (v, []) cmds, tail)"
    using recv_chunks_feed [of L "((v, []), [])" chunks] by (simp add: prod_eq_iff)
  show ?thesis
    using retunes_of_commands [of L "(v, [])" cmds] vt.requests_params vt.requests_centre
    unfolding r fs by (metis fst_conv surj_pair)
qed

theorem rtl_commands_any_chunking_witness:
  "vr_centerFrequencyHz (fst (fst (foldl (recv_chunk demo_libm) ((demo_vrx, []), [])
     [[1, 0, 0], [0], [103, 1, 0, 0, 7, 0, 1, 0], [0, 0, 98, 9]]))) = Fin 98"
proof -
  let ?cs = "[[1, 0, 0], [0], [103, 1, 0, 0, 7, 0, 1, 0], [0, 0, 98, 9 :: u8]]"
  let ?cmds = "[\<lparr>pc_cmd = 1, pc_param = 103\<rparr>, \<lparr>pc_cmd = 1, pc_param = 1792\<rparr>, \<lparr>pc_cmd = 1, pc_param = 98\<rparr>]"
  have e: "concat ?cs = concat (map encode_command ?cmds) @ [9]"
    by (simp add: encode_command_def be32_def drop_bit_eq_div)
  have f: "f64_of_int 103 = Fin 103" "f64_of_int 1792 = Fin 1792" "f64_of_int 98 = Fin 98"
    using f64_of_int_exact [of 103] f64_of_int_exact [of 1792] f64_of_int_exact [of 98] by simp_all
  have sel: "last (vr_centerFrequencyHz demo_vrx # filter (within_span demo_vrx)
      [f64_of_int (uint (pc_param c)). c \<leftarrow> ?cmds, pc_cmd c = SET_FREQUENCY]) = Fin 98"
    by (simp add: SET_FREQUENCY_def f demo_vrx_span)
  have "length [9 :: u8] < 5" by simp
  from rtl_commands_any_chunking [OF e this, of demo_libm demo_vrx, unfolded sel] obtain v' rs where
    "foldl (recv_chunk demo_libm) ((demo_vrx, []), []) ?cs = ((v', rs), [9])" "vr_centerFrequencyHz v' = Fin 98"
    by blast
  then show ?thesis by (simp only: fst_conv)
qed

section \<open>Broadcasting samples\<close>

text \<open>
  One call of \<open>broadcastIq\<close>: for every client, in order, the bytes its kernel buffer took and what
  is logged. \<open>res\<close> gives the result of the non-blocking \<open>send\<close> on each descriptor.
\<close>

definition broadcastIq :: "(int \<Rightarrow> send_result) \<Rightarrow> int list \<Rightarrow> bytes \<Rightarrow> (int \<times> bytes \<times> send_report) list" where
  "broadcastIq res clientFds data =
     map (\<lambda>fd. (fd, taken (res fd) data, report_send (res fd) (length data))) clientFds"

definition removeClient :: "int \<Rightarrow> int list \<Rightarrow> int list" where
  "removeClient fd clientFds = filter (\<lambda>x. x \<noteq> fd) clientFds"

definition push_back :: "int \<Rightarrow> int list \<Rightarrow> int list" where
  "push_back fd clientFds = clientFds @ [fd]"

interpretation rtl_clients: registry "[]" push_back removeClient "\<lambda>fds. fds" distinct
  by unfold_locales (auto simp: push_back_def removeClient_def)

text \<open>
  A broadcast writes to every connected client exactly once and to nobody else, whatever
  the history of connections, and each gets a prefix of the chunk, all of it unless that client's own
  kernel buffer refused some: one slow client takes nothing from another.
\<close>

theorem rtl_broadcast_once:
  assumes "fresh_history es" and "clientFds = replay [] push_back removeClient es"
  shows "count_list (map fst (broadcastIq res clientFds data)) fd = (if fd \<in> connected_fds es then 1 else 0) \<and>
    ((fd', got, rep) \<in> set (broadcastIq res clientFds data) \<longrightarrow>
       fd' \<in> connected_fds es \<and> (\<exists>rest. data = got @ rest) \<and>
       (res fd' = Accepted (length data) \<longrightarrow> got = data \<and> rep = Silent))"
proof -
  have m: "map fst (broadcastIq res clientFds data) = clientFds"
    by (simp add: broadcastIq_def comp_def)
  show ?thesis
    using rtl_clients.walk_once [OF assms(1), of fd] rtl_clients.replay_ok [OF assms(1)] taken_prefix
    unfolding m by (auto simp: broadcastIq_def assms(2))
qed

theorem rtl_broadcast_once_witness:
  "count_list (map fst (broadcastIq (\<lambda>_. WouldBlock)
     (replay [] push_back removeClient [Connect 7, Disconnect 7, Connect 5, Connect 7]) [1, 2])) 7 = 1"
  using rtl_broadcast_once [of "[Connect 7, Disconnect 7, Connect 5, Connect 7]" _ "\<lambda>_. WouldBlock" "[1, 2]" 7]
  by simp

text \<open>
  The byte stream of a client stays aligned on I/Q pairs over a sequence of broadcasts of
  whole pairs iff the number of writes the kernel cut at an odd byte is even: a client that falls behind
  without an odd cut loses samples but never has I and Q exchanged, and a single odd cut exchanges
  them from then on.
\<close>

theorem rtl_alignment:
  assumes "\<forall>(r, data) \<in> set bs. even (length data)"
  shows "(even (length (buildDongleInfoHeader @ received bs)) \<longleftrightarrow>
      even (length (filter (\<lambda>(r, data). odd (length (taken r data))) bs))) \<and>
    ((\<forall>(r, data) \<in> set bs. r = Accepted (length data) \<or> r = WouldBlock) \<longrightarrow>
      received bs = concat (map snd (filter (\<lambda>(r, data). r \<noteq> WouldBlock) bs)) \<and>
      even (length (received bs)))"
proof (intro conjI impI)
  have "even (length (received bs)) \<longleftrightarrow> even (length (filter (\<lambda>(r, data). odd (length (taken r data))) bs))"
    by (induction bs rule: received.induct) auto
  then show "even (length (buildDongleInfoHeader @ received bs)) \<longleftrightarrow>
      even (length (filter (\<lambda>(r, data). odd (length (taken r data))) bs))"
    by (simp add: buildDongleInfoHeader_def)
  assume "\<forall>(r, data) \<in> set bs. r = Accepted (length data) \<or> r = WouldBlock"
  with assms have "received bs = concat (map snd (filter (\<lambda>(r, data). r \<noteq> WouldBlock) bs)) \<and>
      even (length (received bs))"
    by (induction bs rule: received.induct) auto
  then show "received bs = concat (map snd (filter (\<lambda>(r, data). r \<noteq> WouldBlock) bs))"
    and "even (length (received bs))" by auto
qed

theorem rtl_alignment_witness:
  "odd (length (buildDongleInfoHeader @ received [(Accepted 3, [1, 2, 3, 4]), (Accepted 2, [5, 6])]))"
  using rtl_alignment [of "[(Accepted 3, [1, 2, 3, 4]), (Accepted 2, [5, 6])]"] by simp

section \<open>Starting\<close>

text \<open>
  \<open>start\<close> registers the broadcast on the receiver once the socket listens.
\<close>

definition rtl_start ::
  "listen_os \<Rightarrow> u16 \<Rightarrow> listener \<Rightarrow> vrx \<Rightarrow> exn option \<times> sock_op list \<times> listener \<times> vrx" where
  "rtl_start os portno l v =
     (case start_listener os portno l of
        (Some e, ops, l') \<Rightarrow> (Some e, ops, l', v)
      | (None, ops, l') \<Rightarrow> (None, ops, l', addIqCallback v RtlTcpBroadcast))"

end
