(* ===== verification/RtlThreads.thy ===== *)
theory RtlThreads
  imports RtlTcp ServerThreads
begin

text \<open>
  The threads of the rtl_tcp endpoint (\<open>src/rtltcp/server.cpp\<close>): the accept thread, one read thread per client,
  the streaming thread that broadcasts, and the thread that calls \<open>stop\<close>, interleaved in any order. No call
  made under \<open>clientsMutex_\<close> blocks, so every critical section is one step; a read thread handles one command
  per step. The server simulates the abstract server of \<open>ServerThreads\<close>.
\<close>

section \<open>Read threads\<close>

text \<open>
  Before \<open>recv\<close> with the kept bytes, in the command loop with the bytes from \<open>offset\<close> on, after the loop, and
  between \<open>removeClient\<close> and \<open>close\<close>.
\<close>

datatype rtl_pc = RtlRecv bytes | RtlCommands bytes | RtlLeaving | RtlRemoved

text \<open>The steps of the read thread of client \<open>fd\<close> on the receiver, \<open>clientFds_\<close> and its position.\<close>

inductive rtl_reader :: "libm \<Rightarrow> int \<Rightarrow> vrx \<times> int list \<times> rtl_pc \<Rightarrow> vrx \<times> int list \<times> rtl_pc \<Rightarrow> bool" for L fd where
  rtl_bytes: "chunk \<noteq> [] \<Longrightarrow> length chunk \<le> 4096 \<Longrightarrow>
     rtl_reader L fd (v, fds, RtlRecv b) (v, fds, RtlCommands (b @ chunk))"
| rtl_end: "rtl_reader L fd (v, fds, RtlRecv b) (v, fds, RtlLeaving)"
| rtl_command: "parseCommand b = Some c \<Longrightarrow>
     rtl_reader L fd (v, fds, RtlCommands b)
       (fst (handleCommand L v (pc_cmd c) (pc_param c)), fds, RtlCommands (drop COMMAND_LENGTH b))"
| rtl_more: "length b < COMMAND_LENGTH \<Longrightarrow> rtl_reader L fd (v, fds, RtlCommands b) (v, fds, RtlRecv b)"
| rtl_remove: "rtl_reader L fd (v, fds, RtlLeaving) (v, removeClient fd fds, RtlRemoved)"

text \<open>A read thread alone has the effect of the functional read loop.\<close>

lemma rtl_commands_run:
  "(rtl_reader L fd)\<^sup>*\<^sup>* (fst st, fds, RtlCommands (drop n b))
     (fst (fst (command_loop L st b n)), fds, RtlRecv (snd (command_loop L st b n)))"
proof (induction L st b n rule: command_loop.induct)
  case (1 L st b n)
  show ?case
  proof (cases "COMMAND_LENGTH \<le> length b - n")
    case True
    then obtain c where c: "parseCommand (drop n b) = Some c"
      by (cases "parseCommand (drop n b)") (auto simp: parseCommand_None_iff COMMAND_LENGTH_def)
    have "fst (fst (handle_frame L st c)) = fst (handleCommand L (fst st) (pc_cmd c) (pc_param c))"
      by (cases st) (simp add: handle_frame_def split: prod.split)
    then have "rtl_reader L fd (fst st, fds, RtlCommands (drop n b))
        (fst (fst (handle_frame L st c)), fds, RtlCommands (drop (n + COMMAND_LENGTH) b))"
      using rtl_command [OF c, of L fd "fst st" fds] by (simp add: add.commute)
    moreover have "command_loop L st b n = command_loop L (fst (handle_frame L st c)) b (n + COMMAND_LENGTH)"
      using True c by (simp add: command_loop.simps [of L st b n])
    ultimately show ?thesis using 1 [OF True refl] c by (simp add: converse_rtranclp_into_rtranclp)
  next
    case False
    then have "rtl_reader L fd (fst st, fds, RtlCommands (drop n b)) (fst st, fds, RtlRecv (drop n b))"
      by (intro rtl_more) simp
    then show ?thesis using False by (subst (1 2) command_loop.simps) auto
  qed
qed

lemma rtl_reader_run:
  assumes "recv_chunk L ((v, rep), b) chunk = ((v', rep'), b')" and "chunk \<noteq> []" and "length chunk \<le> 4096"
  shows "(rtl_reader L fd)\<^sup>*\<^sup>* (v, fds, RtlRecv b) (v', fds, RtlRecv b')"
proof -
  have "rtl_reader L fd (v, fds, RtlRecv b) (v, fds, RtlCommands (b @ chunk))" using assms(2,3) by (rule rtl_bytes)
  moreover have "(rtl_reader L fd)\<^sup>*\<^sup>* (v, fds, RtlCommands (b @ chunk)) (v', fds, RtlRecv b')"
    using rtl_commands_run [of L fd "(v, rep)" fds 0 "b @ chunk"] assms(1) by (simp add: recv_chunk_def)
  ultimately show ?thesis by (rule converse_rtranclp_into_rtranclp)
qed

section \<open>The server\<close>

text \<open>
  \<open>srv_wire\<close> is what the kernel took for each open connection, \<open>srv_sent\<close> the chunks that were broadcast.
\<close>

record rtl_state =
  srv_vrx :: vrx
  srv_running :: bool
  srv_accept :: accept_pc
  srv_stop :: stop_pc
  srv_shut :: "int list"
  clientFds :: "int list"
  srv_readers :: "(int \<times> rtl_pc) list"
  srv_wire :: "int \<Rightarrow> bytes"
  srv_sent :: "bytes list"

definition rtl_open_fds :: "rtl_state \<Rightarrow> int list" where
  "rtl_open_fds s = accept_fds (srv_accept s) @ map fst (srv_readers s)"

definition append_wire :: "(int \<times> bytes \<times> send_report) list \<Rightarrow> (int \<Rightarrow> bytes) \<Rightarrow> int \<Rightarrow> bytes" where
  "append_wire outs w fd = w fd @ concat [got. (fd', got, _) \<leftarrow> outs, fd' = fd]"

definition rtl_deliver :: "(int \<Rightarrow> send_result) \<Rightarrow> bytes \<Rightarrow> rtl_state \<Rightarrow> rtl_state" where
  "rtl_deliver res data s = s\<lparr>srv_wire := append_wire (broadcastIq res (clientFds s) data) (srv_wire s),
     srv_sent := srv_sent s @ [data]\<rparr>"

text \<open>
  \<open>accept\<close> returns a descriptor that is not open; \<open>rtl_other_retune\<close> is the SpyServer endpoint of the same
  receiver, whose clients retune it. The receiver hands over whole I/Q pairs.
\<close>

inductive rtl_step :: "libm \<Rightarrow> server_actor \<Rightarrow> rtl_state \<Rightarrow> rtl_state \<Rightarrow> bool" for L where
  rtl_check: "srv_accept s = AtCheck \<Longrightarrow>
     rtl_step L AcceptThread s (s\<lparr>srv_accept := (if srv_running s then InAccept else AcceptDone)\<rparr>)"
| rtl_accept_fails: "srv_accept s = InAccept \<Longrightarrow> rtl_step L AcceptThread s (s\<lparr>srv_accept := AtCheck\<rparr>)"
| rtl_accept: "srv_accept s = InAccept \<Longrightarrow> srv_stop s \<in> {NotStopping, Unlistening} \<Longrightarrow> fd \<notin> set (rtl_open_fds s) \<Longrightarrow>
     rtl_step L AcceptThread s (s\<lparr>srv_accept := Accepted_fd fd, srv_wire := (srv_wire s)(fd := [])\<rparr>)"
| rtl_greet: "srv_accept s = Accepted_fd fd \<Longrightarrow>
     rtl_step L AcceptThread s (s\<lparr>srv_accept := Greeted_fd fd,
       srv_wire := (srv_wire s)(fd := srv_wire s fd @ taken r buildDongleInfoHeader)\<rparr>)"
| rtl_register: "srv_accept s = Greeted_fd fd \<Longrightarrow>
     rtl_step L AcceptThread s (s\<lparr>srv_accept := Registered_fd fd, clientFds := push_back fd (clientFds s)\<rparr>)"
| rtl_spawn: "srv_accept s = Registered_fd fd \<Longrightarrow>
     rtl_step L AcceptThread s (s\<lparr>srv_accept := AtCheck, srv_readers := (fd, RtlRecv []) # srv_readers s\<rparr>)"
| rtl_reads: "srv_readers s = us @ (fd, pc) # ws \<Longrightarrow>
     rtl_reader L fd (srv_vrx s, clientFds s, pc) (v', fds', pc') \<Longrightarrow>
     rtl_step L (ReadThread fd) s (s\<lparr>srv_vrx := v', clientFds := fds', srv_readers := us @ (fd, pc') # ws\<rparr>)"
| rtl_close: "srv_readers s = us @ (fd, RtlRemoved) # ws \<Longrightarrow> rtl_step L (ReadThread fd) s (s\<lparr>srv_readers := us @ ws\<rparr>)"
| rtl_broadcast: "even (length data) \<Longrightarrow>
     rtl_step L StreamThread s (rtl_deliver res data s)"
| rtl_other_retune: "rtl_step L OtherEndpoint s (s\<lparr>srv_vrx := try_retune (retune L) (srv_vrx s) (f64_of_int (uint (f :: u32)))\<rparr>)"
| rtl_stop_begins: "srv_stop s = NotStopping \<Longrightarrow>
     rtl_step L StopThread s (s\<lparr>srv_running := False, srv_stop := Unlistening\<rparr>)"
| rtl_unlistens: "srv_stop s = Unlistening \<Longrightarrow> rtl_step L StopThread s (s\<lparr>srv_stop := Joining\<rparr>)"
| rtl_joined: "srv_stop s = Joining \<Longrightarrow> srv_accept s = AcceptDone \<Longrightarrow> rtl_step L StopThread s (s\<lparr>srv_stop := Snapshot\<rparr>)"
| rtl_snapshot: "srv_stop s = Snapshot \<Longrightarrow> rtl_step L StopThread s (s\<lparr>srv_stop := ShuttingDown (clientFds s)\<rparr>)"
| rtl_shutdown: "srv_stop s = ShuttingDown (fd # fds) \<Longrightarrow>
     rtl_step L StopThread s (s\<lparr>srv_stop := ShuttingDown fds, srv_shut := fd # srv_shut s\<rparr>)"
| rtl_returns: "srv_stop s = ShuttingDown [] \<Longrightarrow> rtl_step L StopThread s (s\<lparr>srv_stop := Stopped\<rparr>)"

inductive_cases rtl_stepE: "rtl_step L a s s'"

definition rtl_any_step :: "libm \<Rightarrow> rtl_state \<Rightarrow> rtl_state \<Rightarrow> bool" where
  "rtl_any_step L s s' \<longleftrightarrow> (\<exists>a. rtl_step L a s s')"

text \<open>A started server, before its first client.\<close>

definition rtl_initial :: "vrx \<Rightarrow> rtl_state" where
  "rtl_initial v = \<lparr>srv_vrx = v, srv_running = True, srv_accept = AtCheck, srv_stop = NotStopping, srv_shut = [],
     clientFds = [], srv_readers = [], srv_wire = (\<lambda>_. []), srv_sent = []\<rparr>"

definition rtl_reachable :: "libm \<Rightarrow> vrx \<Rightarrow> rtl_state \<Rightarrow> bool" where
  "rtl_reachable L v s \<longleftrightarrow> (rtl_any_step L)\<^sup>*\<^sup>* (rtl_initial v) s"

lemma rtl_reachable_start: "rtl_reachable L v (rtl_initial v)"
  by (simp add: rtl_reachable_def)

lemma rtl_reachable_step: "rtl_reachable L v s \<Longrightarrow> rtl_step L a s s' \<Longrightarrow> rtl_reachable L v s'"
  unfolding rtl_reachable_def rtl_any_step_def by (rule rtranclp.rtrancl_into_rtrancl) auto

section \<open>The server is an abstract server\<close>

definition rtl_life :: "rtl_state \<Rightarrow> lifecycle" where
  "rtl_life s = \<lparr>lc_running = srv_running s, lc_accept = srv_accept s, lc_stop = srv_stop s, lc_shut = srv_shut s,
     lc_table = set (clientFds s), lc_threads = map (\<lambda>(fd, pc). (fd, pc = RtlRemoved)) (srv_readers s)\<rparr>"

lemma rtl_life_simps [simp]:
  "lc_running (rtl_life s) = srv_running s" "lc_accept (rtl_life s) = srv_accept s" "lc_stop (rtl_life s) = srv_stop s"
  "lc_shut (rtl_life s) = srv_shut s" "lc_table (rtl_life s) = set (clientFds s)"
  "lc_threads (rtl_life s) = map (\<lambda>(fd, pc). (fd, pc = RtlRemoved)) (srv_readers s)"
  by (simp_all add: rtl_life_def)

lemma open_fds_rtl_life: "open_fds (rtl_life s) = rtl_open_fds s"
  by (simp add: open_fds_def rtl_open_fds_def comp_def split_def)

lemma rtl_reader_life:
  assumes "rtl_reader L fd (v, fds, pc) (v', fds', pc')"
  shows "pc \<noteq> RtlRemoved \<and> fds' = (if pc' = RtlRemoved then removeClient fd fds else fds)"
  using assms by (cases rule: rtl_reader.cases) simp_all

lemma rtl_simulates: "rtl_step L a s s' \<Longrightarrow> life_step (rtl_life s) (rtl_life s')"
proof (induction rule: rtl_step.induct)
  case (rtl_check s)
  then show ?case using life_check [of "rtl_life s"] by (simp add: rtl_life_def)
next
  case (rtl_accept_fails s)
  then show ?case using life_accept_fails [of "rtl_life s"] by (simp add: rtl_life_def)
next
  case (rtl_accept s fd)
  then show ?case using life_accept [of "rtl_life s" fd] by (simp add: rtl_life_def open_fds_rtl_life [symmetric])
next
  case (rtl_greet s fd r)
  then show ?case using life_greet [of "rtl_life s" fd] by (simp add: rtl_life_def)
next
  case (rtl_register s fd)
  then show ?case using life_register [of "rtl_life s" fd] by (simp add: rtl_life_def push_back_def)
next
  case (rtl_spawn s fd)
  then show ?case using life_spawn [of "rtl_life s" fd] by (simp add: rtl_life_def)
next
  case (rtl_reads s us fd pc ws v' fds' pc')
  note r = rtl_reader_life [OF rtl_reads(2)]
  show ?case
  proof (cases "pc' = RtlRemoved")
    case True
    then show ?thesis using rtl_reads(1) r
        life_remove [of "rtl_life s" "map (\<lambda>(fd, pc). (fd, pc = RtlRemoved)) us" fd
          "map (\<lambda>(fd, pc). (fd, pc = RtlRemoved)) ws"]
      by (simp add: rtl_life_def removeClient_def set_diff_eq)
  next
    case False
    then show ?thesis using rtl_reads(1) r life_idle [of "rtl_life s"] by (simp add: rtl_life_def)
  qed
next
  case (rtl_close s us fd ws)
  then show ?case using life_close [of "rtl_life s" "map (\<lambda>(fd, pc). (fd, pc = RtlRemoved)) us" fd
      "map (\<lambda>(fd, pc). (fd, pc = RtlRemoved)) ws"] by (simp add: rtl_life_def)
next
  case (rtl_broadcast data s res)
  then show ?case using life_idle [of "rtl_life s"] by (simp add: rtl_life_def rtl_deliver_def)
next
  case (rtl_other_retune s f)
  then show ?case using life_idle [of "rtl_life s"] by (simp add: rtl_life_def)
next
  case (rtl_stop_begins s)
  then show ?case using life_stop_begins [of "rtl_life s"] by (simp add: rtl_life_def)
next
  case (rtl_unlistens s)
  then show ?case using life_unlistens [of "rtl_life s"] by (simp add: rtl_life_def)
next
  case (rtl_joined s)
  then show ?case using life_joined [of "rtl_life s"] by (simp add: rtl_life_def)
next
  case (rtl_snapshot s)
  then have "lc_stop (rtl_life s) = Snapshot" "set (clientFds s) = lc_table (rtl_life s)" by simp_all
  from life_snapshot [OF this] show ?case by (simp add: rtl_life_def)
next
  case (rtl_shutdown s fd fds)
  then show ?case using life_shutdown [of "rtl_life s" fd fds] by (simp add: rtl_life_def)
next
  case (rtl_returns s)
  then show ?case using life_returns [of "rtl_life s"] by (simp add: rtl_life_def)
qed

interpretation rtl_srv: server_threads "rtl_any_step L" "rtl_initial v" rtl_life for L v
proof unfold_locales
  show "rtl_life (rtl_initial v) = life_initial" by (simp add: rtl_life_def rtl_initial_def life_initial_def)
qed (auto simp: rtl_any_step_def intro: rtl_simulates)

lemma rtl_open_distinct: "rtl_reachable L v s \<Longrightarrow> distinct (rtl_open_fds s) \<and> set (clientFds s) \<subseteq> set (rtl_open_fds s)"
  using rtl_srv.reachable_inv [of L v s] life_table_open [of "rtl_life s"]
  by (simp add: rtl_reachable_def open_fds_rtl_life) (simp add: life_inv_def open_fds_rtl_life)

section \<open>Invariant of the threads\<close>

fun rtl_pc_ok :: "rtl_pc \<Rightarrow> bool" where
  "rtl_pc_ok (RtlRecv b) \<longleftrightarrow> length b < 5"
| "rtl_pc_ok (RtlCommands b) \<longleftrightarrow> length b < 5 + 4096"
| "rtl_pc_ok _ \<longleftrightarrow> True"

definition rtl_inv :: "vrx \<Rightarrow> rtl_state \<Rightarrow> bool" where
  "rtl_inv v s \<longleftrightarrow> distinct (clientFds s) \<and> (\<forall>r \<in> set (srv_readers s). rtl_pc_ok (snd r)) \<and>
     vrx_params (srv_vrx s) = vrx_params v \<and> within_span v (vr_centerFrequencyHz (srv_vrx s))"

lemma retune_receiver:
  assumes "vrx_params w = vrx_params v" and "within_span v (vr_centerFrequencyHz w)"
  shows "vrx_params (try_retune (retune L) w f) = vrx_params v \<and>
    within_span v (vr_centerFrequencyHz (try_retune (retune L) w f))"
  using vt.try_retune_in_range [of L w f] assms vt.in_range_params [OF assms(1)]
  by (auto simp: vt.try_retune_centre)

lemma rtl_reader_keeps:
  assumes "rtl_reader L fd (w, fds, pc) (w', fds', pc')" and "rtl_pc_ok pc"
    and "vrx_params w = vrx_params v" and "within_span v (vr_centerFrequencyHz w)"
  shows "rtl_pc_ok pc' \<and> vrx_params w' = vrx_params v \<and> within_span v (vr_centerFrequencyHz w')"
  using assms(1)
proof (cases rule: rtl_reader.cases)
  case (rtl_command b c)
  then show ?thesis using assms(2-4) retune_receiver [OF assms(3,4), of L]
    by (auto simp: handleCommand_try_retune)
qed (use assms(2-4) in \<open>auto simp: COMMAND_LENGTH_def\<close>)

lemma rtl_inv_reachable:
  assumes "rtl_reachable L v s" and "within_span v (vr_centerFrequencyHz v)"
  shows "rtl_inv v s"
proof -
  have "(rtl_any_step L)\<^sup>*\<^sup>* (rtl_initial v) s" using assms(1) by (simp add: rtl_reachable_def)
  then show ?thesis
  proof (induction rule: rtranclp_induct)
    case base
    then show ?case using assms(2) by (simp add: rtl_inv_def rtl_initial_def)
  next
    case (step s s')
    have opened: "set (clientFds s) \<subseteq> set (rtl_open_fds s)" "distinct (rtl_open_fds s)"
      using rtl_open_distinct [of L v s] step(1) by (simp_all add: rtl_reachable_def)
    from rtl_srv.reachable_inv [OF step(1)]
    have reg: "set (clientFds s) = registered_fds (srv_accept s) \<union> live_fds (lc_threads (rtl_life s))"
      by (simp add: life_inv_def)
    from step(2) obtain a where "rtl_step L a s s'" by (auto simp: rtl_any_step_def)
    then show ?case
    proof (cases rule: rtl_step.cases)
      case (rtl_register fd)
      then have "fd \<notin> fst ` set (srv_readers s)" using opened(2) by (simp add: rtl_open_fds_def)
      moreover have "live_fds (lc_threads (rtl_life s)) \<subseteq> fst ` set (srv_readers s)"
        by (force dest: live_fds_threads)
      ultimately have "fd \<notin> set (clientFds s)" using reg rtl_register by auto
      with rtl_register step.IH show ?thesis by (simp add: rtl_inv_def push_back_def)
    next
      case (rtl_reads us fd pc ws v' fds' pc')
      with step.IH rtl_reader_life [OF rtl_reads(4)] rtl_reader_keeps [OF rtl_reads(4), of v]
      show ?thesis by (auto simp: rtl_inv_def removeClient_def)
    next
      case (rtl_other_retune f)
      with step.IH retune_receiver [of "srv_vrx s" v L] show ?thesis by (simp add: rtl_inv_def)
    qed (use step.IH in \<open>simp_all add: rtl_inv_def rtl_deliver_def\<close>)
  qed
qed

section \<open>What a connection carries\<close>

text \<open>The greeting, as far as it was taken, then what was taken of each of the chunks \<open>ds\<close>.\<close>

definition carries :: "bytes list \<Rightarrow> bytes \<Rightarrow> bool" where
  "carries ds w \<longleftrightarrow> (\<exists>r bs. map snd bs = ds \<and> w = taken r buildDongleInfoHeader @ received bs)"

lemma carries_greeting: "carries [] (taken r buildDongleInfoHeader)"
  unfolding carries_def by (intro exI [of _ r] exI [of _ "[]"]) simp

lemma carries_more: "carries ds w \<Longrightarrow> carries (ds @ [data]) (w @ taken r data)"
proof -
  assume "carries ds w"
  then obtain r' bs where "map snd bs = ds" "w = taken r' buildDongleInfoHeader @ received bs"
    unfolding carries_def by blast
  then show ?thesis
    unfolding carries_def by (intro exI [of _ r'] exI [of _ "bs @ [(r, data)]"]) (simp add: received_append)
qed

lemma append_wire_broadcast: "distinct fds \<Longrightarrow>
    append_wire (broadcastIq res fds data) w fd = w fd @ (if fd \<in> set fds then taken (res fd) data else [])"
  by (induction fds) (auto simp: append_wire_def broadcastIq_def)

text \<open>
  What the connection of \<open>fd\<close> carried: nothing before the greeting, the greeting alone before it is
  registered, then a contiguous run of the chunks, which reaches to the last one while it is registered.
\<close>

definition wire_of :: "rtl_state \<Rightarrow> int \<Rightarrow> bool" where
  "wire_of s fd \<longleftrightarrow>
     (if srv_accept s = Accepted_fd fd then srv_wire s fd = []
      else if srv_accept s = Greeted_fd fd then carries [] (srv_wire s fd)
      else \<exists>pre ds post. srv_sent s = pre @ ds @ post \<and> (fd \<in> set (clientFds s) \<longrightarrow> post = []) \<and>
        carries ds (srv_wire s fd))"

definition wire_ok :: "rtl_state \<Rightarrow> bool" where
  "wire_ok s \<longleftrightarrow> (\<forall>d \<in> set (srv_sent s). even (length d)) \<and> (\<forall>fd \<in> set (rtl_open_fds s). wire_of s fd)"

lemma wire_ofI:
  assumes "srv_accept s \<notin> {Accepted_fd fd, Greeted_fd fd}" and "srv_sent s = pre @ ds @ post"
    and "fd \<in> set (clientFds s) \<Longrightarrow> post = []" and "carries ds (srv_wire s fd)"
  shows "wire_of s fd"
  using assms unfolding wire_of_def by auto

lemma wire_of_same:
  assumes "wire_of s fd" and "srv_wire s' fd = srv_wire s fd" and "srv_sent s' = srv_sent s"
    and "set (clientFds s') \<subseteq> set (clientFds s)"
    and "\<not> (srv_accept s' = Accepted_fd fd \<or> srv_accept s' = Greeted_fd fd) \<or> srv_accept s' = srv_accept s"
    and "\<not> (srv_accept s = Accepted_fd fd \<or> srv_accept s = Greeted_fd fd) \<or> srv_accept s' = srv_accept s"
  shows "wire_of s' fd"
  using assms unfolding wire_of_def by (auto split: if_splits)

lemma wire_of_deliver:
  assumes "wire_of s fd" and "distinct (clientFds s)"
    and "srv_accept s \<in> {Accepted_fd fd, Greeted_fd fd} \<Longrightarrow> fd \<notin> set (clientFds s)"
  shows "wire_of (rtl_deliver res data s) fd"
proof -
  note w = append_wire_broadcast [OF assms(2), of res data "srv_wire s" fd]
  show ?thesis
  proof (cases "srv_accept s \<in> {Accepted_fd fd, Greeted_fd fd}")
    case True
    then show ?thesis using assms(1) assms(3) [OF True] by (auto simp: wire_of_def rtl_deliver_def w)
  next
    case False
    then obtain pre ds post where p: "srv_sent s = pre @ ds @ post" "fd \<in> set (clientFds s) \<longrightarrow> post = []"
      "carries ds (srv_wire s fd)" using assms(1) by (auto simp: wire_of_def)
    show ?thesis
    proof (cases "fd \<in> set (clientFds s)")
      case True
      with p carries_more [OF p(3), of data "res fd"] False show ?thesis
        by (intro wire_ofI [of _ fd pre "ds @ [data]" "[]"]) (simp_all add: rtl_deliver_def w)
    next
      case out: False
      with p False show ?thesis
        by (intro wire_ofI [of _ fd pre ds "post @ [data]"]) (simp_all add: rtl_deliver_def w)
    qed
  qed
qed

lemma wire_ok_step:
  assumes "rtl_step L a s s'" and "distinct (rtl_open_fds s)" and "distinct (clientFds s)"
    and "set (clientFds s) \<subseteq> registered_fds (srv_accept s) \<union> fst ` set (srv_readers s)" and "wire_ok s"
  shows "wire_ok s'"
proof -
  have o: "wire_of s fd" if "fd \<in> set (rtl_open_fds s)" for fd using assms(5) that by (simp add: wire_ok_def)
  show ?thesis using assms(1)
  proof (cases rule: rtl_step.cases)
    case (rtl_accept fd)
    have "wire_of s' g" if g: "g \<in> set (map fst (srv_readers s))" for g
    proof -
      have "g \<noteq> fd" "wire_of s g" using g rtl_accept(5) o [of g] unfolding rtl_open_fds_def set_append by blast+
      then show ?thesis by - (rule wire_of_same [of s g]; simp_all add: rtl_accept)
    qed
    moreover have "wire_of s' fd" by (simp add: wire_of_def rtl_accept)
    ultimately show ?thesis using rtl_accept assms(5) by (auto simp: wire_ok_def rtl_open_fds_def)
  next
    case (rtl_greet fd r)
    have "wire_of s' g" if g: "g \<in> set (map fst (srv_readers s))" for g
    proof -
      have "g \<noteq> fd" using g rtl_greet(3) assms(2) by (auto simp: rtl_open_fds_def)
      moreover have "wire_of s g" using g o [of g] unfolding rtl_open_fds_def set_append by blast
      ultimately show ?thesis by - (rule wire_of_same [of s g]; simp_all add: rtl_greet)
    qed
    moreover have "wire_of s' fd"
      using o [of fd] rtl_greet carries_greeting [of r] by (simp add: wire_of_def rtl_open_fds_def)
    ultimately show ?thesis using rtl_greet assms(5) by (auto simp: wire_ok_def rtl_open_fds_def)
  next
    case (rtl_register fd)
    have "wire_of s' g" if "g \<in> set (map fst (srv_readers s))" for g
    proof -
      have "g \<noteq> fd" using that assms(2) rtl_register(3) by (auto simp: rtl_open_fds_def)
      moreover have "wire_of s g" using that o [of g] unfolding rtl_open_fds_def set_append by blast
      ultimately show ?thesis by (simp add: wire_of_def push_back_def rtl_register)
    qed
    moreover have "wire_of s' fd"
      using o [of fd] rtl_register
      by (intro wire_ofI [of _ fd "srv_sent s" "[]" "[]"]) (simp_all add: wire_of_def rtl_open_fds_def)
    ultimately show ?thesis using rtl_register assms(5) by (auto simp: wire_ok_def rtl_open_fds_def)
  next
    case (rtl_broadcast data res)
    have "fd \<notin> set (clientFds s)" if "srv_accept s \<in> {Accepted_fd fd, Greeted_fd fd}" for fd
      using that assms(2,4) by (auto simp: rtl_open_fds_def)
    then have "wire_of s' fd" if "fd \<in> set (rtl_open_fds s)" for fd
      unfolding rtl_broadcast using o [OF that] assms(3) by (intro wire_of_deliver)
    then show ?thesis using rtl_broadcast assms(5) by (auto simp: wire_ok_def rtl_open_fds_def rtl_deliver_def)
  next
    case (rtl_reads us fd pc ws v' fds' pc')
    have "set fds' \<subseteq> set (clientFds s)" using rtl_reader_life [OF rtl_reads(4)] by (auto simp: removeClient_def)
    then have "wire_of s' g" if "g \<in> set (rtl_open_fds s)" for g
      using rtl_reads by - (rule wire_of_same [OF o [OF that]]; simp)
    then show ?thesis using rtl_reads assms(5) by (simp add: wire_ok_def rtl_open_fds_def)
  next
    case (rtl_spawn fd)
    then have "wire_of s' g" if "g \<in> set (rtl_open_fds s)" for g
      by - (rule wire_of_same [OF o [OF that]]; simp)
    then show ?thesis using rtl_spawn assms(5) by (simp add: wire_ok_def rtl_open_fds_def)
  next
    case (rtl_close us fd ws)
    then have "wire_of s' g" if "g \<in> set (rtl_open_fds s)" for g
      by - (rule wire_of_same [OF o [OF that]]; simp)
    then show ?thesis using rtl_close assms(5) by (auto simp: wire_ok_def rtl_open_fds_def)
  qed (use assms(5) in \<open>simp_all add: wire_ok_def rtl_open_fds_def wire_of_def\<close>)
qed

lemma wire_ok_reachable:
  assumes "rtl_reachable L v s" and "within_span v (vr_centerFrequencyHz v)"
  shows "wire_ok s"
proof -
  have "(rtl_any_step L)\<^sup>*\<^sup>* (rtl_initial v) s" using assms(1) by (simp add: rtl_reachable_def)
  then show ?thesis
  proof (induction rule: rtranclp_induct)
    case base
    then show ?case by (simp add: wire_ok_def rtl_initial_def rtl_open_fds_def)
  next
    case (step s s')
    then have r: "rtl_reachable L v s" by (simp add: rtl_reachable_def)
    from life_table_owned [OF rtl_srv.reachable_inv [OF step(1)]]
    have "set (clientFds s) \<subseteq> registered_fds (srv_accept s) \<union> fst ` set (srv_readers s)"
      by (simp add: image_image split_def)
    moreover obtain a where "rtl_step L a s s'" using step(2) by (auto simp: rtl_any_step_def)
    moreover have "distinct (clientFds s)" using rtl_inv_reachable [OF r assms(2)] by (simp add: rtl_inv_def)
    ultimately show ?case using wire_ok_step step.IH rtl_open_distinct [OF r] by blast
  qed
qed

lemma client_carries:
  assumes "rtl_reachable L v s" and "within_span v (vr_centerFrequencyHz v)" and "fd \<in> set (clientFds s)"
  shows "\<exists>r before bs. srv_sent s = before @ map snd bs \<and> srv_wire s fd = taken r buildDongleInfoHeader @ received bs"
proof -
  have l: "life_inv (rtl_life s)" using rtl_srv.reachable_inv assms(1) by (simp add: rtl_reachable_def)
  have o: "distinct (rtl_open_fds s)" "fd \<in> set (rtl_open_fds s)" using rtl_open_distinct [OF assms(1)] assms(3) by auto
  have "srv_accept s \<noteq> Accepted_fd fd \<and> srv_accept s \<noteq> Greeted_fd fd"
    using assms(3) subsetD [OF life_table_owned [OF l], of fd] o(1) by (force simp: rtl_open_fds_def)
  then have "\<exists>before ds. srv_sent s = before @ ds \<and> carries ds (srv_wire s fd)"
    using wire_ok_reachable [OF assms(1,2)] o(2) assms(3) by (fastforce simp: wire_ok_def wire_of_def)
  then show ?thesis unfolding carries_def by blast
qed

text \<open>
  Property C3: in every state the rtl_tcp server can reach, with its threads interleaved in any way, no
  descriptor is owned twice, every client the broadcast walks over is an open connection that was
  greeted before it was registered, no two clients share a descriptor, what a client's connection carried
  is the greeting followed by pieces of every chunk broadcast since some point, in order, no read thread waits for bytes with a complete command in its
  buffer, once \<open>stop\<close> has joined the accept thread clients only leave, when it has returned every client
  left has been shut down, and the clients together changed nothing of the receiver but its tuning,
  which is inside the captured span.
\<close>

theorem rtl_server_invariant:
  assumes "rtl_reachable L v s" and "within_span v (vr_centerFrequencyHz v)"
  shows "distinct (rtl_open_fds s) \<and> distinct (clientFds s) \<and> set (clientFds s) \<subseteq> set (rtl_open_fds s) \<and>
    (\<forall>d \<in> set (srv_sent s). even (length d)) \<and>
    (\<forall>fd \<in> set (clientFds s). \<exists>r before bs. srv_sent s = before @ map snd bs \<and>
       srv_wire s fd = taken r buildDongleInfoHeader @ received bs) \<and>
    (\<forall>(fd, pc) \<in> set (srv_readers s). \<forall>b. pc = RtlRecv b \<longrightarrow> length b < 5) \<and>
    (srv_stop s \<notin> {NotStopping, Unlistening, Joining} \<longrightarrow> srv_accept s = AcceptDone \<and>
       (\<forall>s'. (rtl_any_step L)\<^sup>*\<^sup>* s s' \<longrightarrow> set (clientFds s') \<subseteq> set (clientFds s))) \<and>
    (srv_stop s = Stopped \<longrightarrow> set (clientFds s) \<subseteq> set (srv_shut s)) \<and>
    vrx_params (srv_vrx s) = vrx_params v \<and> within_span v (vr_centerFrequencyHz (srv_vrx s))"
proof -
  have i: "rtl_inv v s" by (rule rtl_inv_reachable [OF assms])
  have l: "life_inv (rtl_life s)" using rtl_srv.reachable_inv assms(1) by (simp add: rtl_reachable_def)
  have o: "distinct (rtl_open_fds s)" "set (clientFds s) \<subseteq> set (rtl_open_fds s)"
    using rtl_open_distinct [OF assms(1)] by simp_all
  have "\<forall>fd \<in> set (clientFds s). \<exists>r before bs. srv_sent s = before @ map snd bs \<and>
       srv_wire s fd = taken r buildDongleInfoHeader @ received bs"
    using client_carries [OF assms] by blast
  moreover have "\<forall>d \<in> set (srv_sent s). even (length d)" using wire_ok_reachable [OF assms] by (simp add: wire_ok_def)
  moreover have "\<forall>(fd, pc) \<in> set (srv_readers s). \<forall>b. pc = RtlRecv b \<longrightarrow> length b < 5"
    using i by (fastforce simp: rtl_inv_def)
  moreover have "srv_stop s = Stopped \<longrightarrow> set (clientFds s) \<subseteq> set (srv_shut s)"
    using rtl_srv.stopped_all_shut [of L v s] assms(1) by (simp add: rtl_reachable_def)
  moreover have "srv_accept s = AcceptDone \<and> set (clientFds s') \<subseteq> set (clientFds s)"
    if j: "srv_stop s \<notin> {NotStopping, Unlistening, Joining}" and r: "(rtl_any_step L)\<^sup>*\<^sup>* s s'" for s'
  proof -
    from j have "joined (lc_stop (rtl_life s))" by (simp add: joined_def)
    moreover from this have "srv_accept s = AcceptDone" using l by (simp add: life_inv_def)
    ultimately show ?thesis using rtl_srv.run_shrinks [OF r, of v] assms(1) by (simp add: rtl_reachable_def)
  qed
  ultimately show ?thesis using i o unfolding rtl_inv_def by blast
qed

text \<open>A client that connected, was greeted and registered.\<close>

definition rtl_demo :: rtl_state where
  "rtl_demo = (rtl_initial demo_vrx)\<lparr>srv_accept := Registered_fd 7, clientFds := [7],
     srv_wire := (\<lambda>_. [])(7 := buildDongleInfoHeader)\<rparr>"

lemma rtl_demo_reachable: "rtl_reachable L demo_vrx rtl_demo"
proof -
  let ?s0 = "rtl_initial demo_vrx"
  let ?s1 = "?s0\<lparr>srv_accept := InAccept\<rparr>" and ?s2 = "?s0\<lparr>srv_accept := Accepted_fd 7\<rparr>"
  let ?s3 = "?s0\<lparr>srv_accept := Greeted_fd 7, srv_wire := (\<lambda>_. [])(7 := buildDongleInfoHeader)\<rparr>"
  have "rtl_step L AcceptThread ?s0 ?s1" using rtl_check [of ?s0 L] by (simp add: rtl_initial_def)
  moreover have "rtl_step L AcceptThread ?s1 ?s2" 
    using rtl_accept [of ?s1 7 L] by (simp add: rtl_initial_def rtl_open_fds_def fun_upd_idem)
  moreover have "rtl_step L AcceptThread ?s2 ?s3"
    using rtl_greet [of ?s2 7 L "Accepted 12"] by (simp add: rtl_initial_def buildDongleInfoHeader_def)
  moreover have "rtl_step L AcceptThread ?s3 rtl_demo"
    using rtl_register [of ?s3 7 L] by (simp add: rtl_initial_def push_back_def rtl_demo_def)
  ultimately show ?thesis using rtl_reachable_start rtl_reachable_step by metis
qed

theorem rtl_server_invariant_witness:
  "\<exists>s. rtl_reachable demo_libm demo_vrx s \<and> clientFds s = [7] \<and> distinct (rtl_open_fds s) \<and>
     within_span demo_vrx (vr_centerFrequencyHz (srv_vrx s))"
proof -
  have "within_span demo_vrx (vr_centerFrequencyHz demo_vrx)" by (simp add: demo_vrx_span)
  from rtl_server_invariant [OF rtl_demo_reachable [of demo_libm] this]
  have "distinct (rtl_open_fds rtl_demo)" "within_span demo_vrx (vr_centerFrequencyHz (srv_vrx rtl_demo))" by blast+
  moreover have "clientFds rtl_demo = [7]" by (simp add: rtl_demo_def)
  ultimately show ?thesis using rtl_demo_reachable [of demo_libm] by blast
qed

end
