(* ===== verification/SpyServer.thy ===== *)
theory SpyServer
  imports StreamFrames ClientRegistry VirtualReceiver
begin

text \<open>
  \<open>src/spyserver/protocol.hpp\<close> and \<open>src/spyserver/server.cpp\<close>: the SpyServer endpoint of a receiver.
  The packed wire structs, the critical sections that touch the client table, the command handlers
  built from them, the receive loop with its bound on the body size, and the broadcast of samples.
\<close>

section \<open>Wire structs\<close>

definition kProtocolVersion :: u32 where
  "kProtocolVersion = push_bit 24 2 OR push_bit 16 0 OR 1700"

definition kMaxCommandBodySize :: nat where "kMaxCommandBodySize = 256"

text \<open>Command types, stream types, message types and the settings the server distinguishes.\<close>

definition cmdHello :: u32 where "cmdHello = 0"
definition cmdSetSetting :: u32 where "cmdSetSetting = 2"
definition cmdPing :: u32 where "cmdPing = 3"

definition kStreamTypeStatus :: u32 where "kStreamTypeStatus = 0"
definition kStreamTypeIq :: u32 where "kStreamTypeIq = 1"

definition kMsgTypeDeviceInfo :: u32 where "kMsgTypeDeviceInfo = 0"
definition kMsgTypeClientSync :: u32 where "kMsgTypeClientSync = 1"
definition kMsgTypePong :: u32 where "kMsgTypePong = 2"
definition kMsgTypeUint8Iq :: u32 where "kMsgTypeUint8Iq = 100"

definition deviceRtlSdr :: u32 where "deviceRtlSdr = 3"
definition formatUint8 :: u32 where "formatUint8 = 1"

datatype setting_type =
    StreamingMode | StreamingEnabled | IqFormat | IqFrequency | IqDecimation
  | GainSetting        \<comment> \<open>\<open>Gain\<close>, \<open>IqDigitalGain\<close>\<close>
  | FftSetting         \<comment> \<open>\<open>FftFormat\<close> to \<open>FftDisplayPixels\<close>\<close>
  | UnknownSetting

definition setting_of :: "u32 \<Rightarrow> setting_type" where
  "setting_of n =
     (if n = 0 then StreamingMode
      else if n = 1 then StreamingEnabled
      else if n = 2 \<or> n = 103 then GainSetting
      else if n = 100 then IqFormat
      else if n = 101 then IqFrequency
      else if n = 102 then IqDecimation
      else if n \<in> {200, 201, 202, 203, 204, 205} then FftSetting
      else UnknownSetting)"

record message_header =
  protocolId :: u32
  messageType :: u32
  streamType :: u32
  mh_sequenceNumber :: u32
  mh_bodySize :: u32

record device_info =
  deviceType :: u32
  deviceSerial :: u32
  maximumSampleRate :: u32
  maximumBandwidth :: u32
  decimationStageCount :: u32
  gainStageCount :: u32
  maximumGainIndex :: u32
  minimumFrequency :: u32
  maximumFrequency :: u32
  di_resolution :: u32
  minimumIqDecimation :: u32
  forcedIqFormat :: u32

record client_sync =
  canControl :: u32
  cs_gain :: u32
  deviceCenterFrequency :: u32
  iqCenterFrequency :: u32
  fftCenterFrequency :: u32
  minimumIqCenterFrequency :: u32
  maximumIqCenterFrequency :: u32
  minimumFftCenterFrequency :: u32
  maximumFftCenterFrequency :: u32

text \<open>The \<open>memcpy\<close> of a packed struct into a buffer, and back.\<close>

definition enc_header :: "message_header \<Rightarrow> bytes" where
  "enc_header h = pack32 [protocolId h, messageType h, streamType h, mh_sequenceNumber h, mh_bodySize h]"

definition dec_header :: "bytes \<Rightarrow> message_header option" where
  "dec_header b = (case unpack32 5 b of
       Some [p, m, t, n, s] \<Rightarrow> Some \<lparr>protocolId = p, messageType = m, streamType = t,
                                     mh_sequenceNumber = n, mh_bodySize = s\<rparr>
     | _ \<Rightarrow> None)"

definition enc_device_info :: "device_info \<Rightarrow> bytes" where
  "enc_device_info i = pack32 [deviceType i, deviceSerial i, maximumSampleRate i, maximumBandwidth i,
     decimationStageCount i, gainStageCount i, maximumGainIndex i, minimumFrequency i,
     maximumFrequency i, di_resolution i, minimumIqDecimation i, forcedIqFormat i]"

definition dec_device_info :: "bytes \<Rightarrow> device_info option" where
  "dec_device_info b = (case unpack32 12 b of
       Some [a, c, d, e, f, g, h, i, j, k, l, m] \<Rightarrow> Some \<lparr>deviceType = a, deviceSerial = c,
         maximumSampleRate = d, maximumBandwidth = e, decimationStageCount = f, gainStageCount = g,
         maximumGainIndex = h, minimumFrequency = i, maximumFrequency = j, di_resolution = k,
         minimumIqDecimation = l, forcedIqFormat = m\<rparr>
     | _ \<Rightarrow> None)"

definition enc_client_sync :: "client_sync \<Rightarrow> bytes" where
  "enc_client_sync s = pack32 [canControl s, cs_gain s, deviceCenterFrequency s, iqCenterFrequency s,
     fftCenterFrequency s, minimumIqCenterFrequency s, maximumIqCenterFrequency s,
     minimumFftCenterFrequency s, maximumFftCenterFrequency s]"

definition dec_client_sync :: "bytes \<Rightarrow> client_sync option" where
  "dec_client_sync b = (case unpack32 9 b of
       Some [a, c, d, e, f, g, h, i, j] \<Rightarrow> Some \<lparr>canControl = a, cs_gain = c,
         deviceCenterFrequency = d, iqCenterFrequency = e, fftCenterFrequency = f,
         minimumIqCenterFrequency = g, maximumIqCenterFrequency = h,
         minimumFftCenterFrequency = i, maximumFftCenterFrequency = j\<rparr>
     | _ \<Rightarrow> None)"

lemma unpack_packed: "length ws = n \<Longrightarrow> unpack32 n (pack32 ws @ rest) = Some ws"
  using unpack32_pack32 by blast

lemma dec_header_enc [wire_simps]: "dec_header (enc_header h @ rest) = Some h"
  by (simp add: dec_header_def enc_header_def unpack_packed)

lemma dec_device_info_enc [wire_simps]: "dec_device_info (enc_device_info i @ rest) = Some i"
  by (simp add: dec_device_info_def enc_device_info_def unpack_packed)

lemma dec_client_sync_enc [wire_simps]: "dec_client_sync (enc_client_sync s @ rest) = Some s"
  by (simp add: dec_client_sync_def enc_client_sync_def unpack_packed)

lemma struct_lengths [simp]:
  "length (enc_header h) = 20" "length (enc_device_info i) = 48" "length (enc_client_sync s) = 36"
  by (simp_all add: enc_header_def enc_device_info_def enc_client_sync_def)

text \<open>
  Every struct the server sends can be read back field by field by a client that follows
  the protocol, whatever its fields and whatever follows in the stream, and has exactly the size the
  \<open>static_assert\<close>s demand.
\<close>

theorem spy_structs_roundtrip:
  "dec_header (enc_header h @ rest) = Some h \<and> dec_device_info (enc_device_info i @ rest) = Some i \<and>
   dec_client_sync (enc_client_sync s @ rest) = Some s \<and>
   (length (enc_header h), length (enc_device_info i), length (enc_client_sync s)) = (20, 48, 36)"
  by (simp add: wire_simps)

section \<open>The client table and its critical sections\<close>

record client_state =
  handshakeDone :: bool
  streamingEnabled :: bool
  streamingMode :: u32
  sequenceNumber :: u32

definition new_client_state :: client_state where
  "new_client_state = \<lparr>handshakeDone = False, streamingEnabled = False, streamingMode = 0, sequenceNumber = 0\<rparr>"

text \<open>
  The state the threads of a server share: the receiver, the client table, and the calls of \<open>send\<close>
  made so far: the descriptor, the message passed to the call, the bytes of it the kernel took, and
  what the code logs of the result. \<open>sp_net\<close> is the environment: the result of the server's \<open>k\<close>-th
  call of \<open>send\<close>, which no operation changes and about which nothing is assumed.
\<close>

type_synonym spy_sent = "int \<times> bytes \<times> bytes \<times> send_report"

record spy_ctx =
  sp_vrx :: vrx
  clients :: "client_state table"
  sp_out :: "spy_sent list"
  sp_net :: "nat \<Rightarrow> send_result"

text \<open>\<open>it->second\<close> changed when \<open>find\<close> succeeds, else nothing.\<close>

definition modify_client :: "int \<Rightarrow> (client_state \<Rightarrow> client_state) \<Rightarrow> spy_ctx \<Rightarrow> spy_ctx" where
  "modify_client fd f c = (case tget fd (clients c) of
       None \<Rightarrow> c
     | Some st \<Rightarrow> c\<lparr>clients := tput fd (f st) (clients c)\<rparr>)"

definition message_bytes :: "u32 \<Rightarrow> u32 \<Rightarrow> u32 \<Rightarrow> bytes \<Rightarrow> bytes" where
  "message_bytes mt st seq body =
     enc_header \<lparr>protocolId = kProtocolVersion, messageType = mt, streamType = st,
                 mh_sequenceNumber = seq, mh_bodySize = word_of_nat (length body)\<rparr> @ body"

text \<open>The result of the \<open>send\<close> of a reply is not looked at.\<close>

definition sendMessage :: "int \<Rightarrow> u32 \<Rightarrow> u32 \<Rightarrow> bytes \<Rightarrow> spy_ctx \<Rightarrow> spy_ctx" where
  "sendMessage fd mt st body c = (case tget fd (clients c) of
       None \<Rightarrow> c
     | Some cl \<Rightarrow>
         (let buf = message_bytes mt st (sequenceNumber cl) body;
              sent = sp_net c (length (sp_out c))
          in c\<lparr>clients := tput fd (cl\<lparr>sequenceNumber := sequenceNumber cl + 1\<rparr>) (clients c),
               sp_out := sp_out c @ [(fd, buf, taken sent buf, Silent)]\<rparr>))"

text \<open>Which clients a broadcast reaches.\<close>

definition wants_iq :: "client_state \<Rightarrow> bool" where
  "wants_iq st \<longleftrightarrow> handshakeDone st \<and> streamingEnabled st \<and> streamingMode st AND kStreamTypeIq \<noteq> 0"

text \<open>
  The loop of \<open>broadcastIq\<close> over the table, in key order: the calls of \<open>send\<close> it makes and the table
  with the sequence numbers advanced. \<open>net k\<close> is the result of its first \<open>send\<close>, which does not wait: the
  kernel takes all of the message, a prefix of it, or nothing; a failure other than a full buffer and a
  short write are logged, and the sequence number is used up in every case.
\<close>

fun broadcast_loop :: "(nat \<Rightarrow> send_result) \<Rightarrow> nat \<Rightarrow> bytes \<Rightarrow> client_state table \<Rightarrow>
    spy_sent list \<times> client_state table" where
  "broadcast_loop net k data [] = ([], [])"
| "broadcast_loop net k data ((fd, st) # t) =
     (if \<not> handshakeDone st \<or> \<not> streamingEnabled st then
        (case broadcast_loop net k data t of (outs, t') \<Rightarrow> (outs, (fd, st) # t'))
      else if streamingMode st AND kStreamTypeIq = 0 then
        (case broadcast_loop net k data t of (outs, t') \<Rightarrow> (outs, (fd, st) # t'))
      else
        (let buf = message_bytes kMsgTypeUint8Iq kStreamTypeIq (sequenceNumber st) data;
             sent = net k
         in case broadcast_loop net (Suc k) data t of (outs, t') \<Rightarrow>
              ((fd, buf, taken sent buf, report_send sent (length buf)) # outs,
               (fd, st\<lparr>sequenceNumber := sequenceNumber st + 1\<rparr>) # t')))"

definition spyBroadcastIq :: "bytes \<Rightarrow> spy_ctx \<Rightarrow> spy_ctx" where
  "spyBroadcastIq data c =
     (if clients c = [] then c
      else case broadcast_loop (sp_net c) (length (sp_out c)) data (clients c) of (outs, t') \<Rightarrow>
        c\<lparr>clients := t', sp_out := sp_out c @ outs\<rparr>)"

definition spyRemoveClient :: "int \<Rightarrow> spy_ctx \<Rightarrow> spy_ctx" where
  "spyRemoveClient fd c = c\<lparr>clients := tdel fd (clients c)\<rparr>"

definition spyAddClient :: "int \<Rightarrow> spy_ctx \<Rightarrow> spy_ctx" where
  "spyAddClient fd c = c\<lparr>clients := tput fd new_client_state (clients c)\<rparr>"

interpretation spy_clients: registry "[]" "\<lambda>fd. tput fd new_client_state" tdel "map fst" tsorted
proof unfold_locales
  fix r :: "client_state table" and fd :: int
  show "tsorted r \<Longrightarrow> distinct (map fst r)"
    by (simp add: tsorted_def strict_sorted_iff)
  show "tsorted r \<Longrightarrow> set (map fst (tput fd new_client_state r)) = insert fd (set (map fst r))"
    using tkeys_tput [of fd new_client_state r] by (simp only: set_map)
  show "tsorted r \<Longrightarrow> set (map fst (tdel fd r)) = set (map fst r) - {fd}"
    by (force simp: tdel_def)
qed (simp_all add: tsorted_tput tsorted_tdel)

text \<open>\<open>start\<close> registers the broadcast on the receiver, beside the callbacks already there.\<close>

definition spy_start ::
  "listen_os \<Rightarrow> u16 \<Rightarrow> listener \<Rightarrow> vrx \<Rightarrow> exn option \<times> sock_op list \<times> listener \<times> vrx" where
  "spy_start os portno l v =
     (case start_listener os portno l of
        (Some e, ops, l') \<Rightarrow> (Some e, ops, l', v)
      | (None, ops, l') \<Rightarrow> (None, ops, l', addIqCallback v SpyServerBroadcast))"

text \<open>\<open>stop\<close>, on the clients that are in the table when it takes the lock.\<close>

definition spy_stop_server :: "spy_ctx \<Rightarrow> listener \<Rightarrow> sock_op list \<times> listener" where
  "spy_stop_server c l = stop_listener (map fst (clients c)) l"

text \<open>The critical sections of the server, each of them atomic under \<open>clientsMutex_\<close>; retuning takes no lock.\<close>

datatype spy_op =
    OpHandshake int
  | OpMode int u32
  | OpEnable int bool
  | OpSend int u32 u32 bytes
  | OpRetune u32
  | OpBroadcast bytes
  | OpConnect int
  | OpRemove int

fun spy_exec :: "libm \<Rightarrow> spy_ctx \<Rightarrow> spy_op \<Rightarrow> spy_ctx" where
  "spy_exec L c (OpHandshake fd) =
     modify_client fd (\<lambda>st. st\<lparr>handshakeDone := True, streamingMode := kStreamTypeIq\<rparr>) c"
| "spy_exec L c (OpMode fd v) = modify_client fd (\<lambda>st. st\<lparr>streamingMode := v\<rparr>) c"
| "spy_exec L c (OpEnable fd b) = modify_client fd (\<lambda>st. st\<lparr>streamingEnabled := b\<rparr>) c"
| "spy_exec L c (OpSend fd mt st body) = sendMessage fd mt st body c"
| "spy_exec L c (OpRetune f) = c\<lparr>sp_vrx := try_retune (retune L) (sp_vrx c) (f64_of_int (uint f))\<rparr>"
| "spy_exec L c (OpBroadcast data) = spyBroadcastIq data c"
| "spy_exec L c (OpConnect fd) = spyAddClient fd c"
| "spy_exec L c (OpRemove fd) = spyRemoveClient fd c"

section \<open>Command handlers\<close>

datatype spy_report =
    OversizedBody u32
  | MalformedHello
  | Identified u32 bytes
  | MalformedSetSetting
  | NoIqRequested u32
  | SpyRetuned u32
  | SpyRetuneRejected fault
  | IqFormatIgnored u32
  | IqDecimationIgnored u32
  | UnhandledSetting u32 u32
  | UnhandledCommandType u32

text \<open>What ends a read loop by itself: a protocol error, or undefined behaviour in a handler.\<close>

datatype spy_stop = ProtocolError | Crash fault

text \<open>A handler works on the shared state and the log; a conversion out of range is undefined.\<close>

type_synonym spy_thread = "spy_ctx \<times> spy_report list"

definition lo_lo :: "vrx \<Rightarrow> fp" where
  "lo_lo v = fsub binary64 (widebandCenterHz v) (fdiv binary64 (widebandSampleRateHz v) (Fin 2))"

definition lo_hi :: "vrx \<Rightarrow> fp" where
  "lo_hi v = fadd binary64 (widebandCenterHz v) (fdiv binary64 (widebandSampleRateHz v) (Fin 2))"

definition hello_device_info :: "vrx \<Rightarrow> device_info option" where
  "hello_device_info v =
     (case (cast_u32 (getSampleRateHz v), cast_u32 (lo_lo v), cast_u32 (lo_hi v)) of
        (Some rate, Some lo, Some hi) \<Rightarrow> Some \<lparr>deviceType = deviceRtlSdr, deviceSerial = 0,
          maximumSampleRate = rate, maximumBandwidth = rate, decimationStageCount = 0,
          gainStageCount = 0, maximumGainIndex = 0, minimumFrequency = lo, maximumFrequency = hi,
          di_resolution = 1, minimumIqDecimation = 0, forcedIqFormat = formatUint8\<rparr>
      | _ \<Rightarrow> None)"

definition hello_client_sync :: "vrx \<Rightarrow> client_sync option" where
  "hello_client_sync v =
     (case (cast_u32 (widebandCenterHz v), cast_u32 (vr_centerFrequencyHz v),
            cast_u32 (lo_lo v), cast_u32 (lo_hi v)) of
        (Some dev, Some iq, Some lo, Some hi) \<Rightarrow> Some \<lparr>canControl = 1, cs_gain = 0,
          deviceCenterFrequency = dev, iqCenterFrequency = iq, fftCenterFrequency = 0,
          minimumIqCenterFrequency = lo, maximumIqCenterFrequency = hi,
          minimumFftCenterFrequency = 0, maximumFftCenterFrequency = 0\<rparr>
      | _ \<Rightarrow> None)"

definition handleHello :: "libm \<Rightarrow> int \<Rightarrow> bytes \<Rightarrow> spy_thread \<Rightarrow> spy_thread \<times> spy_stop option" where
  "handleHello L fd body t =
     (case t of (c, reports) \<Rightarrow>
      if length body < 4 then ((c, reports @ [MalformedHello]), None)
      else case unpack32 1 body of
        Some [protocolVersion] \<Rightarrow>
          let reports' = reports @ [Identified protocolVersion (drop 4 body)] in
          if tget fd (clients c) = None then ((c, reports'), None)
          else let c1 = spy_exec L c (OpHandshake fd) in
            (case hello_device_info (sp_vrx c1) of
               None \<Rightarrow> ((c1, reports'), Some (Crash UB))
             | Some info \<Rightarrow>
                 let c2 = spy_exec L c1 (OpSend fd kMsgTypeDeviceInfo kStreamTypeStatus (enc_device_info info)) in
                 (case hello_client_sync (sp_vrx c2) of
                    None \<Rightarrow> ((c2, reports'), Some (Crash UB))
                  | Some sync \<Rightarrow>
                      ((spy_exec L c2 (OpSend fd kMsgTypeClientSync kStreamTypeStatus (enc_client_sync sync)),
                        reports'), None)))
      | _ \<Rightarrow> (t, Some (Crash UB)))"

definition handleSetSetting :: "libm \<Rightarrow> int \<Rightarrow> bytes \<Rightarrow> spy_thread \<Rightarrow> spy_thread \<times> spy_stop option" where
  "handleSetSetting L fd body t =
     (case t of (c, reports) \<Rightarrow>
      if length body < 8 then ((c, reports @ [MalformedSetSetting]), None)
      else case unpack32 2 body of
        Some [setting, val] \<Rightarrow>
          (case setting_of setting of
             StreamingMode \<Rightarrow>
               ((spy_exec L c (OpMode fd val),
                 reports @ (if val AND kStreamTypeIq = 0 then [NoIqRequested val] else [])), None)
           | StreamingEnabled \<Rightarrow> ((spy_exec L c (OpEnable fd (val \<noteq> 0)), reports), None)
           | IqFrequency \<Rightarrow>
               ((spy_exec L c (OpRetune val),
                 reports @ [case retune L (sp_vrx c) (f64_of_int (uint val)) of
                              Inr _ \<Rightarrow> SpyRetuned val | Inl e \<Rightarrow> SpyRetuneRejected e]), None)
           | IqFormat \<Rightarrow> ((c, reports @ (if val \<noteq> formatUint8 then [IqFormatIgnored val] else [])), None)
           | IqDecimation \<Rightarrow> ((c, reports @ (if val \<noteq> 0 then [IqDecimationIgnored val] else [])), None)
           | GainSetting \<Rightarrow> ((c, reports), None)
           | FftSetting \<Rightarrow> ((c, reports), None)
           | UnknownSetting \<Rightarrow> ((c, reports @ [UnhandledSetting setting val]), None))
      | _ \<Rightarrow> (t, Some (Crash UB)))"

definition spyHandleCommand ::
  "libm \<Rightarrow> int \<Rightarrow> spy_thread \<Rightarrow> u32 \<times> bytes \<Rightarrow> spy_thread \<times> spy_stop option" where
  "spyHandleCommand L fd t cmd =
     (if fst cmd = cmdHello then handleHello L fd (snd cmd) t
      else if fst cmd = cmdSetSetting then handleSetSetting L fd (snd cmd) t
      else if fst cmd = cmdPing then
        ((spy_exec L (fst t) (OpSend fd kMsgTypePong kStreamTypeStatus []), snd t), None)
      else ((fst t, snd t @ [UnhandledCommandType (fst cmd)]), None))"

section \<open>The receive loop\<close>

text \<open>
  The inner loop of \<open>clientReadLoop\<close> with its \<open>offset\<close>. It ends when the buffer holds no complete
  command, on an oversized body, or (in the model) on undefined behaviour in a handler.
\<close>

function spy_loop ::
  "libm \<Rightarrow> int \<Rightarrow> spy_thread \<Rightarrow> bytes \<Rightarrow> nat \<Rightarrow> spy_thread \<times> bytes \<times> spy_stop option" where
  "spy_loop L fd t recvBuf offset =
     (if 8 \<le> length recvBuf - offset then
        (case unpack32 2 (drop offset recvBuf) of
           Some [commandType, bodySize] \<Rightarrow>
             if kMaxCommandBodySize < unat bodySize then
               ((fst t, snd t @ [OversizedBody bodySize]), drop offset recvBuf, Some ProtocolError)
             else if length recvBuf - offset < 8 + unat bodySize then (t, drop offset recvBuf, None)
             else (case spyHandleCommand L fd t
                     (commandType, take (unat bodySize) (drop (offset + 8) recvBuf)) of
                     (t', Some e) \<Rightarrow> (t', drop (offset + 8 + unat bodySize) recvBuf, Some e)
                   | (t', None) \<Rightarrow> spy_loop L fd t' recvBuf (offset + 8 + unat bodySize))
         | _ \<Rightarrow> (t, drop offset recvBuf, Some (Crash UB)))
      else (t, drop offset recvBuf, None))"
  by pat_completeness auto
termination
  by (relation "measure (\<lambda>(_, _, _, recvBuf, offset). length recvBuf - offset)") auto

declare spy_loop.simps [simp del]

text \<open>One iteration of the outer loop; after \<open>protocolError\<close> nothing is read any more.\<close>

fun spy_recv :: "libm \<Rightarrow> int \<Rightarrow> spy_thread \<times> bytes \<times> spy_stop option \<Rightarrow> bytes \<Rightarrow>
    spy_thread \<times> bytes \<times> spy_stop option" where
  "spy_recv L fd (t, recvBuf, Some e) chunk = (t, recvBuf, Some e)"
| "spy_recv L fd (t, recvBuf, None) chunk = spy_loop L fd t (recvBuf @ chunk) 0"

text \<open>
  The parser inside the loop. The oversized header is a frame whose handling stops the loop, so that
  the log entry is part of the handler.
\<close>

datatype spy_frame = Command "u32 \<times> bytes" | Oversized u32

definition next_spy :: "bytes \<Rightarrow> (spy_frame, spy_stop) parsed" where
  "next_spy b = (case unpack32 2 b of
       Some [commandType, bodySize] \<Rightarrow>
         if kMaxCommandBodySize < unat bodySize then Frame (Oversized bodySize) 8
         else if length b < 8 + unat bodySize then NeedMore
         else Frame (Command (commandType, take (unat bodySize) (drop 8 b))) (8 + unat bodySize)
     | _ \<Rightarrow> NeedMore)"

fun spy_handle :: "libm \<Rightarrow> int \<Rightarrow> spy_thread \<Rightarrow> spy_frame \<Rightarrow> spy_thread \<times> spy_stop option" where
  "spy_handle L fd t (Command cmd) = spyHandleCommand L fd t cmd"
| "spy_handle L fd t (Oversized n) = ((fst t, snd t @ [OversizedBody n]), Some ProtocolError)"

definition encode_spy :: "spy_frame \<Rightarrow> bytes" where
  "encode_spy f = (case f of
       Command (ty, body) \<Rightarrow> pack32 [ty, word_of_nat (length body)] @ body
     | Oversized n \<Rightarrow> pack32 [cmdPing, n])"

fun valid_frame :: "spy_frame \<Rightarrow> bool" where
  "valid_frame (Command (ty, body)) \<longleftrightarrow> length body \<le> 256"
| "valid_frame (Oversized n) \<longleftrightarrow> 256 < unat n"

lemma unpack2_cases:
  obtains (short) "length b < 8" "unpack32 2 b = None"
  | (header) ty bs where "8 \<le> length b" "unpack32 2 b = Some [ty, bs]"
proof (cases "8 \<le> length b")
  case True
  then obtain ws where ws: "unpack32 2 b = Some ws" using unpack32_total [of 2 b] by auto
  from unpack32_length [OF this] obtain ty bs where "ws = [ty, bs]"
    by (auto simp: length_Suc_conv numeral_2_eq_2)
  with ws True show ?thesis using that(2) by blast
next
  case False
  have "4 * n \<le> length b" if "unpack32 n b = Some ws" for n ws
    using that by (induction n b arbitrary: ws rule: unpack32.induct) (auto split: option.splits)
  from this [of 2] False have "unpack32 2 b = None" by (cases "unpack32 2 b") auto
  with False show ?thesis using that(1) by simp
qed

lemma next_spy_header:
  assumes "unpack32 2 b = Some [ty, bs]"
  shows "next_spy b =
    (if 256 < unat bs then Frame (Oversized bs) 8
     else if length b < 8 + unat bs then NeedMore
     else Frame (Command (ty, take (unat bs) (drop 8 b))) (8 + unat bs))"
  using assms by (simp add: next_spy_def kMaxCommandBodySize_def)

lemma next_spy_short: "unpack32 2 b = None \<Longrightarrow> next_spy b = NeedMore"
  by (simp add: next_spy_def)

lemma next_spy_never_aborts: "next_spy b \<noteq> Abort e"
  by (cases b rule: unpack2_cases) (auto simp: next_spy_short next_spy_header)

interpretation spy: codec next_spy encode_spy valid_frame
proof unfold_locales
  show "next_spy [] = NeedMore" by (simp add: next_spy_def numeral_2_eq_2)
  fix b f n ext e
  show "next_spy b = Frame f n \<Longrightarrow> 0 < n \<and> n \<le> length b"
    by (cases b rule: unpack2_cases) (auto simp: next_spy_short next_spy_header split: if_splits)
  show "next_spy b = Frame f n \<Longrightarrow> next_spy (b @ ext) = Frame f n"
    by (cases b rule: unpack2_cases)
      (auto simp: next_spy_short next_spy_header unpack32_append split: if_splits)
  show "next_spy b = Abort e \<Longrightarrow> next_spy (b @ ext) = Abort e"
    by (simp add: next_spy_never_aborts)
  show "next_spy (encode_spy f) = Frame f (length (encode_spy f))" if "valid_frame f"
  proof (cases f)
    case (Command cmd)
    obtain ty body where cmd: "cmd = (ty, body)" by (cases cmd)
    have l: "unat (word_of_nat (length body) :: u32) = length body"
      using that Command cmd by (simp add: unat_of_nat)
    have "unpack32 2 (encode_spy f) = Some [ty, word_of_nat (length body)]"
      by (simp add: encode_spy_def Command cmd unpack_packed)
    from next_spy_header [OF this] show ?thesis
      using that l by (simp add: Command cmd encode_spy_def)
  next
    case (Oversized n)
    have "unpack32 2 (encode_spy f) = Some [cmdPing, n]"
      using unpack_packed [of "[cmdPing, n]" 2 "[]"] by (simp add: encode_spy_def Oversized)
    from next_spy_header [OF this] show ?thesis
      using that by (simp add: Oversized encode_spy_def)
  qed
qed

text \<open>
  The code's loop is the generic one, except that on an oversized header it leaves the header in the
  buffer, which nobody reads again.
\<close>

lemma spy_loop_drain:
  "view (spy_loop L fd t recvBuf offset) = view (drain next_spy (spy_handle L fd) t (drop offset recvBuf))"
proof (induction L fd t recvBuf offset rule: spy_loop.induct)
  case (1 L fd t recvBuf offset)
  show ?case
  proof (cases "drop offset recvBuf" rule: unpack2_cases)
    case short
    then have l: "\<not> 8 \<le> length recvBuf - offset" by simp
    show ?thesis
      by (simp only: spy.drain_NeedMore [OF next_spy_short [OF short(2)]]
          spy_loop.simps [of L fd t recvBuf offset] l if_False)
  next
    case (header ty bs)
    then have l: "8 \<le> length recvBuf - offset" by simp
    note nh = next_spy_header [OF header(2)]
    let ?cmd = "(ty, take (unat bs) (drop (offset + 8) recvBuf))"
    consider (big) "256 < unat bs"
      | (wait) "\<not> 256 < unat bs" "length recvBuf - offset < 8 + unat bs"
      | (run) "\<not> 256 < unat bs" "\<not> length recvBuf - offset < 8 + unat bs"
      by blast
    then show ?thesis
    proof cases
      case big
      then have n: "next_spy (drop offset recvBuf) = Frame (Oversized bs) 8" using nh by simp
      from big l header(2) show ?thesis
        by (simp add: spy.drain_Frame [OF n] spy_loop.simps [of L fd t recvBuf offset] kMaxCommandBodySize_def)
    next
      case wait
      then have n: "next_spy (drop offset recvBuf) = NeedMore" using nh by simp
      from wait l header(2) show ?thesis
        by (simp add: spy.drain_NeedMore [OF n] spy_loop.simps [of L fd t recvBuf offset] kMaxCommandBodySize_def)
    next
      case run
      then have n: "next_spy (drop offset recvBuf) = Frame (Command ?cmd) (8 + unat bs)"
        using nh by (simp add: add.commute)
      have nb: "\<not> kMaxCommandBodySize < unat bs" using run by (simp add: kMaxCommandBodySize_def)
      note IH = 1 [OF l header(2) refl refl refl nb run(2)]
      show ?thesis
      proof (cases "spyHandleCommand L fd t ?cmd")
        case (Pair t' e)
        show ?thesis
        proof (cases e)
          case None
          have "spy_loop L fd t recvBuf offset = spy_loop L fd t' recvBuf (offset + 8 + unat bs)"
            using l header(2) nb run(2) Pair None
            by (simp add: spy_loop.simps [of L fd t recvBuf offset])
          then show ?thesis using IH [OF Pair [symmetric] None] Pair None
            by (simp add: spy.drain_Frame [OF n] add.commute add.left_commute)
        next
          case (Some x)
          then show ?thesis using l header(2) nb run(2) Pair
            by (simp add: spy_loop.simps [of L fd t recvBuf offset] spy.drain_Frame [OF n])
        qed
      qed
    qed
  qed
qed

lemma spy_recv_feed:
  assumes "view r1 = view r2"
  shows "view (spy_recv L fd r1 chunk) = view (feed next_spy (spy_handle L fd) r2 chunk)"
proof -
  obtain t1 b1 v1 t2 b2 v2 where r: "r1 = (t1, b1, v1)" "r2 = (t2, b2, v2)"
    by (cases r1; cases r2) auto
  with assms spy_loop_drain [of L fd t1 "b1 @ chunk" 0] show ?thesis by (cases v1; cases v2) auto
qed

lemma spy_recvs_feed:
  "view (foldl (spy_recv L fd) (t, [], None) cs) = view (foldl (feed next_spy (spy_handle L fd)) (t, [], None) cs)"
  by (induction cs rule: rev_induct) (simp_all add: spy_recv_feed)

text \<open>A concrete server state for the examples.\<close>

definition demo_client :: client_state where
  "demo_client = \<lparr>handshakeDone = True, streamingEnabled = True, streamingMode = 1, sequenceNumber = 4\<rparr>"

definition demo_ctx :: spy_ctx where
  "demo_ctx = \<lparr>sp_vrx = demo_vrx, clients = [(5, new_client_state), (7, demo_client)], sp_out = [],
     sp_net = (\<lambda>k. WouldBlock)\<rparr>"

lemma demo_ctx_sorted: "tsorted (clients demo_ctx)"
  by (simp add: demo_ctx_def tsorted_def)

text \<open>
  Property C10: whatever way TCP cuts a client's commands into chunks, the read loop handles exactly
  the commands that were sent, in order, keeps an incomplete tail, and stops at the first oversized
  header (or undefined conversion) without handling anything behind it.
\<close>

theorem spy_commands_any_chunking:
  assumes "concat chunks = concat (map encode_spy fs) @ rest"
    and "\<forall>f \<in> set fs. valid_frame f" and "next_spy rest = NeedMore"
  shows "view (foldl (spy_recv L fd) (t, [], None) chunks) =
    (case run_frames (spy_handle L fd) t fs of (t', v) \<Rightarrow> (t', if v = None then Some rest else None, v))"
  unfolding spy_recvs_feed by (rule spy.chunked_run [OF assms])

theorem spy_commands_any_chunking_witness:
  "view (foldl (spy_recv demo_libm 7) ((demo_ctx, []), [], None) [[9, 0, 0], [0, 1, 0, 0, 0, 65, 3, 0], [0, 0, 1, 1, 0, 0, 5]]) =
    ((fst (demo_ctx, []), snd (demo_ctx, []) @ [UnhandledCommandType 9, OversizedBody 257]), None, Some ProtocolError)"
proof -
  have e: "concat [[9, 0, 0], [0, 1, 0, 0, 0, 65, 3, 0], [0, 0, 1, 1, 0, 0, 5]] =
      concat (map encode_spy [Command (9, [65]), Oversized 257]) @ [5 :: u8]"
    by (simp add: encode_spy_def pack32_def le32_def drop_bit_eq_div cmdPing_def)
  have v: "\<forall>f \<in> set [Command (9, [65]), Oversized 257]. valid_frame f" by simp
  have r: "next_spy [5] = NeedMore" by (simp add: next_spy_def numeral_2_eq_2)
  show ?thesis using spy_commands_any_chunking [OF e v r, of demo_libm 7 "(demo_ctx, [])"]
    by (simp add: spyHandleCommand_def cmdHello_def cmdSetSetting_def cmdPing_def)
qed

text \<open>
  Whatever a client sends, in whatever chunks, the buffer the server keeps for it between
  two reads stays below 264 bytes.
\<close>

theorem spy_buffer_bounded:
  assumes "foldl (spy_recv L fd) (t, [], None) chunks = (t', buf, None)"
  shows "length buf < 264"
proof -
  have "view (foldl (feed next_spy (spy_handle L fd)) (t, [], None) chunks) = (t', Some buf, None)"
    using spy_recvs_feed [of L fd t chunks] assms by simp
  then have "foldl (feed next_spy (spy_handle L fd)) (t, [], None) chunks = (t', buf, None)"
    by (simp add: view_eq_None)
  from spy.leftover_incomplete [OF this] show ?thesis
    by (cases buf rule: unpack2_cases) (auto simp: next_spy_header split: if_splits)
qed

theorem spy_buffer_bounded_witness:
  "\<exists>buf. foldl (spy_recv demo_libm 7) ((demo_ctx, []), [], None) [[9, 0, 0, 0, 255, 0, 0, 0, 1]] = ((demo_ctx, []), buf, None) \<and> length buf < 264"
proof -
  have "pack32 [9, 255] @ [1] = [9, 0, 0, 0, 255, 0, 0, 0, 1]"
    by (simp add: pack32_def le32_def drop_bit_eq_div)
  with unpack_packed [of "[9, 255]" 2 "[1]"] have u:
    "unpack32 2 [9, 0, 0, 0, 255, 0, 0, 0, 1] = Some [9, 255]" by simp
  have "spy_loop demo_libm 7 (demo_ctx, []) [9, 0, 0, 0, 255, 0, 0, 0, 1] 0 = ((demo_ctx, []), [9, 0, 0, 0, 255, 0, 0, 0, 1], None)"
    by (subst spy_loop.simps) (simp add: u kMaxCommandBodySize_def)
  then have "foldl (spy_recv demo_libm 7) ((demo_ctx, []), [], None) [[9, 0, 0, 0, 255, 0, 0, 0, 1]] =
      ((demo_ctx, []), [9, 0, 0, 0, 255, 0, 0, 0, 1], None)" by simp
  from this spy_buffer_bounded [OF this] show ?thesis by blast
qed

section \<open>Handlers as sequences of critical sections\<close>

text \<open>The sections a handler of client \<open>fd\<close> may run.\<close>

fun own_op :: "int \<Rightarrow> spy_op \<Rightarrow> bool" where
  "own_op fd (OpHandshake fd') \<longleftrightarrow> fd' = fd"
| "own_op fd (OpMode fd' v) \<longleftrightarrow> fd' = fd"
| "own_op fd (OpEnable fd' b) \<longleftrightarrow> fd' = fd"
| "own_op fd (OpSend fd' mt st body) \<longleftrightarrow> fd' = fd \<and> mt \<noteq> kMsgTypeUint8Iq \<and> length body \<le> 48"
| "own_op fd (OpRetune f) \<longleftrightarrow> True"
| "own_op fd (OpBroadcast data) \<longleftrightarrow> False"
| "own_op fd (OpConnect fd') \<longleftrightarrow> False"
| "own_op fd (OpRemove fd') \<longleftrightarrow> False"

definition sections :: "libm \<Rightarrow> int \<Rightarrow> spy_ctx \<Rightarrow> spy_ctx \<Rightarrow> bool" where
  "sections L fd c c' \<longleftrightarrow> (\<exists>ops. list_all (own_op fd) ops \<and> c' = foldl (spy_exec L) c ops)"

lemma sections_refl: "sections L fd c c"
  by (auto simp: sections_def intro: exI [of _ "[]"])

lemma sections_snoc: "sections L fd c c' \<Longrightarrow> own_op fd op \<Longrightarrow> sections L fd c (spy_exec L c' op)"
  unfolding sections_def
  by (elim exE conjE) (rule exI [of _ "_ @ [op]"], simp)

lemma message_types_distinct [simp]:
  "kMsgTypeDeviceInfo \<noteq> kMsgTypeUint8Iq" "kMsgTypeClientSync \<noteq> kMsgTypeUint8Iq" "kMsgTypePong \<noteq> kMsgTypeUint8Iq"
  by (simp_all add: kMsgTypeDeviceInfo_def kMsgTypeClientSync_def kMsgTypePong_def kMsgTypeUint8Iq_def)

lemma sections_one: "own_op fd op \<Longrightarrow> sections L fd c (spy_exec L c op)"
  by (rule sections_snoc [OF sections_refl])

lemma handleHello_sections: "sections L fd (fst t) (fst (fst (handleHello L fd body t)))"
proof -
  obtain c reports where t: "t = (c, reports)" by (cases t)
  let ?c1 = "spy_exec L c (OpHandshake fd)"
  have s1: "sections L fd c ?c1" by (simp del: spy_exec.simps add: sections_one)
  have s2: "sections L fd c (spy_exec L ?c1 (OpSend fd kMsgTypeDeviceInfo kStreamTypeStatus (enc_device_info info)))"
    for info by (rule sections_snoc [OF s1]) simp
  have s3: "sections L fd c (spy_exec L (spy_exec L ?c1 (OpSend fd kMsgTypeDeviceInfo kStreamTypeStatus
      (enc_device_info info))) (OpSend fd kMsgTypeClientSync kStreamTypeStatus (enc_client_sync sync)))"
    for info sync by (rule sections_snoc [OF s2]) simp
  show ?thesis
    unfolding handleHello_def t prod.case Let_def
    by (simp del: spy_exec.simps add: sections_refl s1 s2 s3 split: list.split option.split)
qed

lemma handleSetSetting_sections: "sections L fd (fst t) (fst (fst (handleSetSetting L fd body t)))"
proof -
  obtain c reports where t: "t = (c, reports)" by (cases t)
  show ?thesis
    unfolding handleSetSetting_def t prod.case
    by (simp del: spy_exec.simps add: sections_refl sections_one
        split: list.split option.split setting_type.split)
qed

lemma spyHandleCommand_sections: "sections L fd (fst t) (fst (fst (spyHandleCommand L fd t cmd)))"
  unfolding spyHandleCommand_def
  using handleHello_sections handleSetSetting_sections
  by (simp del: spy_exec.simps add: sections_refl sections_one)

section \<open>What the critical sections keep\<close>

text \<open>
  The messages the server passed to \<open>send\<close> for a client, and the bytes the kernel took of them, which
  are what the client's connection carries.
\<close>

definition sent_to :: "int \<Rightarrow> spy_ctx \<Rightarrow> bytes list" where
  "sent_to fd c = map (\<lambda>m. fst (snd m)) (filter (\<lambda>m. fst m = fd) (sp_out c))"

definition taken_to :: "int \<Rightarrow> spy_ctx \<Rightarrow> bytes" where
  "taken_to fd c = concat (map (\<lambda>m. fst (snd (snd m))) (filter (\<lambda>m. fst m = fd) (sp_out c)))"

lemma tsorted_modify: "tsorted (clients c) \<Longrightarrow> tsorted (clients (modify_client fd f c))"
  by (auto simp: modify_client_def tsorted_tput split: option.splits)

lemma broadcast_loop_keys: "broadcast_loop net k data t = (outs, t') \<Longrightarrow> map fst t' = map fst t"
  by (induction net k data t arbitrary: outs t' rule: broadcast_loop.induct)
    (auto simp: Let_def split: prod.splits if_splits)

lemma broadcast_loop_tget: "broadcast_loop net k data t = (outs, t') \<Longrightarrow>
    tget fd t' = map_option (\<lambda>st. if wants_iq st then st\<lparr>sequenceNumber := sequenceNumber st + 1\<rparr> else st) (tget fd t)"
  by (induction net k data t arbitrary: outs t' rule: broadcast_loop.induct)
    (auto simp: tget_def wants_iq_def Let_def split: prod.splits if_splits)

lemma broadcast_loop_none: "broadcast_loop net k data t = (outs, t') \<Longrightarrow> tget fd t = None \<Longrightarrow>
    filter (\<lambda>m. fst m = fd) outs = []"
  by (induction net k data t arbitrary: outs t' rule: broadcast_loop.induct)
    (auto simp: tget_def Let_def split: prod.splits if_splits)

text \<open>What a broadcast passes to \<open>send\<close> for one client, with what the kernel takes of it and what is logged.\<close>

lemma broadcast_loop_outs: "broadcast_loop net k data t = (outs, t') \<Longrightarrow> tsorted t \<Longrightarrow>
    \<exists>sent. filter (\<lambda>m. fst m = fd) outs = (case tget fd t of
       Some st \<Rightarrow> if wants_iq st
                  then let buf = message_bytes kMsgTypeUint8Iq kStreamTypeIq (sequenceNumber st) data
                       in [(fd, buf, taken sent buf, report_send sent (length buf))] else []
     | None \<Rightarrow> [])"
proof (induction net k data t arbitrary: outs t' rule: broadcast_loop.induct)
  case (2 net k data fd1 st t)
  have srt: "tsorted t" "tget fd1 t = None"
    using 2(5) by (auto simp: tget_None_iff tsorted_Cons)
  consider (off) "\<not> handshakeDone st \<or> \<not> streamingEnabled st"
    | (noiq) "handshakeDone st" "streamingEnabled st" "streamingMode st AND kStreamTypeIq = 0"
    | (iq) "handshakeDone st" "streamingEnabled st" "streamingMode st AND kStreamTypeIq \<noteq> 0" by blast
  then show ?case
  proof cases
    case off
    with 2(4) obtain t1 where "broadcast_loop net k data t = (outs, t1)" by (auto split: prod.splits)
    with 2(1) [OF off this srt(1)] off srt(2) broadcast_loop_none [OF this, of fd1] show ?thesis
      by (auto simp: tget_def wants_iq_def)
  next
    case noiq
    with 2(4) obtain t1 where "broadcast_loop net k data t = (outs, t1)" by (auto split: prod.splits)
    with 2(2) [OF _ noiq(3) this srt(1)] noiq srt(2) broadcast_loop_none [OF this, of fd1] show ?thesis
      by (auto simp: tget_def wants_iq_def)
  next
    case iq
    with 2(4) obtain outs1 t1 where r: "broadcast_loop net (Suc k) data t = (outs1, t1)"
      "outs = (let buf = message_bytes kMsgTypeUint8Iq kStreamTypeIq (sequenceNumber st) data
               in (fd1, buf, taken (net k) buf, report_send (net k) (length buf))) # outs1"
      by (auto simp: Let_def split: prod.splits)
    show ?thesis
    proof (cases "fd = fd1")
      case True
      with iq r broadcast_loop_none [OF r(1) srt(2)] show ?thesis
        by (intro exI [of _ "net k"]) (simp add: tget_def wants_iq_def Let_def)
    next
      case False
      with 2(3) [OF _ iq(3) refl refl r(1) srt(1)] iq r show ?thesis
        by (auto simp: tget_def Let_def)
    qed
  qed
qed (simp add: tget_def)

lemma broadcast_loop_sorted: "broadcast_loop net k data t = (outs, t') \<Longrightarrow> tsorted t' = tsorted t"
  by (simp add: tsorted_def broadcast_loop_keys)

lemma exec_sorted: "tsorted (clients c) \<Longrightarrow> tsorted (clients (spy_exec L c op))"
  by (cases op) (auto simp: tsorted_modify sendMessage_def Let_def spyBroadcastIq_def spyAddClient_def
      spyRemoveClient_def tsorted_tput tsorted_tdel broadcast_loop_sorted
      split: option.splits prod.splits)

text \<open>A broadcast, seen from one client: the lemma behind the gating property.\<close>

lemma broadcast_one:
  assumes "tsorted (clients c)"
  shows "sent_to fd (spyBroadcastIq data c) = sent_to fd c @ (case tget fd (clients c) of
      Some st \<Rightarrow> if wants_iq st
                 then [message_bytes kMsgTypeUint8Iq kStreamTypeIq (sequenceNumber st) data] else []
    | None \<Rightarrow> [])"
    and "\<exists>sent. taken_to fd (spyBroadcastIq data c) = taken_to fd c @ (case tget fd (clients c) of
      Some st \<Rightarrow> if wants_iq st
                 then taken sent (message_bytes kMsgTypeUint8Iq kStreamTypeIq (sequenceNumber st) data) else []
    | None \<Rightarrow> [])"
    and "tget fd (clients (spyBroadcastIq data c)) = map_option (\<lambda>st. if wants_iq st
      then st\<lparr>sequenceNumber := sequenceNumber st + 1\<rparr> else st) (tget fd (clients c))"
    and "sp_vrx (spyBroadcastIq data c) = sp_vrx c"
proof -
  obtain outs t' where r: "broadcast_loop (sp_net c) (length (sp_out c)) data (clients c) = (outs, t')"
    by fastforce
  from broadcast_loop_outs [OF r assms, of fd] obtain sent where
    o: "filter (\<lambda>m. fst m = fd) outs = (case tget fd (clients c) of
       Some st \<Rightarrow> if wants_iq st
                  then let buf = message_bytes kMsgTypeUint8Iq kStreamTypeIq (sequenceNumber st) data
                       in [(fd, buf, taken sent buf, report_send sent (length buf))] else []
     | None \<Rightarrow> [])" by blast
  show "sent_to fd (spyBroadcastIq data c) = sent_to fd c @ (case tget fd (clients c) of
      Some st \<Rightarrow> if wants_iq st
                 then [message_bytes kMsgTypeUint8Iq kStreamTypeIq (sequenceNumber st) data] else []
    | None \<Rightarrow> [])"
    using o by (cases "clients c = []")
      (auto simp: spyBroadcastIq_def r sent_to_def tget_def Let_def split: option.splits)
  show "\<exists>sent. taken_to fd (spyBroadcastIq data c) = taken_to fd c @ (case tget fd (clients c) of
      Some st \<Rightarrow> if wants_iq st
                 then taken sent (message_bytes kMsgTypeUint8Iq kStreamTypeIq (sequenceNumber st) data) else []
    | None \<Rightarrow> [])"
    using o by (cases "clients c = []", simp add: spyBroadcastIq_def tget_def, intro exI [of _ sent])
      (auto simp: spyBroadcastIq_def r taken_to_def Let_def split: option.splits)
  show "tget fd (clients (spyBroadcastIq data c)) = map_option (\<lambda>st. if wants_iq st
      then st\<lparr>sequenceNumber := sequenceNumber st + 1\<rparr> else st) (tget fd (clients c))"
    using broadcast_loop_tget [OF r, of fd]
    by (cases "clients c = []") (auto simp: spyBroadcastIq_def r tget_def)
  show "sp_vrx (spyBroadcastIq data c) = sp_vrx c"
    by (simp add: spyBroadcastIq_def r)
qed

text \<open>
  Property C38: a broadcast passes one IQ message to \<open>send\<close> for every client that has said hello, enabled
  streaming and asked for IQ, and none for any other; the message carries the chunk and that client's next sequence
  number, which alone is advanced.
\<close>

theorem spy_broadcast_gating:
  assumes "tsorted (clients c)"
  shows "sent_to fd (spyBroadcastIq data c) = sent_to fd c @ (case tget fd (clients c) of
      Some st \<Rightarrow> if wants_iq st
                 then [message_bytes kMsgTypeUint8Iq kStreamTypeIq (sequenceNumber st) data] else []
    | None \<Rightarrow> []) \<and>
    tget fd (clients (spyBroadcastIq data c)) = map_option (\<lambda>st. if wants_iq st
      then st\<lparr>sequenceNumber := sequenceNumber st + 1\<rparr> else st) (tget fd (clients c)) \<and>
    sp_vrx (spyBroadcastIq data c) = sp_vrx c"
  by (intro conjI broadcast_one(1,3,4) [OF assms])

theorem spy_broadcast_gating_witness:
  "sent_to 7 (spyBroadcastIq [1, 2] demo_ctx) = [message_bytes 100 1 4 [1, 2]] \<and>
   sent_to 5 (spyBroadcastIq [1, 2] demo_ctx) = []"
  using spy_broadcast_gating [OF demo_ctx_sorted, of 7 "[1, 2]"]
    spy_broadcast_gating [OF demo_ctx_sorted, of 5 "[1, 2]"]
  by (simp add: demo_ctx_def demo_client_def new_client_state_def tget_def sent_to_def wants_iq_def
      kStreamTypeIq_def kMsgTypeUint8Iq_def)

section \<open>Sequence numbers over all interleavings\<close>

lemma tget_sendMessage: "tsorted (clients c) \<Longrightarrow>
    tget fd (clients (sendMessage fd' mt st body c)) = (if fd' = fd
      then map_option (\<lambda>cl. cl\<lparr>sequenceNumber := sequenceNumber cl + 1\<rparr>) (tget fd (clients c))
      else tget fd (clients c))"
  by (auto simp: sendMessage_def Let_def tget_tput split: option.splits)

lemma sent_to_sendMessage: "sent_to fd (sendMessage fd' mt st body c) = sent_to fd c @
    (case tget fd (clients c) of
       Some cl \<Rightarrow> if fd' = fd then [message_bytes mt st (sequenceNumber cl) body] else []
     | None \<Rightarrow> [])"
  by (auto simp: sendMessage_def sent_to_def Let_def split: option.splits)

lemma taken_to_sendMessage: "\<exists>sent. taken_to fd (sendMessage fd' mt st body c) = taken_to fd c @
    (case tget fd (clients c) of
       Some cl \<Rightarrow> if fd' = fd then taken sent (message_bytes mt st (sequenceNumber cl) body) else []
     | None \<Rightarrow> [])"
  by (intro exI [of _ "sp_net c (length (sp_out c))"])
    (auto simp: sendMessage_def taken_to_def Let_def split: option.splits)

lemma tget_modify: "tsorted (clients c) \<Longrightarrow>
    tget fd (clients (modify_client fd' f c)) =
      (if fd' = fd then map_option f (tget fd (clients c)) else tget fd (clients c))"
  by (auto simp: modify_client_def tget_tput split: option.splits)

lemma modify_client_out [simp]: "sp_out (modify_client fd f c) = sp_out c" "sp_vrx (modify_client fd f c) = sp_vrx c"
  by (auto simp: modify_client_def split: option.splits)

fun keeps_client :: "int \<Rightarrow> spy_op \<Rightarrow> bool" where
  "keeps_client fd (OpConnect fd') \<longleftrightarrow> fd' \<noteq> fd"
| "keeps_client fd (OpRemove fd') \<longleftrightarrow> fd' \<noteq> fd"
| "keeps_client fd _ \<longleftrightarrow> True"

text \<open>A well-formed message with a given sequence number.\<close>

definition numbered :: "u32 \<Rightarrow> bytes \<Rightarrow> bool" where
  "numbered n m \<longleftrightarrow> (\<exists>h body. m = enc_header h @ body \<and> protocolId h = kProtocolVersion \<and>
     mh_sequenceNumber h = n \<and> mh_bodySize h = word_of_nat (length body))"

lemma numbered_message: "numbered n (message_bytes mt st n body)"
  unfolding numbered_def message_bytes_def by (intro exI conjI, rule refl) simp_all

lemma exec_one:
  assumes "tsorted (clients c)" and "keeps_client fd op" and "tget fd (clients c) = Some st"
  shows "\<exists>st' new. tget fd (clients (spy_exec L c op)) = Some st' \<and>
    sent_to fd (spy_exec L c op) = sent_to fd c @ new \<and>
    (\<exists>rs. length rs = length new \<and> taken_to fd (spy_exec L c op) = taken_to fd c @ received (zip rs new)) \<and>
    (new = [] \<and> sequenceNumber st' = sequenceNumber st \<or>
     (\<exists>m. new = [m] \<and> numbered (sequenceNumber st) m) \<and> sequenceNumber st' = sequenceNumber st + 1)"
proof (cases op)
  case (OpSend fd' mt sty body)
  obtain sent where k: "taken_to fd (spy_exec L c op) = taken_to fd c @
      (if fd' = fd then taken sent (message_bytes mt sty (sequenceNumber st) body) else [])"
    using taken_to_sendMessage [of fd fd' mt sty body c] assms(3) OpSend by auto
  show ?thesis
  proof (cases "fd' = fd")
    case True
    let ?m = "message_bytes mt sty (sequenceNumber st) body"
    show ?thesis using OpSend assms k True
      by (intro exI [of _ "st\<lparr>sequenceNumber := sequenceNumber st + 1\<rparr>"] exI [of _ "[?m]"] conjI
          exI [of _ "[sent]"]) (simp_all add: tget_sendMessage sent_to_sendMessage numbered_message)
  next
    case False
    with OpSend assms k show ?thesis
      by (intro exI [of _ st] exI [of _ "[]"]) (simp add: tget_sendMessage sent_to_sendMessage)
  qed
next
  case (OpBroadcast data)
  let ?m = "message_bytes kMsgTypeUint8Iq kStreamTypeIq (sequenceNumber st) data"
  obtain sent where k: "taken_to fd (spyBroadcastIq data c) = taken_to fd c @
      (if wants_iq st then taken sent ?m else [])"
    using broadcast_one(2) [OF assms(1), of fd data] assms(3) by auto
  show ?thesis
  proof (cases "wants_iq st")
    case True
    with OpBroadcast assms k broadcast_one(1,3) [OF assms(1), of fd data] show ?thesis
      by (intro exI [of _ "st\<lparr>sequenceNumber := sequenceNumber st + 1\<rparr>"] exI [of _ "[?m]"] conjI
          exI [of _ "[sent]"]) (simp_all add: numbered_message)
  next
    case False
    with OpBroadcast assms k broadcast_one(1,3) [OF assms(1), of fd data] show ?thesis
      by (intro exI [of _ st] exI [of _ "[]"]) simp
  qed
qed (use assms in \<open>auto simp: tget_modify sent_to_def taken_to_def spyAddClient_def spyRemoveClient_def
    tget_tput tget_tdel\<close>)

lemma exec_all:
  assumes "tsorted (clients c)" and "list_all (keeps_client fd) ops" and "tget fd (clients c) = Some st"
  shows "\<exists>st' new. tget fd (clients (foldl (spy_exec L) c ops)) = Some st' \<and>
    sent_to fd (foldl (spy_exec L) c ops) = sent_to fd c @ new \<and>
    (\<exists>rs. length rs = length new \<and>
       taken_to fd (foldl (spy_exec L) c ops) = taken_to fd c @ received (zip rs new)) \<and>
    sequenceNumber st' = sequenceNumber st + word_of_nat (length new) \<and>
    (\<forall>i < length new. numbered (sequenceNumber st + word_of_nat i) (new ! i))"
  using assms
proof (induction ops arbitrary: c st)
  case (Cons op ops)
  obtain st1 new1 rs1 where s1: "tget fd (clients (spy_exec L c op)) = Some st1"
    "sent_to fd (spy_exec L c op) = sent_to fd c @ new1"
    "new1 = [] \<and> sequenceNumber st1 = sequenceNumber st \<or>
     (\<exists>m. new1 = [m] \<and> numbered (sequenceNumber st) m) \<and> sequenceNumber st1 = sequenceNumber st + 1"
    "length rs1 = length new1" "taken_to fd (spy_exec L c op) = taken_to fd c @ received (zip rs1 new1)"
    using exec_one [of c fd op st L] Cons.prems by auto
  obtain st2 new2 rs2 where s2: "tget fd (clients (foldl (spy_exec L) (spy_exec L c op) ops)) = Some st2"
    "sent_to fd (foldl (spy_exec L) (spy_exec L c op) ops) = sent_to fd (spy_exec L c op) @ new2"
    "sequenceNumber st2 = sequenceNumber st1 + word_of_nat (length new2)"
    "\<forall>i < length new2. numbered (sequenceNumber st1 + word_of_nat i) (new2 ! i)"
    "length rs2 = length new2" "taken_to fd (foldl (spy_exec L) (spy_exec L c op) ops) =
       taken_to fd (spy_exec L c op) @ received (zip rs2 new2)"
    using Cons.IH [OF exec_sorted [OF Cons.prems(1)] _ s1(1)] Cons.prems(2) by auto
  have "\<forall>i < length (new1 @ new2). numbered (sequenceNumber st + word_of_nat i) ((new1 @ new2) ! i)"
    using s1(3) s2(4) by (auto simp: nth_Cons add.assoc split: nat.splits)
  moreover have "sequenceNumber st2 = sequenceNumber st + word_of_nat (length (new1 @ new2))"
    using s1(3) s2(3) by (auto simp: add.assoc)
  moreover have "length (rs1 @ rs2) = length (new1 @ new2) \<and>
      taken_to fd (foldl (spy_exec L) c (op # ops)) = taken_to fd c @ received (zip (rs1 @ rs2) (new1 @ new2))"
    using s1(4,5) s2(5,6) by (simp add: received_append)
  ultimately show ?case using s2(1,2) s1(2)
    by (intro exI [of _ st2] exI [of _ "new1 @ new2"] conjI exI [of _ "rs1 @ rs2"]) simp_all
qed simp

lemma connection_numbered:
  assumes "tsorted (clients c)" and "list_all (keeps_client fd) ops"
  shows "\<exists>new. sent_to fd (foldl (spy_exec L) c (OpConnect fd # ops)) = sent_to fd c @ new \<and>
    (\<exists>rs. length rs = length new \<and>
       taken_to fd (foldl (spy_exec L) c (OpConnect fd # ops)) = taken_to fd c @ received (zip rs new)) \<and>
    (\<forall>i < length new. numbered (word_of_nat i) (new ! i)) \<and>
    map_option sequenceNumber (tget fd (clients (foldl (spy_exec L) c (OpConnect fd # ops)))) =
      Some (word_of_nat (length new))"
proof -
  let ?c = "spy_exec L c (OpConnect fd)"
  have "tget fd (clients ?c) = Some new_client_state"
    using assms(1) by (simp add: spyAddClient_def tget_tput)
  from exec_all [OF exec_sorted [OF assms(1)] assms(2) this, of L] obtain st' new rs where
    "tget fd (clients (foldl (spy_exec L) ?c ops)) = Some st'"
    "sent_to fd (foldl (spy_exec L) ?c ops) = sent_to fd ?c @ new"
    "sequenceNumber st' = word_of_nat (length new)"
    "\<forall>i < length new. numbered (word_of_nat i) (new ! i)"
    "length rs = length new" "taken_to fd (foldl (spy_exec L) ?c ops) = taken_to fd ?c @ received (zip rs new)"
    by (auto simp: new_client_state_def)
  moreover have "sent_to fd ?c = sent_to fd c" "taken_to fd ?c = taken_to fd c"
    by (simp_all add: sent_to_def taken_to_def spyAddClient_def)
  ultimately show ?thesis
    by (intro exI [of _ new] conjI exI [of _ rs]) (simp_all del: spy_exec.simps)
qed

text \<open>
  However the threads of the server interleave their critical sections, from a client's
  connection to its removal the messages passed to \<open>send\<close> for it are well-formed and numbered
  consecutively from 0 (modulo \<open>2 ^ 32\<close>): replies and samples share one sequence without gaps or
  repetitions. Its connection carries, in that order, what the kernel took of each: all of it, a prefix
  or nothing, so what the client sees has gaps and cut messages where its buffer was full.
\<close>

theorem spy_sequence_numbers:
  assumes "tsorted (clients c)" and "list_all (keeps_client fd) ops"
  shows "\<exists>new. sent_to fd (foldl (spy_exec L) c (OpConnect fd # ops)) = sent_to fd c @ new \<and>
    (\<exists>rs. length rs = length new \<and>
       taken_to fd (foldl (spy_exec L) c (OpConnect fd # ops)) = taken_to fd c @ received (zip rs new)) \<and>
    (\<forall>i < length new. numbered (word_of_nat i) (new ! i)) \<and>
    map_option sequenceNumber (tget fd (clients (foldl (spy_exec L) c (OpConnect fd # ops)))) =
      Some (word_of_nat (length new))"
  by (rule connection_numbered [OF assms])

theorem spy_sequence_numbers_witness:
  "\<exists>new. sent_to 9 (foldl (spy_exec demo_libm) demo_ctx
      [OpConnect 9, OpEnable 9 True, OpBroadcast [1], OpHandshake 9, OpSend 9 2 0 [], OpRemove 7, OpBroadcast [2, 3]])
      = new \<and> (\<forall>i < length new. numbered (word_of_nat i) (new ! i))"
  using spy_sequence_numbers [OF demo_ctx_sorted, of 9
      "[OpEnable 9 True, OpBroadcast [1], OpHandshake 9, OpSend 9 2 0 [], OpRemove 7, OpBroadcast [2, 3]]" demo_libm]
  by (simp add: sent_to_def demo_ctx_def)

lemma exec_receiver:
  assumes "vrx_params (sp_vrx c) = vrx_params v" and "within_span v (vr_centerFrequencyHz (sp_vrx c))"
  shows "vrx_params (sp_vrx (spy_exec L c op)) = vrx_params v \<and>
    within_span v (vr_centerFrequencyHz (sp_vrx (spy_exec L c op)))"
  using assms vt.in_range_params [of v "sp_vrx c"]
  by (cases op) (auto simp: sendMessage_def Let_def spyBroadcastIq_def spyAddClient_def spyRemoveClient_def
      vt.try_retune_centre split: option.splits prod.splits)

text \<open>Every entry of the output records what the kernel took of the message passed to it.\<close>

definition sends_taken :: "spy_sent list \<Rightarrow> bool" where
  "sends_taken outs \<longleftrightarrow> (\<forall>m \<in> set outs. \<exists>sent. fst (snd (snd m)) = taken sent (fst (snd m)))"

lemma sends_taken_simps [simp]: "sends_taken []"
  "sends_taken (m # ms) \<longleftrightarrow> (\<exists>sent. fst (snd (snd m)) = taken sent (fst (snd m))) \<and> sends_taken ms"
  "sends_taken (ms @ ns) \<longleftrightarrow> sends_taken ms \<and> sends_taken ns"
  by (auto simp: sends_taken_def)

lemma broadcast_loop_taken: "broadcast_loop net k data t = (outs, t') \<Longrightarrow> sends_taken outs"
  by (induction net k data t arbitrary: outs t' rule: broadcast_loop.induct)
    (auto simp: Let_def split: prod.splits if_splits)

lemma exec_net: "sp_net (spy_exec L c op) = sp_net c"
  by (cases op) (auto simp: modify_client_def sendMessage_def Let_def spyBroadcastIq_def spyAddClient_def
      spyRemoveClient_def split: option.splits prod.splits)

lemma exec_taken: "sends_taken (sp_out c) \<Longrightarrow> sends_taken (sp_out (spy_exec L c op))"
  by (cases op) (auto simp: sendMessage_def Let_def spyBroadcastIq_def spyAddClient_def
      spyRemoveClient_def broadcast_loop_taken split: option.splits prod.splits)

lemma taken_received:
  assumes "sends_taken (sp_out c)"
  shows "\<exists>rs. length rs = length (sent_to fd c) \<and> taken_to fd c = received (zip rs (sent_to fd c))"
proof -
  let ?F = "filter (\<lambda>m. fst m = fd)"
  have "\<exists>rs. length rs = length (?F outs) \<and> concat (map (\<lambda>m. fst (snd (snd m))) (?F outs)) =
      received (zip rs (map (\<lambda>m. fst (snd m)) (?F outs)))" if "sends_taken outs" for outs :: "spy_sent list"
    using that
  proof (induction outs)
    case (Cons m outs)
    then obtain rs sent where "length rs = length (?F outs)" "concat (map (\<lambda>m. fst (snd (snd m))) (?F outs)) =
        received (zip rs (map (\<lambda>m. fst (snd m)) (?F outs)))" "fst (snd (snd m)) = taken sent (fst (snd m))" by auto
    then show ?case by (intro exI [of _ "if fst m = fd then sent # rs else rs"]) simp
  qed simp
  from this [OF assms] show ?thesis by (simp add: sent_to_def taken_to_def)
qed

text \<open>
  A command handler acts on the shared state only through the critical sections of its
  own client (so any interleaving of handlers, broadcasts, connections and removals is a sequence of
  sections), sends no sample itself, and, like every such sequence, changes nothing of the receiver
  but its tuning, which stays inside the captured span.
\<close>

theorem spy_handlers_are_sections:
  assumes "within_span v (vr_centerFrequencyHz (sp_vrx c))" and "vrx_params (sp_vrx c) = vrx_params v"
  shows "(\<exists>ops. list_all (own_op fd) ops \<and>
      fst (fst (spyHandleCommand L fd (c, reports) cmd)) = foldl (spy_exec L) c ops) \<and>
    (let w = sp_vrx (foldl (spy_exec L) c all_ops) in
      vrx_params w = vrx_params v \<and> within_span v (vr_centerFrequencyHz w))"
proof
  show "\<exists>ops. list_all (own_op fd) ops \<and>
      fst (fst (spyHandleCommand L fd (c, reports) cmd)) = foldl (spy_exec L) c ops"
    using spyHandleCommand_sections [of L fd "(c, reports)" cmd] by (simp add: sections_def)
  show "let w = sp_vrx (foldl (spy_exec L) c all_ops) in
      vrx_params w = vrx_params v \<and> within_span v (vr_centerFrequencyHz w)"
    using assms by (induction all_ops arbitrary: c) (simp_all add: Let_def exec_receiver del: spy_exec.simps)
qed

theorem spy_handlers_are_sections_witness:
  "within_span demo_vrx (vr_centerFrequencyHz (sp_vrx (foldl (spy_exec demo_libm) demo_ctx
     [OpRetune 97, OpRetune 2000, OpBroadcast [1]])))"
  using spy_handlers_are_sections [of demo_vrx demo_ctx 7 demo_libm "[]" "(3, [])"
      "[OpRetune 97, OpRetune 2000, OpBroadcast [1]]"]
  by (simp add: demo_ctx_def demo_vrx_span Let_def)

section \<open>The handshake\<close>

lemma cast_u32_Fin:
  assumes "0 \<le> x" and "x < 2 ^ 32"
  shows "\<exists>w. cast_u32 (Fin x) = Some w \<and> uint w = \<lfloor>x\<rfloor>"
proof -
  have f: "0 \<le> \<lfloor>x\<rfloor>" "\<lfloor>x\<rfloor> < 2 ^ 32"
    using assms by (simp_all add: floor_less_iff)
  then have "uint (word_of_int \<lfloor>x\<rfloor> :: u32) = \<lfloor>x\<rfloor>"
    by (simp add: uint_word_of_int take_bit_int_eq_self)
  with f assms show ?thesis by (auto simp: cast_u32_def rtrunc_def Let_def)
qed

lemma cast_u32_negative: "x \<le> -1 \<Longrightarrow> cast_u32 (Fin x) = None"
  by (auto simp: cast_u32_def rtrunc_def Let_def le_floor_iff)

lemma lo_hi_exact:
  assumes "widebandCenterHz v = Fin (of_int c)" and "widebandSampleRateHz v = Fin (of_int s)"
    and "\<bar>c\<bar> + \<bar>s\<bar> \<le> 2 ^ 51"
  shows "lo_lo v = Fin (of_int (2 * c - s) / 2)" and "lo_hi v = Fin (of_int (2 * c + s) / 2)"
  using span_exact [OF assms]
  by (simp_all add: lo_lo_def lo_hi_def span_lo_def span_hi_def diff_divide_distrib add_divide_distrib)

lemma hello_records:
  assumes "widebandCenterHz v = Fin (of_int c)" and "widebandSampleRateHz v = Fin (of_int s)"
    and "0 \<le> s" and "s \<le> 2 * c" and "2 * c + s < 2 ^ 33"
    and "getSampleRateHz v = Fin (of_int r)" and "0 \<le> r" and "r < 2 ^ 32"
    and "vr_centerFrequencyHz v = Fin f" and "2 * \<bar>f - of_int c\<bar> \<le> of_int s"
  shows "\<exists>info sync. hello_device_info v = Some info \<and> hello_client_sync v = Some sync \<and>
    uint (maximumSampleRate info) = r \<and> maximumBandwidth info = maximumSampleRate info \<and>
    forcedIqFormat info = formatUint8 \<and>
    uint (minimumFrequency info) = (2 * c - s) div 2 \<and> uint (maximumFrequency info) = (2 * c + s) div 2 \<and>
    minimumIqCenterFrequency sync = minimumFrequency info \<and>
    maximumIqCenterFrequency sync = maximumFrequency info \<and>
    uint (deviceCenterFrequency sync) = c \<and> uint (iqCenterFrequency sync) = \<lfloor>f\<rfloor>"
proof -
  have bound: "\<bar>c\<bar> + \<bar>s\<bar> \<le> 2 ^ 51" using assms(3,4,5) by simp
  note e = lo_hi_exact [OF assms(1,2) bound]
  have q: "0 \<le> rat_of_int (2 * c - s) / 2" "rat_of_int (2 * c - s) / 2 < 2 ^ 32"
    "0 \<le> rat_of_int (2 * c + s) / 2" "rat_of_int (2 * c + s) / 2 < 2 ^ 32"
  proof -
    have "rat_of_int (2 * c + s) < of_int (2 ^ 33)" using assms(5) by (simp only: of_int_less_iff)
    moreover have "rat_of_int (2 * c - s) \<le> of_int (2 * c + s)" "0 \<le> rat_of_int (2 * c - s)"
      using assms(3,4) by (simp_all only: of_int_le_iff of_int_0_le_iff)
    ultimately show "0 \<le> rat_of_int (2 * c - s) / 2" "rat_of_int (2 * c - s) / 2 < 2 ^ 32"
      "0 \<le> rat_of_int (2 * c + s) / 2" "rat_of_int (2 * c + s) / 2 < 2 ^ 32" by simp_all
  qed
  have f: "0 \<le> f" "f < 2 ^ 32"
    using q assms(10) by (auto simp: abs_if field_simps split: if_splits)
  have c: "0 \<le> rat_of_int c" "rat_of_int c < 2 ^ 32"
    using assms(3,4,5) of_int_less_iff [where 'a = rat, of c "2 ^ 32"] by simp_all
  have r: "0 \<le> rat_of_int r" "rat_of_int r < 2 ^ 32"
    using assms(7,8) of_int_less_iff [where 'a = rat, of r "2 ^ 32"] by simp_all
  have d: "\<lfloor>rat_of_int i / 2\<rfloor> = i div 2" for i
    using floor_divide_of_int_eq [where 'a = rat, of i 2] by simp
  obtain wl wh wc wf wr where w:
    "cast_u32 (lo_lo v) = Some wl" "uint wl = (2 * c - s) div 2"
    "cast_u32 (lo_hi v) = Some wh" "uint wh = (2 * c + s) div 2"
    "cast_u32 (widebandCenterHz v) = Some wc" "uint wc = c"
    "cast_u32 (vr_centerFrequencyHz v) = Some wf" "uint wf = \<lfloor>f\<rfloor>"
    "cast_u32 (getSampleRateHz v) = Some wr" "uint wr = r"
    using cast_u32_Fin [OF q(1,2)] cast_u32_Fin [OF q(3,4)] cast_u32_Fin [OF f]
      cast_u32_Fin [OF c] cast_u32_Fin [OF r]
    unfolding d e assms(1,6,9) floor_of_int by blast
  then show ?thesis by (simp add: hello_device_info_def hello_client_sync_def)
qed

lemma handleHello_registered:
  assumes "tsorted (clients c)" and "tget fd (clients c) = Some st" and "4 \<le> length body"
    and "hello_device_info (sp_vrx c) = Some info" and "hello_client_sync (sp_vrx c) = Some sync"
  shows "\<exists>c' pv. handleHello L fd body (c, reports) = ((c', reports @ [Identified pv (drop 4 body)]), None) \<and>
    sent_to fd c' = sent_to fd c @
      [message_bytes kMsgTypeDeviceInfo kStreamTypeStatus (sequenceNumber st) (enc_device_info info),
       message_bytes kMsgTypeClientSync kStreamTypeStatus (sequenceNumber st + 1) (enc_client_sync sync)] \<and>
    tget fd (clients c') = Some (st\<lparr>handshakeDone := True, streamingMode := kStreamTypeIq,
      sequenceNumber := sequenceNumber st + 2\<rparr>)"
proof -
  obtain ws where ws: "unpack32 1 body = Some ws" using unpack32_total [of 1 body] assms(3) by auto
  from unpack32_length [OF this] obtain pv where pv: "unpack32 1 body = Some [pv]"
    using ws by (auto simp: length_Suc_conv)
  let ?c1 = "spy_exec L c (OpHandshake fd)"
  let ?c2 = "spy_exec L ?c1 (OpSend fd kMsgTypeDeviceInfo kStreamTypeStatus (enc_device_info info))"
  let ?c3 = "spy_exec L ?c2 (OpSend fd kMsgTypeClientSync kStreamTypeStatus (enc_client_sync sync))"
  have srt: "tsorted (clients ?c1)" "tsorted (clients ?c2)"
    using assms(1) by (simp_all only: exec_sorted)
  have v: "sp_vrx ?c1 = sp_vrx c" "sp_vrx ?c2 = sp_vrx c"
    by (auto simp: sendMessage_def Let_def split: option.splits)
  have g1: "tget fd (clients ?c1) = Some (st\<lparr>handshakeDone := True, streamingMode := kStreamTypeIq\<rparr>)"
    using assms(1,2) by (simp add: tget_modify)
  then have g2: "tget fd (clients ?c2) = Some (st\<lparr>handshakeDone := True, streamingMode := kStreamTypeIq,
      sequenceNumber := sequenceNumber st + 1\<rparr>)"
    using srt(1) by (simp add: tget_sendMessage)
  then have g3: "tget fd (clients ?c3) = Some (st\<lparr>handshakeDone := True, streamingMode := kStreamTypeIq,
      sequenceNumber := sequenceNumber st + 2\<rparr>)"
    using srt(2) by (simp add: tget_sendMessage)
  have o1: "sent_to fd ?c1 = sent_to fd c" by (simp add: sent_to_def)
  have o2: "sent_to fd ?c2 = sent_to fd c @
      [message_bytes kMsgTypeDeviceInfo kStreamTypeStatus (sequenceNumber st) (enc_device_info info)]"
    using g1 o1 by (simp add: sent_to_sendMessage)
  have o3: "sent_to fd ?c3 = sent_to fd c @
      [message_bytes kMsgTypeDeviceInfo kStreamTypeStatus (sequenceNumber st) (enc_device_info info),
       message_bytes kMsgTypeClientSync kStreamTypeStatus (sequenceNumber st + 1) (enc_client_sync sync)]"
    using g2 o2 by (simp add: sent_to_sendMessage)
  have "handleHello L fd body (c, reports) = ((?c3, reports @ [Identified pv (drop 4 body)]), None)"
    using assms pv v by (simp add: handleHello_def Let_def del: spy_exec.simps)
  with o3 g3 show ?thesis by blast
qed


text \<open>
  On a capture whose lower edge is at -1 Hz or below (its centre lower than half its rate) the
  hello of any client makes the server execute an undefined conversion of a negative \<open>double\<close> to
  \<open>uint32_t\<close>, before it has sent anything.
\<close>

theorem spy_hello_undefined:
  assumes "tget fd (clients c) = Some st" and "4 \<le> length body"
    and "widebandCenterHz (sp_vrx c) = Fin (of_int ctr)" and "widebandSampleRateHz (sp_vrx c) = Fin (of_int s)"
    and "\<bar>ctr\<bar> + \<bar>s\<bar> \<le> 2 ^ 51" and "2 * ctr - s \<le> -2"
  shows "\<exists>t'. handleHello L fd body (c, reports) = (t', Some (Crash UB)) \<and> sp_out (fst t') = sp_out c"
proof -
  obtain ws where ws: "unpack32 1 body = Some ws" using unpack32_total [of 1 body] assms(2) by auto
  from unpack32_length [OF this] obtain pv where pv: "unpack32 1 body = Some [pv]"
    using ws by (auto simp: length_Suc_conv)
  have "rat_of_int (2 * ctr - s) \<le> of_int (-2)" using assms(6) by (simp only: of_int_le_iff)
  then have "rat_of_int (2 * ctr - s) / 2 \<le> -1" by simp
  then have "cast_u32 (lo_lo (sp_vrx c)) = None"
    unfolding lo_hi_exact [OF assms(3-5)] by (rule cast_u32_negative)
  then have "hello_device_info (sp_vrx c) = None" by (simp add: hello_device_info_def split: option.split)
  then show ?thesis using assms pv by (auto simp: handleHello_def Let_def)
qed


theorem spy_hello_undefined_witness:
  "\<exists>t'. handleHello demo_libm 5 [1, 0, 0, 0]
      (demo_ctx\<lparr>sp_vrx := demo_vrx\<lparr>widebandCenterHz := Fin 1\<rparr>\<rparr>, []) = (t', Some (Crash UB))"
  using spy_hello_undefined [of 5 "demo_ctx\<lparr>sp_vrx := demo_vrx\<lparr>widebandCenterHz := Fin 1\<rparr>\<rparr>"
      new_client_state "[1, 0, 0, 0]" 1 8 demo_libm "[]"]
  by (simp add: demo_ctx_def tget_def) blast

end
