(* ===== verification/SpyThreads.thy ===== *)
theory SpyThreads
  imports SpyServer ServerThreads
begin

text \<open>
  The threads of the SpyServer endpoint (\<open>src/spyserver/server.cpp\<close>): the accept thread, one read thread
  per client, the streaming thread that broadcasts, and the thread that calls \<open>stop\<close>, interleaved at the
  granularity of \<open>clientsMutex_\<close>. A reply is sent while the mutex is held, by a \<open>send\<close> that may block, so
  the start and the return of that \<open>send\<close> are separate steps and the mutex is part of the state. The server
  simulates the abstract server of \<open>ServerThreads\<close>.
\<close>

section \<open>Read threads\<close>

text \<open>
  What is left to do of the command a read thread is handling: the critical sections, and the unlocked
  retune, in the order of the handlers.
\<close>

datatype task =
    DoHandshake
  | DoDeviceInfo
  | DoClientSync
  | DoPong
  | DoMode u32
  | DoEnable bool
  | DoRetune u32

definition tasks_of :: "u32 \<times> bytes \<Rightarrow> task list" where
  "tasks_of cmd =
     (if fst cmd = cmdHello then
        (if length (snd cmd) < 4 then [] else [DoHandshake, DoDeviceInfo, DoClientSync])
      else if fst cmd = cmdSetSetting then
        (if length (snd cmd) < 8 then []
         else case unpack32 2 (snd cmd) of
           Some [setting, val] \<Rightarrow> (case setting_of setting of
               StreamingMode \<Rightarrow> [DoMode val]
             | StreamingEnabled \<Rightarrow> [DoEnable (val \<noteq> 0)]
             | IqFrequency \<Rightarrow> [DoRetune val]
             | _ \<Rightarrow> [])
         | _ \<Rightarrow> [])
      else if fst cmd = cmdPing then [DoPong]
      else [])"

text \<open>The section a task runs; \<open>None\<close> when it converts a frequency out of range, which is undefined.\<close>

fun task_op :: "int \<Rightarrow> vrx \<Rightarrow> task \<Rightarrow> spy_op option" where
  "task_op fd v DoHandshake = Some (OpHandshake fd)"
| "task_op fd v DoDeviceInfo = map_option
     (\<lambda>info. OpSend fd kMsgTypeDeviceInfo kStreamTypeStatus (enc_device_info info)) (hello_device_info v)"
| "task_op fd v DoClientSync = map_option
     (\<lambda>sync. OpSend fd kMsgTypeClientSync kStreamTypeStatus (enc_client_sync sync)) (hello_client_sync v)"
| "task_op fd v DoPong = Some (OpSend fd kMsgTypePong kStreamTypeStatus [])"
| "task_op fd v (DoMode val) = Some (OpMode fd val)"
| "task_op fd v (DoEnable b) = Some (OpEnable fd b)"
| "task_op fd v (DoRetune f) = Some (OpRetune f)"

fun is_send :: "spy_op \<Rightarrow> bool" where
  "is_send (OpSend fd mt st body) = True"
| "is_send _ = False"

fun takes_lock :: "spy_op \<Rightarrow> bool" where
  "takes_lock (OpRetune f) = False"
| "takes_lock _ = True"

text \<open>
  Where a read thread is: before \<open>recv\<close>, between two steps of the command loop (with the tasks of the
  current command and the unparsed rest of the buffer), inside the \<open>send\<close> of a reply, after its loop,
  between \<open>removeClient\<close> and \<open>close\<close>, or past an undefined conversion.
\<close>

datatype reader_pc =
    Recv bytes
  | Running "task list" bytes
  | Sending "task list" bytes
  | Leaving
  | Removed
  | UndefinedConversion

text \<open>
  The steps of the read thread of client \<open>fd\<close> on the shared state, the holder of \<open>clientsMutex_\<close> and its own
  position. Every client operation waits for the mutex; a reply keeps it until its \<open>send\<close> returns.
\<close>

inductive reader_step :: "libm \<Rightarrow> int \<Rightarrow> spy_ctx \<times> int option \<times> reader_pc \<Rightarrow> spy_ctx \<times> int option \<times> reader_pc \<Rightarrow> bool"
  for L fd where
  recv_bytes: "chunk \<noteq> [] \<Longrightarrow> length chunk \<le> 4096 \<Longrightarrow>
     reader_step L fd (c, lk, Recv b) (c, lk, Running [] (b @ chunk))"
| recv_end: "reader_step L fd (c, lk, Recv b) (c, lk, Leaving)"
| parse_more: "next_spy b = NeedMore \<Longrightarrow> reader_step L fd (c, lk, Running [] b) (c, lk, Recv b)"
| parse_command: "next_spy b = Frame (Command cmd) n \<Longrightarrow>
     reader_step L fd (c, lk, Running [] b) (c, lk, Running (tasks_of cmd) (drop n b))"
| parse_oversized: "next_spy b = Frame (Oversized k) n \<Longrightarrow>
     reader_step L fd (c, lk, Running [] b) (c, lk, Leaving)"
| run_section: "task_op fd (sp_vrx c) t = Some op \<Longrightarrow> \<not> (is_send op \<and> tget fd (clients c) \<noteq> None) \<Longrightarrow>
     takes_lock op \<longrightarrow> lk = None \<Longrightarrow>
     reader_step L fd (c, lk, Running (t # ts) b)
       (spy_exec L c op, lk, Running (if t = DoHandshake \<and> tget fd (clients c) = None then [] else ts) b)"
| send_start: "task_op fd (sp_vrx c) t = Some op \<Longrightarrow> is_send op \<Longrightarrow> tget fd (clients c) \<noteq> None \<Longrightarrow>
     reader_step L fd (c, None, Running (t # ts) b) (spy_exec L c op, Some fd, Sending ts b)"
| send_return: "reader_step L fd (c, Some fd, Sending ts b) (c, None, Running ts b)"
| undefined_conversion: "task_op fd (sp_vrx c) t = None \<Longrightarrow>
     reader_step L fd (c, lk, Running (t # ts) b) (c, lk, UndefinedConversion)"
| remove_client: "reader_step L fd (c, None, Leaving) (spy_exec L c (OpRemove fd), None, Removed)"

inductive_cases reader_stepE: "reader_step L fd p q"

section \<open>The server\<close>

record spy_server =
  ss_ctx :: spy_ctx
  ss_lock :: "int option"
  ss_running :: bool
  ss_accept :: accept_pc
  ss_readers :: "(int \<times> reader_pc) list"
  ss_stop :: stop_pc
  ss_shut :: "int list"      \<comment> \<open>the sockets \<open>stop\<close> has shut down\<close>

definition spy_open_fds :: "spy_server \<Rightarrow> int list" where
  "spy_open_fds s = accept_fds (ss_accept s) @ map fst (ss_readers s)"

text \<open>
  \<open>accept\<close> returns a descriptor that is not open, as long as the listening socket is, which \<open>stop\<close> closes
  between clearing \<open>running_\<close> and joining; \<open>OtherEndpoint\<close> is the rtl_tcp server of the same receiver, whose
  clients retune it.
\<close>

inductive spy_step :: "libm \<Rightarrow> server_actor \<Rightarrow> spy_server \<Rightarrow> spy_server \<Rightarrow> bool" for L where
  check_running: "ss_accept s = AtCheck \<Longrightarrow>
     spy_step L AcceptThread s (s\<lparr>ss_accept := (if ss_running s then InAccept else AcceptDone)\<rparr>)"
| accept_fails: "ss_accept s = InAccept \<Longrightarrow> spy_step L AcceptThread s (s\<lparr>ss_accept := AtCheck\<rparr>)"
| accept_client: "ss_accept s = InAccept \<Longrightarrow> ss_stop s \<in> {NotStopping, Unlistening} \<Longrightarrow> fd \<notin> set (spy_open_fds s) \<Longrightarrow>
     spy_step L AcceptThread s (s\<lparr>ss_accept := Accepted_fd fd\<rparr>)"
| register_client: "ss_accept s = Accepted_fd fd \<Longrightarrow> ss_lock s = None \<Longrightarrow>
     spy_step L AcceptThread s (s\<lparr>ss_accept := Registered_fd fd, ss_ctx := spy_exec L (ss_ctx s) (OpConnect fd)\<rparr>)"
| spawn_reader: "ss_accept s = Registered_fd fd \<Longrightarrow>
     spy_step L AcceptThread s (s\<lparr>ss_accept := AtCheck, ss_readers := (fd, Recv []) # ss_readers s\<rparr>)"
| reader: "ss_readers s = us @ (fd, pc) # ws \<Longrightarrow>
     reader_step L fd (ss_ctx s, ss_lock s, pc) (c', lk', pc') \<Longrightarrow>
     spy_step L (ReadThread fd) s (s\<lparr>ss_ctx := c', ss_lock := lk', ss_readers := us @ (fd, pc') # ws\<rparr>)"
| close_client: "ss_readers s = us @ (fd, Removed) # ws \<Longrightarrow>
     spy_step L (ReadThread fd) s (s\<lparr>ss_readers := us @ ws\<rparr>)"
| broadcast: "ss_lock s = None \<Longrightarrow>
     spy_step L StreamThread s (s\<lparr>ss_ctx := spy_exec L (ss_ctx s) (OpBroadcast data)\<rparr>)"
| other_retune: "spy_step L OtherEndpoint s (s\<lparr>ss_ctx := spy_exec L (ss_ctx s) (OpRetune f)\<rparr>)"
| stop_begins: "ss_stop s = NotStopping \<Longrightarrow>
     spy_step L StopThread s (s\<lparr>ss_running := False, ss_stop := Unlistening\<rparr>)"
| stop_unlistens: "ss_stop s = Unlistening \<Longrightarrow> spy_step L StopThread s (s\<lparr>ss_stop := Joining\<rparr>)"
| stop_joined: "ss_stop s = Joining \<Longrightarrow> ss_accept s = AcceptDone \<Longrightarrow>
     spy_step L StopThread s (s\<lparr>ss_stop := Snapshot\<rparr>)"
| stop_snapshot: "ss_stop s = Snapshot \<Longrightarrow> ss_lock s = None \<Longrightarrow>
     spy_step L StopThread s (s\<lparr>ss_stop := ShuttingDown (map fst (clients (ss_ctx s)))\<rparr>)"
| stop_shutdown: "ss_stop s = ShuttingDown (fd # fds) \<Longrightarrow>
     spy_step L StopThread s (s\<lparr>ss_stop := ShuttingDown fds, ss_shut := fd # ss_shut s\<rparr>)"
| stop_returns: "ss_stop s = ShuttingDown [] \<Longrightarrow> spy_step L StopThread s (s\<lparr>ss_stop := Stopped\<rparr>)"

text \<open>The shared state when the server starts; \<open>net\<close> gives the results its calls of \<open>send\<close> will have.\<close>

abbreviation fresh_ctx :: "(nat \<Rightarrow> send_result) \<Rightarrow> vrx \<Rightarrow> spy_ctx" where
  "fresh_ctx net v \<equiv> \<lparr>sp_vrx = v, clients = [], sp_out = [], sp_net = net\<rparr>"

definition spy_started :: "(nat \<Rightarrow> send_result) \<Rightarrow> vrx \<Rightarrow> spy_server" where
  "spy_started net v = \<lparr>ss_ctx = fresh_ctx net v, ss_lock = None, ss_running = True,
     ss_accept = AtCheck, ss_readers = [], ss_stop = NotStopping, ss_shut = []\<rparr>"

inductive spy_reachable :: "libm \<Rightarrow> vrx \<Rightarrow> spy_server \<Rightarrow> bool" for L v where
  spy_start: "spy_reachable L v (spy_started net v)"
| spy_next: "spy_reachable L v s \<Longrightarrow> spy_step L a s s' \<Longrightarrow> spy_reachable L v s'"

inductive_cases spy_stepE: "spy_step L a s s'"

section \<open>One thread alone\<close>

lemma unpack1_total: "4 \<le> length b \<Longrightarrow> \<exists>w. unpack32 1 b = Some [w]"
  using unpack32_total [of 1 b] unpack32_length [of 1 b] by (fastforce simp: length_Suc_conv)

lemma unpack2_total: "8 \<le> length b \<Longrightarrow> \<exists>x y. unpack32 2 b = Some [x, y]"
  by (cases b rule: unpack2_cases) auto

lemma send_absent: "tget fd (clients c) = None \<Longrightarrow> sendMessage fd mt st body c = c"
  by (simp add: sendMessage_def)

text \<open>A task that ends in its section or in a returned \<open>send\<close>, with the mutex free before and after.\<close>

lemma task_runs:
  assumes "task_op fd (sp_vrx c) t = Some op" and "t = DoHandshake \<longrightarrow> tget fd (clients c) \<noteq> None"
  shows "(reader_step L fd)\<^sup>*\<^sup>* (c, None, Running (t # ts) b) (spy_exec L c op, None, Running ts b)"
proof (cases "is_send op \<and> tget fd (clients c) \<noteq> None")
  case True
  then have "reader_step L fd (c, None, Running (t # ts) b) (spy_exec L c op, Some fd, Sending ts b)"
    using assms(1) by (blast intro: send_start)
  with send_return show ?thesis by (meson converse_rtranclp_into_rtranclp r_into_rtranclp)
next
  case False
  from run_section [OF assms(1) False, of None L ts b] assms(2) show ?thesis by auto
qed

definition after_handler :: "spy_stop option \<Rightarrow> bytes \<Rightarrow> reader_pc" where
  "after_handler v b = (if v = None then Running [] b else UndefinedConversion)"

lemma undefined_runs: "task_op fd (sp_vrx c) t = None \<Longrightarrow>
    (reader_step L fd)\<^sup>*\<^sup>* (c, None, Running (t # ts) b) (c, None, UndefinedConversion)"
  by (simp add: r_into_rtranclp undefined_conversion)

lemma hello_runs:
  assumes "handleHello L fd body (c, rep) = ((c', rep'), v)"
  shows "(reader_step L fd)\<^sup>*\<^sup>* (c, None, Running (tasks_of (cmdHello, body)) b) (c', None, after_handler v b)"
proof (cases "length body < 4")
  case True
  then show ?thesis using assms by (simp add: handleHello_def tasks_of_def after_handler_def)
next
  case False
  then obtain pv where pv: "unpack32 1 body = Some [pv]" using unpack1_total [of body] by auto
  have t: "tasks_of (cmdHello, body) = [DoHandshake, DoDeviceInfo, DoClientSync]"
    using False by (simp add: tasks_of_def)
  show ?thesis
  proof (cases "tget fd (clients c) = None")
    case True
    then have "c' = c" "v = None" using assms False pv by (simp_all add: handleHello_def Let_def)
    moreover have "reader_step L fd (c, None, Running (tasks_of (cmdHello, body)) b) (c, None, Running [] b)"
      using run_section [of fd c DoHandshake "OpHandshake fd" None L "[DoDeviceInfo, DoClientSync]" b] True
      by (simp add: t modify_client_def)
    ultimately show ?thesis by (simp add: after_handler_def r_into_rtranclp)
  next
    case nonempty: False
    then obtain st where reg: "tget fd (clients c) = Some st" by auto
    let ?c1 = "spy_exec L c (OpHandshake fd)"
    have r1: "(reader_step L fd)\<^sup>*\<^sup>* (c, None, Running (tasks_of (cmdHello, body)) b) (?c1, None, Running [DoDeviceInfo, DoClientSync] b)"
      unfolding t by (rule task_runs) (use reg in auto)
    show ?thesis
    proof (cases "hello_device_info (sp_vrx ?c1)")
      case None
      then have "c' = ?c1" "v = Some (Crash UB)" using assms False pv reg
        by (simp_all add: handleHello_def Let_def del: spy_exec.simps)
      with r1 undefined_runs [of fd ?c1 DoDeviceInfo L "[DoClientSync]" b] None show ?thesis
        by (simp add: after_handler_def)
    next
      case (Some info)
      let ?op = "OpSend fd kMsgTypeDeviceInfo kStreamTypeStatus (enc_device_info info)"
      let ?c2 = "spy_exec L ?c1 ?op"
      have "(reader_step L fd)\<^sup>*\<^sup>* (?c1, None, Running [DoDeviceInfo, DoClientSync] b) (?c2, None, Running [DoClientSync] b)"
        by (rule task_runs) (simp_all add: Some del: spy_exec.simps)
      with r1 have r2: "(reader_step L fd)\<^sup>*\<^sup>* (c, None, Running (tasks_of (cmdHello, body)) b) (?c2, None, Running [DoClientSync] b)"
        by (rule rtranclp_trans)
      show ?thesis
      proof (cases "hello_client_sync (sp_vrx ?c2)")
        case None
        then have "c' = ?c2" "v = Some (Crash UB)" using assms False pv reg Some
          by (simp_all add: handleHello_def Let_def del: spy_exec.simps)
        with r2 undefined_runs [of fd ?c2 DoClientSync L "[]" b] None show ?thesis
          by (simp add: after_handler_def del: spy_exec.simps)
      next
        case sync: (Some sync)
        have "(reader_step L fd)\<^sup>*\<^sup>* (?c2, None, Running [DoClientSync] b)
            (spy_exec L ?c2 (OpSend fd kMsgTypeClientSync kStreamTypeStatus (enc_client_sync sync)), None, Running [] b)"
          by (rule task_runs) (simp_all add: sync del: spy_exec.simps)
        moreover have "c' = spy_exec L ?c2 (OpSend fd kMsgTypeClientSync kStreamTypeStatus (enc_client_sync sync))" "v = None"
          using assms False pv reg Some sync by (simp_all add: handleHello_def Let_def del: spy_exec.simps)
        ultimately show ?thesis using r2 by (simp add: after_handler_def del: spy_exec.simps)
      qed
    qed
  qed
qed

lemma setting_runs:
  assumes "handleSetSetting L fd body (c, rep) = ((c', rep'), v)"
  shows "(reader_step L fd)\<^sup>*\<^sup>* (c, None, Running (tasks_of (cmdSetSetting, body)) b) (c', None, after_handler v b)"
proof (cases "length body < 8")
  case True
  then show ?thesis using assms by (simp add: handleSetSetting_def tasks_of_def after_handler_def cmdHello_def cmdSetSetting_def)
next
  case False
  then obtain setting val where u: "unpack32 2 body = Some [setting, val]" using unpack2_total [of body] by auto
  have one: "(reader_step L fd)\<^sup>*\<^sup>* (c, None, Running [t] b) (spy_exec L c op, None, Running [] b)"
    if "task_op fd (sp_vrx c) t = Some op" "t \<noteq> DoHandshake" for t op
    using task_runs [OF that(1), of L "[]" b] that(2) by simp
  show ?thesis using assms False u
      one [of "DoMode val" "OpMode fd val"] one [of "DoEnable (val \<noteq> 0)" "OpEnable fd (val \<noteq> 0)"]
      one [of "DoRetune val" "OpRetune val"]
    by (auto simp: handleSetSetting_def tasks_of_def after_handler_def cmdHello_def cmdSetSetting_def
        split: setting_type.splits)
qed

lemma command_runs:
  assumes "spyHandleCommand L fd (c, rep) cmd = ((c', rep'), v)"
  shows "(reader_step L fd)\<^sup>*\<^sup>* (c, None, Running (tasks_of cmd) b) (c', None, after_handler v b)"
proof -
  obtain ty body where cmd: "cmd = (ty, body)" by (cases cmd)
  consider "ty = cmdHello" | "ty = cmdSetSetting" "ty \<noteq> cmdHello" | "ty = cmdPing" "ty \<noteq> cmdHello" "ty \<noteq> cmdSetSetting"
    | "ty \<noteq> cmdHello" "ty \<noteq> cmdSetSetting" "ty \<noteq> cmdPing" by blast
  then show ?thesis
  proof cases
    case 1
    then show ?thesis using assms hello_runs by (simp add: spyHandleCommand_def cmd)
  next
    case 2
    then show ?thesis using assms setting_runs by (simp add: spyHandleCommand_def cmd)
  next
    case 3
    then have "c' = spy_exec L c (OpSend fd kMsgTypePong kStreamTypeStatus [])" "v = None" "tasks_of cmd = [DoPong]"
      using assms by (simp_all add: spyHandleCommand_def cmd tasks_of_def)
    then show ?thesis
      using task_runs [of fd c DoPong "OpSend fd kMsgTypePong kStreamTypeStatus []" L "[]" b] by (simp add: after_handler_def)
  next
    case 4
    then show ?thesis using assms by (simp add: spyHandleCommand_def cmd tasks_of_def after_handler_def)
  qed
qed

text \<open>The whole loop over a buffer.\<close>

definition after_loop :: "bytes \<times> spy_stop option \<Rightarrow> reader_pc" where
  "after_loop r = (case r of (b, None) \<Rightarrow> Recv b | (b, Some ProtocolError) \<Rightarrow> Leaving
     | (b, Some (Crash e)) \<Rightarrow> UndefinedConversion)"

lemma hello_crash: "snd (handleHello L fd body t) \<noteq> Some ProtocolError"
  unfolding handleHello_def Let_def
  by (cases t, cases "unpack32 1 body") (simp_all del: spy_exec.simps split: list.split option.split)

lemma setting_crash: "snd (handleSetSetting L fd body t) \<noteq> Some ProtocolError"
  unfolding handleSetSetting_def
  by (cases t, cases "unpack32 2 body") (simp_all del: spy_exec.simps split: list.split setting_type.split)

lemma handler_crash: "snd (spyHandleCommand L fd t cmd) \<noteq> Some ProtocolError"
  by (simp add: spyHandleCommand_def hello_crash setting_crash del: spy_exec.simps)

lemma loop_runs:
  assumes "drain next_spy (spy_handle L fd) (c, rep) b = ((c', rep'), b', v)"
  shows "(reader_step L fd)\<^sup>*\<^sup>* (c, None, Running [] b) (c', None, after_loop (b', v))"
  using assms
proof (induction "length b" arbitrary: c rep b rule: less_induct)
  case less
  show ?case
  proof (cases "next_spy b")
    case NeedMore
    then show ?thesis using less.prems
      by (auto simp: spy.drain_NeedMore after_loop_def intro: parse_more)
  next
    case (Abort e)
    then show ?thesis by (simp add: next_spy_never_aborts)
  next
    case (Frame f n)
    note bound = spy.frame_bound [OF Frame]
    show ?thesis
    proof (cases f)
      case (Oversized k)
      with Frame have "reader_step L fd (c, None, Running [] b) (c, None, Leaving)" by (blast intro: parse_oversized)
      then show ?thesis using less.prems Oversized by (auto simp: spy.drain_Frame [OF Frame] after_loop_def)
    next
      case (Command cmd)
      obtain c1 rep1 v1 where h: "spyHandleCommand L fd (c, rep) cmd = ((c1, rep1), v1)" by (metis prod.exhaust)
      have p: "reader_step L fd (c, None, Running [] b) (c, None, Running (tasks_of cmd) (drop n b))"
        using Frame Command by (auto intro: parse_command)
      have r: "(reader_step L fd)\<^sup>*\<^sup>* (c, None, Running [] b) (c1, None, after_handler v1 (drop n b))"
        by (rule converse_rtranclp_into_rtranclp [of "reader_step L fd", OF p command_runs [OF h]])
      show ?thesis
      proof (cases v1)
        case None
        then have "drain next_spy (spy_handle L fd) (c1, rep1) (drop n b) = ((c', rep'), b', v)"
          using less.prems h Command by (simp add: spy.drain_Frame [OF Frame])
        from less.hyps [OF _ this] bound r None show ?thesis
          by (auto simp: after_handler_def intro: rtranclp_trans)
      next
        case (Some e)
        then obtain x where "e = Crash x" using handler_crash [of L fd "(c, rep)" cmd] h by (cases e) auto
        then show ?thesis using less.prems h Command Some r
          by (auto simp: spy.drain_Frame [OF Frame] after_handler_def after_loop_def)
      qed
    qed
  qed
qed

text \<open>
  Property C17: the interleaved model and the sequential one agree: a read thread that finds the mutex free
  and runs without the others gets from \<open>recv\<close> to its next \<open>recv\<close> (or to its end) with exactly the
  effect of the functional read loop on the received chunk.
\<close>

theorem reader_alone:
  assumes "spy_recv L fd ((c, rep), b, None) chunk = ((c', rep'), b', v)"
    and "chunk \<noteq> []" and "length chunk \<le> 4096"
  shows "(reader_step L fd)\<^sup>*\<^sup>* (c, None, Recv b) (c', None, after_loop (b', v))"
proof -
  obtain c1 rep1 b1 v1 where d: "drain next_spy (spy_handle L fd) (c, rep) (b @ chunk) = ((c1, rep1), b1, v1)"
    by (metis prod.exhaust)
  have "view ((c', rep'), b', v) = view ((c1, rep1), b1, v1)"
    using spy_loop_drain [of L fd "(c, rep)" "b @ chunk" 0] assms(1) d by simp
  then have "c' = c1" "v = v1" "v = None \<longrightarrow> b' = b1" by (auto simp: view_def split: if_splits)
  moreover from this have "after_loop (b', v) = after_loop (b1, v1)"
    by (cases v) (auto simp: after_loop_def split: spy_stop.splits)
  moreover have "reader_step L fd (c, None, Recv b) (c, None, Running [] (b @ chunk))"
    using assms(2,3) by (rule recv_bytes)
  ultimately show ?thesis using loop_runs [OF d] by (simp add: converse_rtranclp_into_rtranclp)
qed

section \<open>The state of a thread and the table\<close>

text \<open>What a thread keeps in its buffer, and what it may still do.\<close>

fun pc_ok :: "reader_pc \<Rightarrow> bool" where
  "pc_ok (Recv b) \<longleftrightarrow> length b < 264"
| "pc_ok (Running ts b) \<longleftrightarrow> length b < 264 + 4096"
| "pc_ok (Sending ts b) \<longleftrightarrow> length b < 264 + 4096"
| "pc_ok _ \<longleftrightarrow> True"

fun is_sending :: "reader_pc \<Rightarrow> bool" where
  "is_sending (Sending ts b) = True"
| "is_sending _ = False"

definition client_keys :: "spy_ctx \<Rightarrow> int set" where
  "client_keys c = fst ` set (clients c)"

text \<open>What the sections do to the table's keys and to the receiver.\<close>

lemma client_keys_modify: "client_keys (modify_client fd f c) = client_keys c"
proof (cases "tget fd (clients c)")
  case (Some st)
  then have "fd \<in> fst ` set (clients c)" using tget_None_iff [of fd "clients c"] by simp
  with Some show ?thesis by (simp add: modify_client_def client_keys_def insert_absorb)
qed (simp add: modify_client_def)

lemma client_keys_send: "client_keys (sendMessage fd mt st body c) = client_keys c"
proof (cases "tget fd (clients c)")
  case (Some cl)
  then have "fd \<in> fst ` set (clients c)" using tget_None_iff [of fd "clients c"] by simp
  with Some show ?thesis by (simp add: sendMessage_def Let_def client_keys_def insert_absorb)
qed (simp add: sendMessage_def)

lemma client_keys_broadcast: "client_keys (spyBroadcastIq data c) = client_keys c"
proof -
  obtain outs t' where b: "broadcast_loop (sp_net c) (length (sp_out c)) data (clients c) = (outs, t')"
    by fastforce
  from broadcast_loop_keys [OF this] have "fst ` set t' = fst ` set (clients c)" by (metis set_map)
  with b show ?thesis by (simp add: spyBroadcastIq_def client_keys_def)
qed

lemma client_keys_add: "client_keys (spyAddClient fd c) = insert fd (client_keys c)"
  "client_keys (c\<lparr>sp_vrx := v\<rparr>) = client_keys c"
  by (simp_all add: spyAddClient_def client_keys_def)

lemma client_keys_exec: "client_keys (spy_exec L c op) = (case op of OpConnect fd \<Rightarrow> insert fd (client_keys c)
    | OpRemove fd \<Rightarrow> client_keys c - {fd} | _ \<Rightarrow> client_keys c)"
proof (cases op)
  case (OpRemove fd)
  have "fst ` set (tdel fd (clients c)) = fst ` set (clients c) - {fd}" by (force simp: tdel_def)
  then show ?thesis by (simp add: OpRemove spyRemoveClient_def client_keys_def)
qed (simp_all add: client_keys_modify client_keys_send client_keys_broadcast client_keys_add)

lemma next_spy_short_buffer: "next_spy b = NeedMore \<Longrightarrow> length b < 264"
  by (cases b rule: unpack2_cases) (auto simp: next_spy_header split: if_splits)

lemma task_op_keys: "task_op fd v t = Some op \<Longrightarrow> client_keys (spy_exec L c op) = client_keys c"
  by (cases t) (auto simp: client_keys_exec simp del: spy_exec.simps)

section \<open>The server is an abstract server\<close>

definition spy_life :: "spy_server \<Rightarrow> lifecycle" where
  "spy_life s = \<lparr>lc_running = ss_running s, lc_accept = ss_accept s, lc_stop = ss_stop s, lc_shut = ss_shut s,
     lc_table = client_keys (ss_ctx s), lc_threads = map (\<lambda>(fd, pc). (fd, pc = Removed)) (ss_readers s)\<rparr>"

lemma spy_life_simps [simp]:
  "lc_running (spy_life s) = ss_running s" "lc_accept (spy_life s) = ss_accept s" "lc_stop (spy_life s) = ss_stop s"
  "lc_shut (spy_life s) = ss_shut s" "lc_table (spy_life s) = client_keys (ss_ctx s)"
  "lc_threads (spy_life s) = map (\<lambda>(fd, pc). (fd, pc = Removed)) (ss_readers s)"
  by (simp_all add: spy_life_def)

lemma open_fds_spy_life: "open_fds (spy_life s) = spy_open_fds s"
  by (simp add: open_fds_def spy_open_fds_def comp_def split_def)

lemma reader_step_life:
  assumes "reader_step L fd (c, lk, pc) (c', lk', pc')"
  shows "pc \<noteq> Removed \<and> client_keys c' = (if pc' = Removed then client_keys c - {fd} else client_keys c)"
  using assms
proof (cases rule: reader_step.cases)
  case (run_section t op ts b)
  then show ?thesis using task_op_keys [of fd "sp_vrx c" t] by (simp del: spy_exec.simps)
next
  case (send_start t op ts b)
  then show ?thesis using task_op_keys [of fd "sp_vrx c" t] by (simp del: spy_exec.simps)
qed (simp_all add: client_keys_exec del: spy_exec.simps)

lemma spy_simulates: "spy_step L a s s' \<Longrightarrow> life_step (spy_life s) (spy_life s')"
proof (induction rule: spy_step.induct)
  case (check_running s)
  then show ?case using life_check [of "spy_life s"] by (simp add: spy_life_def)
next
  case (accept_fails s)
  then show ?case using life_accept_fails [of "spy_life s"] by (simp add: spy_life_def)
next
  case (accept_client s fd)
  then show ?case using life_accept [of "spy_life s" fd] by (simp add: spy_life_def open_fds_spy_life [symmetric])
next
  case (register_client s fd)
  then show ?case using life_register [of "spy_life s" fd]
    by (simp add: spy_life_def client_keys_exec del: spy_exec.simps)
next
  case (spawn_reader s fd)
  then show ?case using life_spawn [of "spy_life s" fd] by (simp add: spy_life_def)
next
  case (reader s us fd pc ws c' lk' pc')
  note r = reader_step_life [OF reader(2)]
  show ?case
  proof (cases "pc' = Removed")
    case True
    then show ?thesis using reader(1) r
        life_remove [of "spy_life s" "map (\<lambda>(fd, pc). (fd, pc = Removed)) us" fd
          "map (\<lambda>(fd, pc). (fd, pc = Removed)) ws"] by (simp add: spy_life_def)
  next
    case False
    then show ?thesis using reader(1) r life_idle [of "spy_life s"] by (simp add: spy_life_def)
  qed
next
  case (close_client s us fd ws)
  then show ?case using life_close [of "spy_life s" "map (\<lambda>(fd, pc). (fd, pc = Removed)) us" fd
      "map (\<lambda>(fd, pc). (fd, pc = Removed)) ws"] by (simp add: spy_life_def)
next
  case (broadcast s data)
  then show ?case using life_idle [of "spy_life s"] by (simp add: spy_life_def client_keys_exec del: spy_exec.simps)
next
  case (other_retune s f)
  then show ?case using life_idle [of "spy_life s"] by (simp add: spy_life_def client_keys_exec del: spy_exec.simps)
next
  case (stop_begins s)
  then show ?case using life_stop_begins [of "spy_life s"] by (simp add: spy_life_def)
next
  case (stop_unlistens s)
  then show ?case using life_unlistens [of "spy_life s"] by (simp add: spy_life_def)
next
  case (stop_joined s)
  then show ?case using life_joined [of "spy_life s"] by (simp add: spy_life_def)
next
  case (stop_snapshot s)
  then have "lc_stop (spy_life s) = Snapshot" "set (map fst (clients (ss_ctx s))) = lc_table (spy_life s)"
    by (simp_all add: client_keys_def)
  from life_snapshot [OF this] show ?case by (simp add: spy_life_def)
next
  case (stop_shutdown s fd fds)
  then show ?case using life_shutdown [of "spy_life s" fd fds] by (simp add: spy_life_def)
next
  case (stop_returns s)
  then show ?case using life_returns [of "spy_life s"] by (simp add: spy_life_def)
qed

definition spy_any_step :: "libm \<Rightarrow> spy_server \<Rightarrow> spy_server \<Rightarrow> bool" where
  "spy_any_step L s s' \<longleftrightarrow> (\<exists>a. spy_step L a s s')"

interpretation spy_srv: server_threads "spy_any_step L" "spy_started net v" spy_life for L net v
proof unfold_locales
  show "spy_life (spy_started net v) = life_initial"
    by (simp add: spy_life_def spy_started_def life_initial_def client_keys_def)
  show "life_step (spy_life s) (spy_life s')" if "spy_any_step L s s'" for s s'
    using that spy_simulates by (auto simp: spy_any_step_def)
qed

lemma spy_reachable_steps: "spy_reachable L v s \<Longrightarrow> \<exists>net. (spy_any_step L)\<^sup>*\<^sup>* (spy_started net v) s"
  by (induction rule: spy_reachable.induct) (auto simp: spy_any_step_def intro: rtranclp.rtrancl_into_rtrancl)

lemma spy_life_reachable: "spy_reachable L v s \<Longrightarrow> life_inv (spy_life s)"
  using spy_reachable_steps spy_srv.reachable_inv by blast

lemma spy_open_distinct: "spy_reachable L v s \<Longrightarrow> distinct (spy_open_fds s)"
  using spy_life_reachable [of L v s] by (simp add: life_inv_def open_fds_spy_life)

section \<open>Invariant of the threads\<close>

definition spy_inv :: "vrx \<Rightarrow> spy_server \<Rightarrow> bool" where
  "spy_inv v s \<longleftrightarrow> tsorted (clients (ss_ctx s)) \<and>
     (\<forall>r \<in> set (ss_readers s). pc_ok (snd r) \<and> (is_sending (snd r) \<longleftrightarrow> ss_lock s = Some (fst r))) \<and>
     (\<forall>fd. ss_lock s = Some fd \<longrightarrow> fd \<in> fst ` set (ss_readers s)) \<and>
     vrx_params (sp_vrx (ss_ctx s)) = vrx_params v \<and> within_span v (vr_centerFrequencyHz (sp_vrx (ss_ctx s)))"

text \<open>One step of a read thread, as far as the invariant sees it.\<close>

lemma reader_step_keeps:
  assumes "reader_step L fd (c, lk, pc) (c', lk', pc')" and "tsorted (clients c)" and "pc_ok pc"
    and "is_sending pc \<longleftrightarrow> lk = Some fd"
  shows "tsorted (clients c') \<and> pc_ok pc' \<and> (is_sending pc' \<longleftrightarrow> lk' = Some fd) \<and>
    (\<forall>fd'. fd' \<noteq> fd \<longrightarrow> (lk' = Some fd' \<longleftrightarrow> lk = Some fd'))"
  using assms(1)
  by (cases rule: reader_step.cases)
    (use assms(2-4) in \<open>auto simp: exec_sorted dest: next_spy_short_buffer simp del: spy_exec.simps\<close>)

lemma reader_step_receiver:
  assumes "reader_step L fd (c, lk, pc) (c', lk', pc')" and "vrx_params (sp_vrx c) = vrx_params v"
    and "within_span v (vr_centerFrequencyHz (sp_vrx c))"
  shows "vrx_params (sp_vrx c') = vrx_params v \<and> within_span v (vr_centerFrequencyHz (sp_vrx c'))"
  using assms(1)
  by (cases rule: reader_step.cases) (use assms(2,3) exec_receiver [OF assms(2,3)] in \<open>simp_all del: spy_exec.simps\<close>)

lemma reader_inv:
  assumes "spy_inv v s" and "distinct (spy_open_fds s)" and "ss_readers s = us @ (fd, pc) # ws"
    and "reader_step L fd (ss_ctx s, ss_lock s, pc) (c', lk', pc')"
  shows "spy_inv v (s\<lparr>ss_ctx := c', ss_lock := lk', ss_readers := us @ (fd, pc') # ws\<rparr>)"
proof -
  have i: "tsorted (clients (ss_ctx s))" "pc_ok pc" "is_sending pc \<longleftrightarrow> ss_lock s = Some fd"
    "vrx_params (sp_vrx (ss_ctx s)) = vrx_params v" "within_span v (vr_centerFrequencyHz (sp_vrx (ss_ctx s)))"
    using assms(1,3) by (auto simp: spy_inv_def)
  note k = reader_step_keeps [OF assms(4) i(1-3)] and r = reader_step_receiver [OF assms(4) i(4,5)]
  have d: "fd \<notin> fst ` set us" "fd \<notin> fst ` set ws" using assms(2,3) by (simp_all add: spy_open_fds_def)
  have "\<forall>q \<in> set us \<union> set ws. pc_ok (snd q) \<and> (is_sending (snd q) \<longleftrightarrow> lk' = Some (fst q))"
  proof
    fix q assume q: "q \<in> set us \<union> set ws"
    then have "fst q \<noteq> fd" using d by auto
    moreover have "pc_ok (snd q) \<and> (is_sending (snd q) \<longleftrightarrow> ss_lock s = Some (fst q))"
      using q assms(1,3) by (auto simp: spy_inv_def)
    ultimately show "pc_ok (snd q) \<and> (is_sending (snd q) \<longleftrightarrow> lk' = Some (fst q))" using k by simp
  qed
  moreover have "fd' = fd \<or> fd' \<in> fst ` set us \<or> fd' \<in> fst ` set ws" if "lk' = Some fd'" for fd'
  proof (cases "fd' = fd")
    case False
    then have "ss_lock s = Some fd'" using k that by blast
    then have "fd' \<in> fst ` set (ss_readers s)" using assms(1) by (simp add: spy_inv_def)
    then show ?thesis using False assms(3) by (simp add: image_Un)
  qed simp
  ultimately show ?thesis using k r unfolding spy_inv_def by (simp add: ball_Un image_Un)
qed

lemma spy_inv_step: "spy_step L a s s' \<Longrightarrow> distinct (spy_open_fds s) \<Longrightarrow> spy_inv v s \<Longrightarrow> spy_inv v s'"
proof (induction rule: spy_step.induct)
  case (reader s us fd pc ws c' lk' pc')
  then show ?case by (blast intro: reader_inv)
next
  case (spawn_reader s fd)
  then have "fd \<notin> fst ` set (ss_readers s)" by (simp add: spy_open_fds_def)
  with spawn_reader.prems show ?case by (auto simp: spy_inv_def)
next
  case (close_client s us fd ws)
  then show ?case by (fastforce simp: spy_inv_def)
qed (simp_all add: spy_inv_def exec_sorted exec_receiver del: spy_exec.simps)

lemma spy_inv_reachable:
  assumes "spy_reachable L v s" and "within_span v (vr_centerFrequencyHz v)"
  shows "spy_inv v s"
  using assms(1)
proof induction
  case spy_start
  then show ?case using assms(2) by (simp add: spy_inv_def spy_started_def)
next
  case (spy_next s a s')
  then show ?case using spy_inv_step spy_open_distinct by blast
qed

text \<open>The clients whose thread is about to start, or has not taken them out of the table.\<close>

definition table_fds :: "spy_server \<Rightarrow> int set" where
  "table_fds s = registered_fds (ss_accept s) \<union> live_fds (map (\<lambda>(fd, pc). (fd, pc = Removed)) (ss_readers s))"

lemma spy_server_facts:
  assumes "spy_reachable L v s" and "within_span v (vr_centerFrequencyHz v)"
  shows "distinct (spy_open_fds s) \<and> tsorted (clients (ss_ctx s)) \<and>
    client_keys (ss_ctx s) = table_fds s \<and> table_fds s \<subseteq> set (spy_open_fds s) \<and>
    (\<forall>(fd, pc) \<in> set (ss_readers s). is_sending pc \<longleftrightarrow> ss_lock s = Some fd) \<and>
    (\<forall>(fd, pc) \<in> set (ss_readers s). \<forall>b. pc = Recv b \<longrightarrow> length b < 264) \<and>
    (ss_stop s \<notin> {NotStopping, Unlistening, Joining} \<longrightarrow> ss_accept s = AcceptDone \<and>
       (\<forall>s'. (spy_any_step L)\<^sup>*\<^sup>* s s' \<longrightarrow> client_keys (ss_ctx s') \<subseteq> client_keys (ss_ctx s))) \<and>
    (ss_stop s = Stopped \<longrightarrow> client_keys (ss_ctx s) \<subseteq> set (ss_shut s)) \<and>
    vrx_params (sp_vrx (ss_ctx s)) = vrx_params v \<and> within_span v (vr_centerFrequencyHz (sp_vrx (ss_ctx s)))"
proof -
  have i: "spy_inv v s" by (rule spy_inv_reachable [OF assms])
  have l: "life_inv (spy_life s)" by (rule spy_life_reachable [OF assms(1)])
  obtain net where st: "(spy_any_step L)\<^sup>*\<^sup>* (spy_started net v) s" using spy_reachable_steps [OF assms(1)] by blast
  have "\<forall>(fd, pc) \<in> set (ss_readers s). \<forall>b. pc = Recv b \<longrightarrow> length b < 264"
    "\<forall>(fd, pc) \<in> set (ss_readers s). is_sending pc \<longleftrightarrow> ss_lock s = Some fd"
    using i by (fastforce simp: spy_inv_def)+
  moreover have "client_keys (ss_ctx s) = table_fds s" "distinct (spy_open_fds s)"
    using l by (simp_all add: life_inv_def table_fds_def open_fds_spy_life)
  moreover have "ss_accept s = AcceptDone \<and> client_keys (ss_ctx s') \<subseteq> client_keys (ss_ctx s)"
    if j: "ss_stop s \<notin> {NotStopping, Unlistening, Joining}" and r: "(spy_any_step L)\<^sup>*\<^sup>* s s'" for s'
  proof -
    from j have "joined (lc_stop (spy_life s))" by (simp add: joined_def)
    moreover from this have "ss_accept s = AcceptDone" using l by (simp add: life_inv_def)
    ultimately show ?thesis using spy_srv.run_shrinks [OF r st] by simp
  qed
  moreover have "client_keys (ss_ctx s) \<subseteq> set (spy_open_fds s)"
    using life_table_open [OF l] by (simp add: open_fds_spy_life)
  moreover have "ss_stop s = Stopped \<longrightarrow> client_keys (ss_ctx s) \<subseteq> set (ss_shut s)"
    using spy_srv.stopped_all_shut [OF st] by simp
  ultimately show ?thesis using i unfolding spy_inv_def by blast
qed

lemma lock_sending:
  assumes "spy_reachable L v s" and "within_span v (vr_centerFrequencyHz v)"
  shows "\<forall>fd. ss_lock s = Some fd \<longrightarrow> (\<exists>pc. (fd, pc) \<in> set (ss_readers s) \<and> is_sending pc)"
proof (intro allI impI)
  fix fd assume l: "ss_lock s = Some fd"
  have i: "spy_inv v s" by (rule spy_inv_reachable [OF assms])
  from i l obtain pc where pc: "(fd, pc) \<in> set (ss_readers s)" unfolding spy_inv_def by fastforce
  moreover from i l pc have "is_sending pc" unfolding spy_inv_def by fastforce
  ultimately show "\<exists>pc. (fd, pc) \<in> set (ss_readers s) \<and> is_sending pc" by blast
qed

text \<open>
  Property C5: in every state the SpyServer can reach, with its threads interleaved in any way: no
  descriptor is owned twice; the clients in the table are exactly those whose thread is about to
  start or has not taken them out, each under a descriptor that is open; the mutex is held exactly while
  a reply is being sent, by one thread; between two reads a thread keeps fewer than 264 bytes; once
  \<open>stop\<close> has joined the accept thread clients only leave, and when it has returned, every client
  still in the table has been shut down; and of the receiver nothing but the tuning changes, which stays
  inside the captured span.
\<close>

theorem spy_server_invariant:
  assumes "spy_reachable L v s" and "within_span v (vr_centerFrequencyHz v)"
  shows "distinct (spy_open_fds s) \<and> tsorted (clients (ss_ctx s)) \<and>
    client_keys (ss_ctx s) = table_fds s \<and> table_fds s \<subseteq> set (spy_open_fds s) \<and>
    (\<forall>(fd, pc) \<in> set (ss_readers s). is_sending pc \<longleftrightarrow> ss_lock s = Some fd) \<and>
    (\<forall>fd. ss_lock s = Some fd \<longrightarrow> (\<exists>pc. (fd, pc) \<in> set (ss_readers s) \<and> is_sending pc)) \<and>
    (\<forall>(fd, pc) \<in> set (ss_readers s). \<forall>b. pc = Recv b \<longrightarrow> length b < 264) \<and>
    (ss_stop s \<notin> {NotStopping, Unlistening, Joining} \<longrightarrow> ss_accept s = AcceptDone \<and>
       (\<forall>s'. (spy_any_step L)\<^sup>*\<^sup>* s s' \<longrightarrow> client_keys (ss_ctx s') \<subseteq> client_keys (ss_ctx s))) \<and>
    (ss_stop s = Stopped \<longrightarrow> client_keys (ss_ctx s) \<subseteq> set (ss_shut s)) \<and>
    vrx_params (sp_vrx (ss_ctx s)) = vrx_params v \<and> within_span v (vr_centerFrequencyHz (sp_vrx (ss_ctx s)))"
  using spy_server_facts [OF assms] lock_sending [OF assms] by (elim conjE) (intro conjI; assumption)

section \<open>Every interleaving is a sequence of sections\<close>

text \<open>The sections run so far: a client in the table was added last by its own connection.\<close>

definition explained :: "libm \<Rightarrow> vrx \<Rightarrow> spy_ctx \<Rightarrow> spy_op list \<Rightarrow> bool" where
  "explained L v c ops \<longleftrightarrow> c = foldl (spy_exec L) (fresh_ctx (sp_net c) v) ops \<and>
     (\<forall>fd \<in> client_keys c. \<exists>before after. ops = before @ OpConnect fd # after \<and> list_all (keeps_client fd) after)"

lemma explained_step:
  assumes "explained L v c ops"
  shows "explained L v (spy_exec L c op) (ops @ [op])"
  unfolding explained_def
proof (intro conjI ballI)
  show "spy_exec L c op = foldl (spy_exec L) (fresh_ctx (sp_net (spy_exec L c op)) v) (ops @ [op])"
    using assms by (simp add: explained_def exec_net del: spy_exec.simps)
  fix fd assume fd: "fd \<in> client_keys (spy_exec L c op)"
  show "\<exists>before after. ops @ [op] = before @ OpConnect fd # after \<and> list_all (keeps_client fd) after"
  proof (cases "op = OpConnect fd")
    case True
    then show ?thesis by (intro exI [of _ ops] exI [of _ "[]"]) simp
  next
    case False
    then have "fd \<in> client_keys c" "keeps_client fd op"
      using fd by (cases op; auto simp: client_keys_exec simp del: spy_exec.simps)+
    with assms obtain before after where "ops = before @ OpConnect fd # after" "list_all (keeps_client fd) after"
      by (auto simp: explained_def)
    with \<open>keeps_client fd op\<close> show ?thesis by (intro exI [of _ before] exI [of _ "after @ [op]"]) simp
  qed
qed

lemma reader_step_section:
  "reader_step L fd (c, lk, pc) (c', lk', pc') \<Longrightarrow> c' = c \<or> (\<exists>op. c' = spy_exec L c op)"
  by (cases rule: reader_step.cases) blast+

lemma spy_step_section: "spy_step L a s s' \<Longrightarrow> ss_ctx s' = ss_ctx s \<or> (\<exists>op. ss_ctx s' = spy_exec L (ss_ctx s) op)"
proof (induction rule: spy_step.induct)
  case (reader s us fd pc ws c' lk' pc')
  then show ?case using reader_step_section [OF reader(2)] by simp
qed (simp_all del: spy_exec.simps, blast+)

lemma reachable_explained: "spy_reachable L v s \<Longrightarrow> \<exists>ops. explained L v (ss_ctx s) ops"
proof (induction rule: spy_reachable.induct)
  case spy_start
  then show ?case by (intro exI [of _ "[]"]) (simp add: explained_def spy_started_def client_keys_def)
next
  case (spy_next s a s')
  then show ?case using spy_step_section [OF spy_next(2)] explained_step by metis
qed

lemma sorted_run: "tsorted (clients c) \<Longrightarrow> tsorted (clients (foldl (spy_exec L) c ops))"
  by (induction ops arbitrary: c) (simp_all add: exec_sorted del: spy_exec.simps)

lemma explained_taken: "explained L v c ops \<Longrightarrow> sends_taken (sp_out c)"
proof -
  have "sends_taken (sp_out (foldl (spy_exec L) c0 ops))" if "sends_taken (sp_out c0)" for c0
    using that by (induction ops arbitrary: c0) (simp_all add: exec_taken del: spy_exec.simps)
  from this [of "fresh_ctx (sp_net c) v"] show "explained L v c ops \<Longrightarrow> sends_taken (sp_out c)"
    by (simp add: explained_def)
qed

lemma reachable_taken: "spy_reachable L v s \<Longrightarrow>
    \<exists>rs. length rs = length (sent_to fd (ss_ctx s)) \<and> taken_to fd (ss_ctx s) = received (zip rs (sent_to fd (ss_ctx s)))"
  using reachable_explained explained_taken taken_received by blast

text \<open>
  Property C6: the threads refine the atomic model: what they do to the shared state is, in every reachable
  state, a sequence of critical sections, so that the messages passed to \<open>send\<close> for each client in the
  table since its own connection are well-formed and numbered consecutively from 0, its samples and its
  replies in one sequence; and its connection carries, in that order, what the kernel took of each: all
  of it, a prefix (a short write) or nothing (a full buffer or an error).
\<close>

theorem spy_threads_refine_sections:
  assumes "spy_reachable L v s"
  shows "\<exists>ops. ss_ctx s = foldl (spy_exec L) (fresh_ctx (sp_net (ss_ctx s)) v) ops \<and>
    (\<forall>fd \<in> client_keys (ss_ctx s). \<exists>before after new rs. ops = before @ OpConnect fd # after \<and>
       list_all (keeps_client fd) after \<and>
       sent_to fd (ss_ctx s) = sent_to fd (foldl (spy_exec L) (fresh_ctx (sp_net (ss_ctx s)) v) before) @ new \<and>
       (\<forall>i < length new. numbered (word_of_nat i) (new ! i)) \<and>
       length rs = length new \<and>
       taken_to fd (ss_ctx s) =
         taken_to fd (foldl (spy_exec L) (fresh_ctx (sp_net (ss_ctx s)) v) before) @ received (zip rs new))"
proof -
  let ?c0 = "fresh_ctx (sp_net (ss_ctx s)) v"
  from reachable_explained [OF assms] obtain ops where o: "explained L v (ss_ctx s) ops" by blast
  have "\<exists>before after new rs. ops = before @ OpConnect fd # after \<and> list_all (keeps_client fd) after \<and>
      sent_to fd (ss_ctx s) = sent_to fd (foldl (spy_exec L) ?c0 before) @ new \<and>
      (\<forall>i < length new. numbered (word_of_nat i) (new ! i)) \<and> length rs = length new \<and>
      taken_to fd (ss_ctx s) = taken_to fd (foldl (spy_exec L) ?c0 before) @ received (zip rs new)"
    if fd: "fd \<in> client_keys (ss_ctx s)" for fd
  proof -
    from o fd obtain before after where ba: "ops = before @ OpConnect fd # after" "list_all (keeps_client fd) after"
      unfolding explained_def by blast
    have "tsorted (clients (foldl (spy_exec L) ?c0 before))" by (rule sorted_run) simp
    from connection_numbered [OF this ba(2), of L] obtain new rs where
      "sent_to fd (foldl (spy_exec L) (foldl (spy_exec L) ?c0 before) (OpConnect fd # after)) =
         sent_to fd (foldl (spy_exec L) ?c0 before) @ new"
      "\<forall>i < length new. numbered (word_of_nat i) (new ! i)" "length rs = length new"
      "taken_to fd (foldl (spy_exec L) (foldl (spy_exec L) ?c0 before) (OpConnect fd # after)) =
         taken_to fd (foldl (spy_exec L) ?c0 before) @ received (zip rs new)" by blast
    moreover have "ss_ctx s = foldl (spy_exec L) (foldl (spy_exec L) ?c0 before) (OpConnect fd # after)"
      using o unfolding explained_def ba(1) foldl_append by blast
    ultimately show ?thesis using ba by metis
  qed
  with o show ?thesis unfolding explained_def by blast
qed

section \<open>A reply that is not read stalls the server\<close>

inductive spy_run :: "libm \<Rightarrow> spy_server \<Rightarrow> server_actor list \<Rightarrow> spy_server \<Rightarrow> bool" for L where
  run_none: "spy_run L s [] s"
| run_step: "spy_step L a s s' \<Longrightarrow> spy_run L s' as s'' \<Longrightarrow> spy_run L s (a # as) s''"

definition before_shutdown :: "stop_pc \<Rightarrow> bool" where
  "before_shutdown p \<longleftrightarrow> p \<in> {NotStopping, Unlistening, Joining, Snapshot}"

definition table_view :: "spy_ctx \<Rightarrow> client_state table \<times> spy_sent list" where
  "table_view c = (clients c, sp_out c)"

lemma reader_step_blocked:
  assumes "reader_step L fd' (c, Some fd, pc) (c', lk', pc')" and "fd' \<noteq> fd"
  shows "lk' = Some fd \<and> table_view c' = table_view c"
  using assms(1)
proof (cases rule: reader_step.cases)
  case (run_section t op ts b)
  then obtain f where "op = OpRetune f" by (cases op) auto
  with run_section show ?thesis by (simp add: table_view_def)
qed (use assms(2) in auto)

lemma step_blocked:
  assumes "spy_step L a s s'" and "ss_lock s = Some fd" and "a \<noteq> ReadThread fd"
  shows "ss_lock s' = Some fd \<and> table_view (ss_ctx s') = table_view (ss_ctx s) \<and> a \<noteq> StreamThread \<and>
    (before_shutdown (ss_stop s) \<longrightarrow> before_shutdown (ss_stop s'))"
  using assms
proof (induction rule: spy_step.induct)
  case (reader s us fd' pc ws c' lk' pc')
  then show ?case using reader_step_blocked [of L fd' "ss_ctx s" fd pc c' lk' pc'] by auto
qed (auto simp: before_shutdown_def table_view_def)

text \<open>
  Property C15: while the \<open>send\<close> of a reply blocks (its client does not read), the mutex stays held: no
  broadcast happens, so the streaming thread and with it every receiver of the program waits, no
  client is registered, removed or changed, and a \<open>stop\<close> cannot get to shutting the clients down, which
  alone would end that \<open>send\<close>. Only a step of the blocked thread itself frees the server.
\<close>

theorem spy_send_stalls:
  assumes "spy_reachable L v s" and "within_span v (vr_centerFrequencyHz v)" and "ss_lock s = Some fd"
  shows "(\<forall>as s'. spy_run L s as s' \<and> ReadThread fd \<notin> set as \<longrightarrow>
      ss_lock s' = Some fd \<and> StreamThread \<notin> set as \<and>
      table_view (ss_ctx s') = table_view (ss_ctx s) \<and>
      (before_shutdown (ss_stop s) \<longrightarrow> before_shutdown (ss_stop s'))) \<and>
    (\<exists>s'. spy_step L (ReadThread fd) s s' \<and> ss_lock s' = None)"
proof (intro conjI allI impI)
  have run: "ss_lock s' = Some fd \<and> StreamThread \<notin> set as \<and> table_view (ss_ctx s') = table_view (ss_ctx s) \<and>
      (before_shutdown (ss_stop s) \<longrightarrow> before_shutdown (ss_stop s'))"
    if "spy_run L s as s'" "ReadThread fd \<notin> set as" "ss_lock s = Some fd" for s as s'
    using that
  proof induction
    case (run_step a s s' as s'')
    then show ?case using step_blocked [OF run_step(1) run_step.prems(2)] by auto
  qed simp
  fix as s' assume "spy_run L s as s' \<and> ReadThread fd \<notin> set as"
  with run [of s as s'] assms(3)
  show "ss_lock s' = Some fd" and "StreamThread \<notin> set as" and "table_view (ss_ctx s') = table_view (ss_ctx s)"
    and "before_shutdown (ss_stop s) \<Longrightarrow> before_shutdown (ss_stop s')" by auto
next
  have i: "spy_inv v s" by (rule spy_inv_reachable [OF assms(1,2)])
  then obtain pc where "(fd, pc) \<in> set (ss_readers s)" using assms(3) by (auto simp: spy_inv_def)
  moreover from this i assms(3) have "is_sending pc" by (auto simp: spy_inv_def)
  ultimately obtain ts b us ws where "ss_readers s = us @ (fd, Sending ts b) # ws"
    by (cases pc) (auto dest: split_list)
  from spy_step.reader [OF this, of L "ss_ctx s" None "Running ts b"] send_return [of L fd "ss_ctx s" ts b] assms(3)
  show "\<exists>s'. spy_step L (ReadThread fd) s s' \<and> ss_lock s' = None" by fastforce
qed

section \<open>No undefined conversion on ordinary captures\<close>

text \<open>
  A capture of whole Hertz whose span lies between 0 and \<open>2 ^ 32\<close> Hz, and a receiver rate of whole Hertz below
  \<open>2 ^ 32\<close>.
\<close>

definition ordinary_capture :: "vrx \<Rightarrow> bool" where
  "ordinary_capture v \<longleftrightarrow> (\<exists>c s r. widebandCenterHz v = Fin (of_int c) \<and> widebandSampleRateHz v = Fin (of_int s) \<and>
     0 \<le> s \<and> s \<le> 2 * c \<and> 2 * c + s < 2 ^ 33 \<and> getSampleRateHz v = Fin (of_int r) \<and> 0 \<le> r \<and> r < 2 ^ 32)"

lemma ordinary_hello:
  assumes "ordinary_capture v" and "within_span v (vr_centerFrequencyHz v)" and "vr_centerFrequencyHz v \<noteq> NaN"
  shows "\<exists>info sync. hello_device_info v = Some info \<and> hello_client_sync v = Some sync"
proof -
  obtain c s r where o: "widebandCenterHz v = Fin (of_int c)" "widebandSampleRateHz v = Fin (of_int s)"
    "0 \<le> s" "s \<le> 2 * c" "2 * c + s < 2 ^ 33" "getSampleRateHz v = Fin (of_int r)" "0 \<le> r" "r < 2 ^ 32"
    using assms(1) unfolding ordinary_capture_def by blast
  have b: "\<bar>c\<bar> + \<bar>s\<bar> \<le> 2 ^ 51" using o(3-5) by simp
  obtain f where f: "vr_centerFrequencyHz v = Fin f"
    using assms(2,3) unfolding within_span_def span_exact [OF o(1,2) b] by (cases "vr_centerFrequencyHz v") auto
  have "2 * \<bar>f - of_int c\<bar> \<le> of_int s" using assms(2) within_span_exact [OF o(1,2) b] by (simp add: f)
  from hello_records [OF o f this] show ?thesis by blast
qed

lemma ordinary_params: "vrx_params v = vrx_params w \<Longrightarrow> ordinary_capture v \<longleftrightarrow> ordinary_capture w"
  by (simp add: ordinary_capture_def vrx_params_def getSampleRateHz_def)

lemma exec_tuned:
  assumes "vr_centerFrequencyHz (sp_vrx c) \<noteq> NaN"
  shows "vr_centerFrequencyHz (sp_vrx (spy_exec L c op)) \<noteq> NaN"
proof (cases op)
  case (OpRetune f)
  have "uint f < 2 ^ 32" using uint_lt2p [of f] by simp
  then have "f64_of_int (uint f) = Fin (of_int (uint f))" by (intro f64_of_int_exact) simp
  with assms OpRetune show ?thesis by (simp add: vt.try_retune_centre)
qed (use assms in \<open>auto simp: sendMessage_def Let_def spyBroadcastIq_def spyAddClient_def spyRemoveClient_def
    split: option.splits prod.splits\<close>)

lemma task_defined:
  assumes "ordinary_capture v" and "vrx_params w = vrx_params v" and "within_span v (vr_centerFrequencyHz w)"
    and "vr_centerFrequencyHz w \<noteq> NaN"
  shows "task_op fd w t \<noteq> None"
proof -
  have "ordinary_capture w" using assms(1) ordinary_params [OF assms(2)] by blast
  moreover have "within_span w (vr_centerFrequencyHz w)" using assms(3) by (simp only: vt.in_range_params [OF assms(2)])
  ultimately have "\<exists>info sync. hello_device_info w = Some info \<and> hello_client_sync w = Some sync"
    using assms(4) by (rule ordinary_hello)
  then show ?thesis by (cases t) auto
qed

lemma reader_step_defined:
  assumes "reader_step L fd (c, lk, pc) (c', lk', pc')" and "\<And>t. task_op fd (sp_vrx c) t \<noteq> None"
    and "pc \<noteq> UndefinedConversion" and "vr_centerFrequencyHz (sp_vrx c) \<noteq> NaN"
  shows "pc' \<noteq> UndefinedConversion \<and> vr_centerFrequencyHz (sp_vrx c') \<noteq> NaN"
  using assms(1)
  by (cases rule: reader_step.cases) (use assms(2-4) exec_tuned [OF assms(4)] in \<open>simp_all del: spy_exec.simps task_op.simps\<close>)

text \<open>
  Property C29: on a capture of whole Hertz whose span lies between 0 and \<open>2 ^ 32\<close>, with a receiver whose rate is a
  whole number of Hertz below \<open>2 ^ 32\<close> and whose centre starts as a number inside the span (not a NaN), no
  thread ever executes an undefined conversion, whatever the clients of both endpoints send and however they
  interleave.
\<close>

theorem spy_never_undefined:
  assumes "spy_reachable L v s" and "ordinary_capture v" and "within_span v (vr_centerFrequencyHz v)"
    and "vr_centerFrequencyHz v \<noteq> NaN"
  shows "\<forall>fd. (fd, UndefinedConversion) \<notin> set (ss_readers s)"
proof -
  have "vr_centerFrequencyHz (sp_vrx (ss_ctx s)) \<noteq> NaN \<and> (\<forall>fd. (fd, UndefinedConversion) \<notin> set (ss_readers s))"
    using assms(1)
  proof induction
    case spy_start
    then show ?case using assms(4) by (simp add: spy_started_def)
  next
    case (spy_next s a s')
    have i: "spy_inv v s" by (rule spy_inv_reachable [OF spy_next(1) assms(3)])
    have t: "task_op fd (sp_vrx (ss_ctx s)) t \<noteq> None" for fd t
      using i spy_next.IH by (intro task_defined [OF assms(2)]) (simp_all add: spy_inv_def)
    show ?case using spy_next(2)
    proof (cases rule: spy_step.cases)
      case (reader us fd pc ws c' lk' pc')
      then have "pc \<noteq> UndefinedConversion" using spy_next.IH by auto
      from reader_step_defined [OF reader(4) t this] reader spy_next.IH show ?thesis by auto
    qed (use spy_next.IH exec_tuned in \<open>auto simp del: spy_exec.simps\<close>)
  qed
  then show ?thesis by blast
qed

section \<open>A concrete run\<close>

text \<open>One client has connected and sent a ping, and its pong is being sent.\<close>

definition ping_bytes :: bytes where "ping_bytes = [3, 0, 0, 0, 0, 0, 0, 0]"

definition ponged :: spy_ctx where
  "ponged = \<lparr>sp_vrx = demo_vrx, clients = [(5, new_client_state\<lparr>sequenceNumber := 1\<rparr>)],
     sp_out = [(5, message_bytes kMsgTypePong kStreamTypeStatus 0 [],
                   message_bytes kMsgTypePong kStreamTypeStatus 0 [], Silent)],
     sp_net = (\<lambda>k. Accepted 20)\<rparr>"

definition one_client :: spy_ctx where
  "one_client = \<lparr>sp_vrx = demo_vrx, clients = [(5, new_client_state)], sp_out = [],
     sp_net = (\<lambda>k. Accepted 20)\<rparr>"

definition demo_sending :: spy_server where
  "demo_sending = (spy_started (\<lambda>k. Accepted 20) demo_vrx)\<lparr>ss_ctx := ponged, ss_lock := Some 5, ss_readers := [(5, Sending [] [])]\<rparr>"

lemma unpack_ping: "unpack32 2 ping_bytes = Some [3, 0]"
proof -
  have "pack32 [3, 0] @ [] = ping_bytes" by (simp add: pack32_def le32_def drop_bit_eq_div ping_bytes_def)
  with unpack_packed [of "[3, 0]" 2 "[]"] show ?thesis by simp
qed

lemma next_ping: "next_spy ping_bytes = Frame (Command (cmdPing, [])) 8"
  using next_spy_header [OF unpack_ping] by (simp add: cmdPing_def ping_bytes_def)

lemma pong_op: "spy_exec L one_client (OpSend 5 kMsgTypePong kStreamTypeStatus []) = ponged"
  by (simp add: one_client_def ponged_def sendMessage_def Let_def tget_def new_client_state_def message_bytes_def)

lemma demo_run: "(reader_step L 5)\<^sup>*\<^sup>* (one_client, None, Recv []) (ponged, Some 5, Sending [] [])"
proof -
  have "reader_step L 5 (one_client, None, Recv []) (one_client, None, Running [] ping_bytes)"
    using recv_bytes [of ping_bytes L 5 one_client None "[]"] by (simp add: ping_bytes_def)
  moreover have "reader_step L 5 (one_client, None, Running [] ping_bytes) (one_client, None, Running [DoPong] [])"
    using parse_command [OF next_ping, of L 5 one_client None]
    by (simp add: tasks_of_def cmdPing_def cmdHello_def cmdSetSetting_def) (simp add: ping_bytes_def)
  moreover have "reader_step L 5 (one_client, None, Running [DoPong] []) (ponged, Some 5, Sending [] [])"
    using send_start [of 5 one_client DoPong "OpSend 5 kMsgTypePong kStreamTypeStatus []" L "[]" "[]"]
    by (simp add: pong_op del: spy_exec.simps) (simp add: one_client_def tget_def)
  ultimately show ?thesis by (meson converse_rtranclp_into_rtranclp rtranclp.rtrancl_refl)
qed

lemma spy_run_append: "spy_run L s as s' \<Longrightarrow> spy_run L s' bs s'' \<Longrightarrow> spy_run L s (as @ bs) s''"
  by (induction rule: spy_run.induct) (auto intro: run_step)

lemma spy_run_reachable: "spy_run L s as s' \<Longrightarrow> spy_reachable L v s \<Longrightarrow> spy_reachable L v s'"
  by (induction rule: spy_run.induct) (auto intro: spy_next)

lemma reader_run_alone:
  assumes "(reader_step L fd)\<^sup>*\<^sup>* p q" and "p = (ss_ctx s, ss_lock s, pc)" and "ss_readers s = [(fd, pc)]"
  shows "\<exists>n. spy_run L s (replicate n (ReadThread fd))
    (s\<lparr>ss_ctx := fst q, ss_lock := fst (snd q), ss_readers := [(fd, snd (snd q))]\<rparr>)"
  using assms
proof (induction rule: rtranclp_induct)
  case base
  then show ?case using run_none [of L s] by (intro exI [of _ 0]) (cases s; simp)
next
  case (step y z)
  obtain c lk pc1 c' lk' pc2 where yz: "y = (c, lk, pc1)" "z = (c', lk', pc2)" by (cases y; cases z) auto
  let ?s = "s\<lparr>ss_ctx := c, ss_lock := lk, ss_readers := [(fd, pc1)]\<rparr>"
  obtain n where "spy_run L s (replicate n (ReadThread fd)) ?s" using step by (auto simp: yz)
  moreover have "spy_step L (ReadThread fd) ?s (?s\<lparr>ss_ctx := c', ss_lock := lk', ss_readers := [] @ (fd, pc2) # []\<rparr>)"
    by (rule spy_step.reader) (use step(2) in \<open>simp_all add: yz\<close>)
  then have "spy_run L ?s [ReadThread fd] (?s\<lparr>ss_ctx := c', ss_lock := lk', ss_readers := [] @ (fd, pc2) # []\<rparr>)"
    by (rule run_step) (rule run_none)
  ultimately have "spy_run L s (replicate n (ReadThread fd) @ [ReadThread fd]) (?s\<lparr>ss_ctx := c', ss_lock := lk', ss_readers := [] @ (fd, pc2) # []\<rparr>)"
    by (rule spy_run_append)
  then show ?case by (intro exI [of _ "Suc n"]) (simp add: yz replicate_append_same)
qed

lemma demo_connected: "spy_run L (spy_started (\<lambda>k. Accepted 20) demo_vrx) [AcceptThread, AcceptThread, AcceptThread, AcceptThread]
    ((spy_started (\<lambda>k. Accepted 20) demo_vrx)\<lparr>ss_ctx := one_client, ss_readers := [(5, Recv [])]\<rparr>)"
proof -
  let ?s0 = "spy_started (\<lambda>k. Accepted 20) demo_vrx"
  let ?s1 = "?s0\<lparr>ss_accept := InAccept\<rparr>" and ?s2 = "?s0\<lparr>ss_accept := Accepted_fd 5\<rparr>"
  let ?s3 = "?s0\<lparr>ss_accept := Registered_fd 5, ss_ctx := one_client\<rparr>"
  have "spy_step L AcceptThread ?s0 ?s1" using check_running [of ?s0 L] by (simp add: spy_started_def)
  moreover have "spy_step L AcceptThread ?s1 ?s2"
    using accept_client [of ?s1 5 L] by (simp add: spy_started_def spy_open_fds_def)
  moreover have "spy_step L AcceptThread ?s2 ?s3"
    using register_client [of ?s2 5 L] by (simp add: spy_started_def spyAddClient_def one_client_def)
  moreover have "spy_step L AcceptThread ?s3 (?s0\<lparr>ss_ctx := one_client, ss_readers := [(5, Recv [])]\<rparr>)"
    using spawn_reader [of ?s3 5 L] by (simp add: spy_started_def)
  ultimately show ?thesis by (meson run_step run_none)
qed

lemma demo_sending_run:
  "\<exists>as. set as \<subseteq> {AcceptThread, ReadThread 5} \<and> spy_run L (spy_started (\<lambda>k. Accepted 20) demo_vrx) as demo_sending"
proof -
  let ?s = "(spy_started (\<lambda>k. Accepted 20) demo_vrx)\<lparr>ss_ctx := one_client, ss_readers := [(5, Recv [])]\<rparr>"
  have "(one_client, None, Recv []) = (ss_ctx ?s, ss_lock ?s, Recv [])" "ss_readers ?s = [(5, Recv [])]"
    by (simp_all add: spy_started_def)
  from reader_run_alone [OF demo_run this] obtain n where "spy_run L ?s (replicate n (ReadThread 5)) demo_sending"
    by (auto simp: demo_sending_def)
  from spy_run_append [OF demo_connected this] show ?thesis by (rule_tac exI, rule_tac conjI) auto
qed

lemma demo_sending_reachable: "spy_reachable L demo_vrx demo_sending"
  using demo_sending_run [of L] spy_run_reachable [OF _ spy_start] by blast

lemma demo_in_span: "within_span demo_vrx (vr_centerFrequencyHz demo_vrx)"
  by (simp add: demo_vrx_span)

lemma demo_ordinary: "ordinary_capture demo_vrx"
proof -
  have q: "fpround binary64 4 = Fin 4" using f64_of_int_exact [of 4] by (simp add: f64_of_int_def)
  have "f64_of_int 2 = Fin 2" using f64_of_int_exact [of 2] by simp
  with q have "getSampleRateHz demo_vrx = Fin (of_int 4)" by (simp add: getSampleRateHz_def)
  then show ?thesis unfolding ordinary_capture_def
    by (intro exI [of _ 100] exI [of _ 8] exI [of _ 4]) simp
qed

theorem reader_alone_witness:
  "(reader_step demo_libm 5)\<^sup>*\<^sup>* (one_client, None, Recv []) (ponged, None, Recv [])"
proof -
  have h: "spyHandleCommand demo_libm 5 (one_client, []) (3, []) = ((ponged, []), None)"
    using pong_op [of demo_libm]
    by (simp add: spyHandleCommand_def cmdPing_def cmdHello_def cmdSetSetting_def del: spy_exec.simps)
  have e: "spy_loop demo_libm 5 (ponged, []) ping_bytes 8 = ((ponged, []), [], None)"
    by (subst spy_loop.simps) (simp add: ping_bytes_def)
  have "spy_recv demo_libm 5 ((one_client, []), [], None) ping_bytes = ((ponged, []), [], None)"
    using unpack_ping h e by (simp, subst spy_loop.simps) (simp add: kMaxCommandBodySize_def ping_bytes_def)
  from reader_alone [OF this] show ?thesis by (simp add: ping_bytes_def after_loop_def)
qed

theorem spy_server_invariant_witness:
  "\<exists>s. spy_reachable demo_libm demo_vrx s \<and> ss_lock s = Some 5 \<and> client_keys (ss_ctx s) = {5} \<and>
     distinct (spy_open_fds s) \<and> client_keys (ss_ctx s) = table_fds s"
  using spy_server_invariant [OF demo_sending_reachable [of demo_libm] demo_in_span] demo_sending_reachable [of demo_libm]
  by (intro exI [of _ demo_sending]) (simp add: demo_sending_def ponged_def client_keys_def)

theorem spy_threads_refine_sections_witness:
  "\<exists>old new got rs. sent_to 5 (ss_ctx demo_sending) = old @ new \<and> length (old @ new) = 1 \<and>
     taken_to 5 (ss_ctx demo_sending) = got @ received (zip rs new) \<and> length (taken_to 5 (ss_ctx demo_sending)) = 20 \<and>
     length rs = length new"
proof -
  have k: "5 \<in> client_keys (ss_ctx demo_sending)" by (simp add: demo_sending_def ponged_def client_keys_def)
  have l: "length (sent_to 5 (ss_ctx demo_sending)) = 1" "length (taken_to 5 (ss_ctx demo_sending)) = 20"
    by (simp_all add: demo_sending_def ponged_def sent_to_def taken_to_def message_bytes_def)
  from spy_threads_refine_sections [OF demo_sending_reachable [of demo_libm]] k
  obtain old new got rs where "sent_to 5 (ss_ctx demo_sending) = old @ new" "length rs = length new"
    "taken_to 5 (ss_ctx demo_sending) = got @ received (zip rs new)" by metis
  with l show ?thesis by metis
qed

theorem spy_send_stalls_witness:
  "\<exists>s' s''. spy_run demo_libm demo_sending [StopThread] s' \<and> ss_lock s' = Some 5 \<and> before_shutdown (ss_stop s') \<and>
     spy_step demo_libm (ReadThread 5) demo_sending s'' \<and> ss_lock s'' = None"
proof -
  have l: "ss_lock demo_sending = Some 5" and b: "before_shutdown (ss_stop demo_sending)"
    by (simp_all add: demo_sending_def spy_started_def before_shutdown_def)
  have "spy_step demo_libm StopThread demo_sending (demo_sending\<lparr>ss_running := False, ss_stop := Unlistening\<rparr>)"
    by (rule stop_begins) (simp add: demo_sending_def spy_started_def)
  from run_step [OF this run_none] obtain s' where r: "spy_run demo_libm demo_sending [StopThread] s'" by blast
  note st = spy_send_stalls [OF demo_sending_reachable [of demo_libm] demo_in_span l]
  from st [THEN conjunct1, rule_format, of "[StopThread]" s'] r b
  have "ss_lock s' = Some 5 \<and> before_shutdown (ss_stop s')" by simp
  with r st [THEN conjunct2] show ?thesis by blast
qed

theorem spy_never_undefined_witness: "\<forall>fd. (fd, UndefinedConversion) \<notin> set (ss_readers demo_sending)"
  by (rule spy_never_undefined [OF demo_sending_reachable [of demo_libm] demo_ordinary demo_in_span]) simp

end
