(* ===== verification/WsHandshake.thy ===== *)
theory WsHandshake
  imports Prelude
begin

text \<open>
  The first half of \<open>src/sdrconnect/websocket.cpp\<close>: SHA-1 and base64 as the handshake needs them, the
  header search, \<open>sendAll\<close>, connecting to one of several addresses with a timeout, and the HTTP upgrade.
\<close>

section \<open>SHA-1\<close>

definition rotl :: "u32 \<Rightarrow> nat \<Rightarrow> u32" where
  "rotl v n = push_bit n v OR drop_bit (32 - n) v"

text \<open>\<open>while (msg.size() % 64 != 56) msg.push_back(0x00)\<close>\<close>

definition pad_left :: "nat \<Rightarrow> nat" where
  "pad_left n = (if n mod 64 \<le> 56 then 56 - n mod 64 else 120 - n mod 64)"

lemma pad_left_step: "n mod 64 \<noteq> 56 \<Longrightarrow> Suc (pad_left (Suc n)) = pad_left n"
  unfolding pad_left_def by (cases "n mod 64 = 63") (auto simp: mod_Suc)

function pad_loop :: "bytes \<Rightarrow> bytes" where
  "pad_loop msg = (if length msg mod 64 \<noteq> 56 then pad_loop (msg @ [0]) else msg)"
  by pat_completeness auto
termination
  by (relation "measure (\<lambda>msg. pad_left (length msg))") (auto dest!: pad_left_step)

declare pad_loop.simps [simp del]

definition be64 :: "u64 \<Rightarrow> bytes" where
  "be64 w = map (\<lambda>i. ucast (drop_bit (i * 8) w AND 0xFF)) (rev [0..<8])"

definition sha1_pad :: "bytes \<Rightarrow> bytes" where
  "sha1_pad data =
     (let bitLen = (word_of_nat (length data) :: u64) * 8
      in pad_loop (data @ [0x80]) @ be64 bitLen)"

definition w_init :: "bytes \<Rightarrow> nat \<Rightarrow> u32 list" where
  "w_init msg chunk = map (\<lambda>i.
     push_bit 24 (ucast (msg ! (chunk + i * 4))) OR push_bit 16 (ucast (msg ! (chunk + i * 4 + 1))) OR
     push_bit 8 (ucast (msg ! (chunk + i * 4 + 2))) OR ucast (msg ! (chunk + i * 4 + 3))) [0..<16]"

text \<open>\<open>for (int i = 16; i < 80; ++i) w[i] = ...\<close>; \<open>w\<close> is as long as the part already written.\<close>

fun w_extend :: "nat \<Rightarrow> u32 list \<Rightarrow> u32 list" where
  "w_extend 0 w = w"
| "w_extend (Suc k) w =
     (let i = length w
      in w_extend k (w @ [rotl (w ! (i - 3) XOR w ! (i - 8) XOR w ! (i - 14) XOR w ! (i - 16)) 1]))"

type_synonym sha1_regs = "u32 \<times> u32 \<times> u32 \<times> u32 \<times> u32"

fun sha1_round :: "nat \<Rightarrow> u32 \<Rightarrow> sha1_regs \<Rightarrow> sha1_regs" where
  "sha1_round i wi (a, b, c, d, e) =
     (let (f, k) =
        (if i < 20 then ((b AND c) OR (NOT b AND d), 0x5A827999)
         else if i < 40 then (b XOR c XOR d, 0x6ED9EBA1)
         else if i < 60 then ((b AND c) OR (b AND d) OR (c AND d), 0x8F1BBCDC)
         else (b XOR c XOR d, 0xCA62C1D6));
          temp = rotl a 5 + f + e + k + wi
      in (temp, a, rotl b 30, c, d))"

fun sha1_rounds :: "nat \<Rightarrow> u32 list \<Rightarrow> sha1_regs \<Rightarrow> sha1_regs" where
  "sha1_rounds i [] r = r"
| "sha1_rounds i (wi # w) r = sha1_rounds (Suc i) w (sha1_round i wi r)"

fun sha1_add :: "sha1_regs \<Rightarrow> sha1_regs \<Rightarrow> sha1_regs" where
  "sha1_add (h0, h1, h2, h3, h4) (a, b, c, d, e) = (h0 + a, h1 + b, h2 + c, h3 + d, h4 + e)"

definition sha1_chunk :: "bytes \<Rightarrow> nat \<Rightarrow> sha1_regs \<Rightarrow> sha1_regs" where
  "sha1_chunk msg chunk h = sha1_add h (sha1_rounds 0 (w_extend 64 (w_init msg chunk)) h)"

text \<open>\<open>for (size_t chunk = 0; chunk < msg.size(); chunk += 64)\<close>\<close>

definition sha1_starts :: "bytes \<Rightarrow> nat list" where
  "sha1_starts msg = map (\<lambda>k. k * 64) [0..<(length msg + 63) div 64]"

definition sha1_put :: "sha1_regs \<Rightarrow> bytes" where
  "sha1_put r = (case r of (h0, h1, h2, h3, h4) \<Rightarrow> be32 h0 @ be32 h1 @ be32 h2 @ be32 h3 @ be32 h4)"

definition sha1 :: "bytes \<Rightarrow> bytes" where
  "sha1 data =
     (let msg = sha1_pad data
      in sha1_put (fold (sha1_chunk msg) (sha1_starts msg)
           (0x67452301, 0xEFCDAB89, 0x98BADCFE, 0x10325476, 0xC3D2E1F0)))"

subsection \<open>Padding\<close>

lemma pad_loop_eq: "pad_loop msg = msg @ replicate (pad_left (length msg)) 0"
proof (induction msg rule: pad_loop.induct)
  case (1 msg)
  show ?case
  proof (cases "length msg mod 64 = 56")
    case True
    then show ?thesis by (subst pad_loop.simps) (simp add: pad_left_def)
  next
    case False
    then have "replicate (pad_left (length msg)) (0 :: u8) = 0 # replicate (pad_left (Suc (length msg))) 0"
      using pad_left_step [of "length msg"] by (simp flip: replicate_Suc)
    then show ?thesis using 1 False by (subst pad_loop.simps) simp
  qed
qed

lemma pad_left_mod: "(n + pad_left n) mod 64 = 56"
proof -
  have "n mod 64 < 64" by simp
  then have "(n mod 64 + pad_left n) mod 64 = 56" by (auto simp: pad_left_def)
  then show ?thesis by (simp add: mod_add_left_eq)
qed

lemma length_be64 [simp]: "length (be64 w) = 8"
  by (simp add: be64_def)

lemma length_sha1_pad: "length (sha1_pad data) mod 64 = 0"
proof -
  have "length (sha1_pad data) = (length data + 1 + pad_left (length data + 1)) + 8"
    by (simp add: sha1_pad_def pad_loop_eq)
  moreover have "m mod 64 = 56 \<Longrightarrow> (m + 8) mod 64 = 0" for m :: nat by presburger
  ultimately show ?thesis using pad_left_mod [of "length data + 1"] by metis
qed

subsection \<open>The reference computation\<close>

text \<open>
  RFC 3174, section 6.2: the method with a circular queue of sixteen words, in arithmetic modulo
  \<open>2 ^ 32\<close> on natural numbers.
\<close>

definition ref_S :: "nat \<Rightarrow> nat \<Rightarrow> nat" where
  "ref_S n x = (x * 2 ^ n) mod 4294967296 OR x div 2 ^ (32 - n)"

definition ref_f :: "nat \<Rightarrow> nat \<Rightarrow> nat \<Rightarrow> nat \<Rightarrow> nat" where
  "ref_f t b c d =
     (if t < 20 then (b AND c) OR ((4294967295 - b) AND d)
      else if t < 40 then b XOR c XOR d
      else if t < 60 then (b AND c) OR (b AND d) OR (c AND d)
      else b XOR c XOR d)"

definition ref_K :: "nat \<Rightarrow> nat" where
  "ref_K t = (if t < 20 then 0x5A827999 else if t < 40 then 0x6ED9EBA1
              else if t < 60 then 0x8F1BBCDC else 0xCA62C1D6)"

type_synonym ref_state = "nat list \<times> nat \<times> nat \<times> nat \<times> nat \<times> nat"

fun ref_rounds :: "nat \<Rightarrow> nat \<Rightarrow> ref_state \<Rightarrow> ref_state" where
  "ref_rounds 0 t st = st"
| "ref_rounds (Suc k) t (queue, a, b, c, d, e) =
     ref_rounds k (t + 1)
       (tl queue @ [ref_S 1 (queue ! 13 XOR queue ! 8 XOR queue ! 2 XOR queue ! 0)],
        (ref_S 5 a + ref_f t b c d + e + ref_K t + hd queue) mod 4294967296, a, ref_S 30 b, c, d)"

lemma ref_rounds_add: "ref_rounds (j + k) t st = ref_rounds k (t + j) (ref_rounds j t st)"
  by (induction j t st rule: ref_rounds.induct) simp_all

lemma unat_NOT: "unat (NOT (x :: u32)) = 4294967295 - unat x"
proof -
  have "NOT x = - 1 - x" by (simp add: not_eq_complement)
  moreover have "x \<le> - 1" by (rule word_n1_ge)
  ultimately have "unat (NOT x) = unat (- 1 :: u32) - unat x" by (simp only: unat_sub)
  then show ?thesis by (simp add: unsigned_minus_1_eq_mask mask_eq_exp_minus_1)
qed

lemma unat_rotl: "unat (rotl x n) = ref_S n (unat x)"
proof -
  have "unat (push_bit n x) = (unat x * 2 ^ n) mod 4294967296"
    by (simp only: unsigned_push_bit_eq) (simp add: take_bit_eq_mod push_bit_eq_mult)
  moreover have "unat (drop_bit (32 - n) x) = unat x div 2 ^ (32 - n)"
    using unsigned_less [of x, where 'a = nat]
    by (simp only: unsigned_drop_bit_eq) (simp add: drop_bit_eq_div take_bit_eq_mod)
  ultimately show ?thesis by (simp only: rotl_def ref_S_def unsigned_or_eq)
qed

lemma unat_plus32: "unat (x + y :: u32) = (unat x + unat y) mod 4294967296"
  by (simp add: unat_word_ariths)

lemmas unat_ops = unat_plus32 unat_rotl unsigned_or_eq unsigned_and_eq unsigned_xor_eq unat_NOT

lemma sha1_round_ref:
  "sha1_round t w (a, b, c, d, e) = (a', b', c', d', e') \<Longrightarrow>
   unat a' = (ref_S 5 (unat a) + ref_f t (unat b) (unat c) (unat d) + unat e + ref_K t + unat w) mod 4294967296 \<and>
   b' = a \<and> unat c' = ref_S 30 (unat b) \<and> d' = c \<and> e' = d"
  by (auto simp: unat_ops ref_f_def ref_K_def mod_simps add.assoc)

lemma w_extend_append: "w_extend (j + k) w = w_extend k (w_extend j w)"
  by (induction j w rule: w_extend.induct) (simp_all add: Let_def)

lemma w_extend_prefix: "\<exists>ext. w_extend k w = w @ ext \<and> length ext = k"
proof (induction k w rule: w_extend.induct)
  case (2 k w)
  then show ?case by (auto simp: Let_def)
qed simp

lemma w_extend_next:
  assumes "16 \<le> i" and "i < length w + k" and "length w \<le> i"
  shows "w_extend k w ! i = rotl (w_extend k w ! (i - 3) XOR w_extend k w ! (i - 8) XOR
    w_extend k w ! (i - 14) XOR w_extend k w ! (i - 16)) 1"
proof -
  define u where "u = w_extend (i - length w) w"
  have u: "length u = i" using w_extend_prefix [of "i - length w" w] assms(3) by (auto simp: u_def)
  let ?n = "rotl (u ! (i - 3) XOR u ! (i - 8) XOR u ! (i - 14) XOR u ! (i - 16)) 1"
  define m where "m = k - (i - length w) - 1"
  have "k = (i - length w) + Suc m" using assms by (simp add: m_def)
  then have "w_extend k w = w_extend (Suc m) u"
    using w_extend_append [of "i - length w" "Suc m" w] by (simp only: u_def)
  then have "w_extend k w = w_extend m (u @ [?n])" by (simp add: u Let_def)
  then obtain ext where e: "w_extend k w = (u @ [?n]) @ ext" using w_extend_prefix by metis
  show ?thesis unfolding e using u assms(1) by (simp add: nth_append)
qed

lemma window_step:
  assumes "length w = 16" and "t < 80"
  shows "map unat (take 16 (drop (Suc t) (w_extend 80 w))) =
    tl (map unat (take 16 (drop t (w_extend 80 w)))) @
      [let q = map unat (take 16 (drop t (w_extend 80 w)))
       in ref_S 1 (q ! 13 XOR q ! 8 XOR q ! 2 XOR q ! 0)]"
proof -
  let ?W = "w_extend 80 w"
  have len: "length ?W = 96" using w_extend_prefix [of 80 w] assms(1) by auto
  have next_word: "?W ! (t + 16) = rotl (?W ! (t + 13) XOR ?W ! (t + 8) XOR ?W ! (t + 2) XOR ?W ! t) 1"
    using w_extend_next [of "t + 16" w 80] assms by (simp add: add.commute [of t])
  have "take 16 (drop (Suc t) ?W) = take 15 (drop (Suc t) ?W) @ [?W ! (t + 16)]"
    using take_Suc_conv_app_nth [of 15 "drop (Suc t) ?W"] len assms(2) by (simp add: add.commute)
  moreover have "take 15 (drop (Suc t) ?W) = tl (take 16 (drop t ?W))"
    by (simp add: tl_take tl_drop drop_Suc)
  ultimately show ?thesis
    using len assms(2) by (simp add: next_word map_tl unat_ops Let_def)
qed

lemma sha1_rounds_ref:
  assumes "length w = 16" and "k + t = 80" and "W = w_extend 64 w"
    and "sha1_rounds t (drop t W) (a, b, c, d, e) = (a', b', c', d', e')"
  shows "snd (ref_rounds k t (map unat (take 16 (drop t (w_extend 80 w))), unat a, unat b, unat c, unat d, unat e))
    = (unat a', unat b', unat c', unat d', unat e')"
  using assms(2,4)
proof (induction k arbitrary: t a b c d e)
  case 0
  have "length W = 80" using w_extend_prefix [of 64 w] assms(1,3) by auto
  then show ?case using 0 by simp
next
  case (Suc k)
  have len: "length W = 80" using w_extend_prefix [of 64 w] assms(1,3) by auto
  have t: "t < 80" using Suc.prems(1) by simp
  obtain ext where "w_extend 80 w = W @ ext" "length ext = 16"
    using w_extend_append [of 64 16 w] w_extend_prefix [of 16 W] assms(3) by auto
  then have hd_q: "hd (map unat (take 16 (drop t (w_extend 80 w)))) = unat (W ! t)"
    using len t by (simp add: hd_conv_nth hd_map nth_append)
  have dr: "drop t W = W ! t # drop (Suc t) W" using len t by (simp add: Cons_nth_drop_Suc)
  obtain a1 b1 c1 d1 e1 where r: "sha1_round t (W ! t) (a, b, c, d, e) = (a1, b1, c1, d1, e1)"
    by (cases "sha1_round t (W ! t) (a, b, c, d, e)") auto
  have "snd (ref_rounds (Suc k) t (map unat (take 16 (drop t (w_extend 80 w))), unat a, unat b, unat c, unat d, unat e))
     = snd (ref_rounds k (Suc t) (map unat (take 16 (drop (Suc t) (w_extend 80 w))),
         unat a1, unat b1, unat c1, unat d1, unat e1))"
    using sha1_round_ref [OF r] by (simp add: hd_q window_step [OF assms(1) t] Let_def)
  also have "\<dots> = (unat a', unat b', unat c', unat d', unat e')"
    using Suc.prems r by (intro Suc.IH) (simp_all add: dr del: sha1_round.simps)
  finally show ?case .
qed

definition ref_chunk :: "nat list \<Rightarrow> nat list \<Rightarrow> nat list" where
  "ref_chunk queue h = (case ref_rounds 80 0 (queue, h ! 0, h ! 1, h ! 2, h ! 3, h ! 4) of
     (_, a, b, c, d, e) \<Rightarrow> map2 (\<lambda>x y. (x + y) mod 4294967296) h [a, b, c, d, e])"

fun regs :: "sha1_regs \<Rightarrow> nat list" where
  "regs (a, b, c, d, e) = [unat a, unat b, unat c, unat d, unat e]"

lemma length_w_init [simp]: "length (w_init msg chunk) = 16"
  by (simp add: w_init_def)

lemma sha1_chunk_ref: "regs (sha1_chunk msg chunk h) = ref_chunk (map unat (w_init msg chunk)) (regs h)"
proof -
  obtain a b c d e where h: "h = (a, b, c, d, e)" by (cases h) auto
  obtain a' b' c' d' e' where r: "sha1_rounds 0 (w_extend 64 (w_init msg chunk)) (a, b, c, d, e) = (a', b', c', d', e')"
    by (cases "sha1_rounds 0 (w_extend 64 (w_init msg chunk)) (a, b, c, d, e)") auto
  obtain ext where "w_extend 80 (w_init msg chunk) = w_init msg chunk @ ext"
    using w_extend_prefix by blast
  then have "take 16 (w_extend 80 (w_init msg chunk)) = w_init msg chunk" by simp
  with sha1_rounds_ref [of "w_init msg chunk" 80 0 _ a b c d e a' b' c' d' e'] r
  show ?thesis by (auto simp: h sha1_chunk_def ref_chunk_def unat_plus32 split: prod.splits)
qed

lemma regs_fold: "regs (fold (sha1_chunk msg) cs h) =
    fold (\<lambda>c. ref_chunk (map unat (w_init msg c))) cs (regs h)"
  by (induction cs arbitrary: h) (simp_all add: sha1_chunk_ref)

lemma sha1_put_regs: "sha1_put r = concat (map (\<lambda>n. be32 (word_of_nat n)) (regs r))"
  by (cases r) (simp add: sha1_put_def)

definition ref_sha1 :: "bytes \<Rightarrow> nat list" where
  "ref_sha1 data = fold (\<lambda>c. ref_chunk (map unat (w_init (sha1_pad data) c)))
     (map (\<lambda>k. k * 64) [0..<length (sha1_pad data) div 64])
     [0x67452301, 0xEFCDAB89, 0x98BADCFE, 0x10325476, 0xC3D2E1F0]"

lemma sha1_starts_pad: "sha1_starts (sha1_pad data) = map (\<lambda>k. k * 64) [0..<length (sha1_pad data) div 64]"
proof -
  have "n mod 64 = 0 \<Longrightarrow> (n + 63) div 64 = n div 64" for n :: nat
    by (auto elim!: dvdE simp flip: dvd_eq_mod_eq_0)
  then show ?thesis using length_sha1_pad [of data] by (simp add: sha1_starts_def)
qed

lemma sha1_ref: "sha1 data = concat (map (\<lambda>n. be32 (word_of_nat n)) (ref_sha1 data))"
  by (simp add: sha1_def Let_def sha1_put_regs regs_fold sha1_starts_pad ref_sha1_def)

text \<open>
  The standard's function on bytes, independent of the code: padding (section 4), big-endian words,
  blocks of sixteen words.
\<close>

definition rfc_pad :: "bytes \<Rightarrow> bytes" where
  "rfc_pad data = data @ 0x80 # replicate ((119 - length data mod 64) mod 64) 0 @
     map (\<lambda>i. word_of_nat (8 * length data div 256 ^ (7 - i))) [0..<8]"

fun rfc_words :: "bytes \<Rightarrow> nat list" where
  "rfc_words (a # b # c # d # rest) =
     (unat a * 2 ^ 24 + unat b * 2 ^ 16 + unat c * 2 ^ 8 + unat d) # rfc_words rest"
| "rfc_words _ = []"

definition rfc_sha1 :: "bytes \<Rightarrow> nat list" where
  "rfc_sha1 data = fold ref_chunk
     (map (\<lambda>k. take 16 (drop (16 * k) (rfc_words (rfc_pad data)))) [0..<length (rfc_pad data) div 64])
     [0x67452301, 0xEFCDAB89, 0x98BADCFE, 0x10325476, 0xC3D2E1F0]"

lemma length_rfc_words [simp]: "length (rfc_words b) = length b div 4"
  by (induction b rule: rfc_words.induct) auto

lemma rfc_words_nth: "4 * i + 3 < length b \<Longrightarrow> rfc_words b ! i =
    unat (b ! (4 * i)) * 2 ^ 24 + unat (b ! (4 * i + 1)) * 2 ^ 16 + unat (b ! (4 * i + 2)) * 2 ^ 8 + unat (b ! (4 * i + 3))"
proof (induction b arbitrary: i rule: rfc_words.induct)
  case (1 x0 x1 x2 x3 rest)
  show ?case
  proof (cases i)
    case (Suc j)
    have n: "(x0 # x1 # x2 # x3 # rest) ! (4 * Suc j + m) = rest ! (4 * j + m)" for m by (simp add: add.commute)
    have "4 * j + 3 < length rest" using 1(2) Suc by simp
    from 1(1) [OF this] show ?thesis using n [of 0] n [of 1] n [of 2] n [of 3] by (simp add: Suc)
  qed simp
qed auto

lemma or_low: "y < 2 ^ k \<Longrightarrow> x * 2 ^ k OR y = x * 2 ^ k + (y :: nat)"
proof -
  assume "y < 2 ^ k"
  then have y: "take_bit k y = y" by (simp add: take_bit_nat_eq_self)
  have "x * 2 ^ k AND y = push_bit k x AND take_bit k y" by (simp add: push_bit_eq_mult y)
  also have "\<dots> = 0" by (rule bit_eqI) (auto simp: bit_simps)
  finally show ?thesis by (simp add: disjunctive_add_eq_or)
qed

lemma unat_push_byte: "k \<le> 24 \<Longrightarrow> unat (push_bit k (ucast (a :: u8)) :: u32) = unat a * 2 ^ k"
proof -
  assume k: "k \<le> 24"
  have "unat a * 2 ^ k < 2 ^ 8 * 2 ^ k" using unsigned_less [of a, where 'a = nat] by simp
  also have "(2 :: nat) ^ 8 * 2 ^ k = 2 ^ (8 + k)" by (simp add: power_add)
  also have "\<dots> \<le> (2 :: nat) ^ 32" using k by (intro power_increasing) auto
  finally have "unat a * 2 ^ k < 2 ^ 32" .
  moreover have "take_bit 32 (unat a) = unat a"
    using unsigned_less [of a, where 'a = nat] by (intro take_bit_nat_eq_self) simp
  then have "unat (push_bit k (ucast a) :: u32) = take_bit 32 (unat a * 2 ^ k)"
    by (simp only: unsigned_push_bit_eq) (simp add: push_bit_eq_mult unsigned_ucast_eq)
  ultimately show ?thesis by (simp only: take_bit_nat_eq_self)
qed

lemma unat_be_word: "unat (push_bit 24 (ucast (a :: u8)) OR push_bit 16 (ucast (b :: u8)) OR
    push_bit 8 (ucast (c :: u8)) OR ucast (d :: u8) :: u32) =
    unat a * 2 ^ 24 + unat b * 2 ^ 16 + unat c * 2 ^ 8 + unat d"
proof -
  have l: "unat a < 256" "unat b < 256" "unat c < 256" "unat d < 256"
    using unsigned_less [of a, where 'a = nat] unsigned_less [of b, where 'a = nat]
      unsigned_less [of c, where 'a = nat] unsigned_less [of d, where 'a = nat] by simp_all
  have d: "unat (ucast d :: u32) = unat d" using unat_push_byte [of 0 d] by simp
  have "unat c * 2 ^ 8 OR unat d = unat c * 2 ^ 8 + unat d" using l by (intro or_low) simp
  moreover have "unat b * 2 ^ 16 OR (unat c * 2 ^ 8 + unat d) = unat b * 2 ^ 16 + (unat c * 2 ^ 8 + unat d)"
    using l by (intro or_low) simp
  moreover have "unat a * 2 ^ 24 OR (unat b * 2 ^ 16 + (unat c * 2 ^ 8 + unat d)) =
      unat a * 2 ^ 24 + (unat b * 2 ^ 16 + (unat c * 2 ^ 8 + unat d))"
    using l by (intro or_low) simp
  ultimately show ?thesis
    by (simp only: unsigned_or_eq d) (simp add: unat_push_byte or.assoc)
qed

lemma w_init_words:
  assumes "64 * k + 64 \<le> length msg"
  shows "map unat (w_init msg (k * 64)) = take 16 (drop (16 * k) (rfc_words msg))"
proof (rule nth_equalityI)
  show "length (map unat (w_init msg (k * 64))) = length (take 16 (drop (16 * k) (rfc_words msg)))"
    using assms by (simp add: w_init_def)
  fix i assume "i < length (map unat (w_init msg (k * 64)))"
  then have i: "i < 16" by (simp add: w_init_def)
  with assms have l: "4 * (16 * k + i) + 3 < length msg" "16 * k \<le> length msg div 4" by auto
  have "take 16 (drop (16 * k) (rfc_words msg)) ! i = rfc_words msg ! (16 * k + i)" using i l(2) by simp
  moreover have "map unat (w_init msg (k * 64)) ! i = rfc_words msg ! (16 * k + i)"
    unfolding rfc_words_nth [OF l(1)] using i by (simp only: w_init_def list.map_comp nth_map length_upt nth_upt o_def
        diff_zero add_0 unat_be_word length_map) (simp add: algebra_simps)
  ultimately show "map unat (w_init msg (k * 64)) ! i = take 16 (drop (16 * k) (rfc_words msg)) ! i" by simp
qed

lemma sha1_pad_rfc: "sha1_pad data = rfc_pad data"
proof -
  have p: "pad_left (Suc (length data)) = (119 - length data mod 64) mod 64"
  proof -
    have "r < 64 \<Longrightarrow> (119 - r) mod 64 = (if r \<le> 55 then 55 - r else 119 - r)" for r :: nat
      using mod_add_self1 [of 64 "55 - r"] by (auto simp: le_mod_geq)
    from this [of "length data mod 64"] show ?thesis by (auto simp: pad_left_def mod_Suc)
  qed
  have byte: "(ucast (drop_bit (i * 8) ((word_of_nat (length data) :: u64) * 8) AND 0xFF) :: u8) =
      word_of_nat (8 * length data div 256 ^ i)" if "i < 8" for i
  proof -
    obtain m where m: "m = 8 * length data" by blast
    have w: "(word_of_nat (length data) :: u64) * 8 = word_of_nat m" by (simp add: m mult.commute)
    have "(256 :: nat) ^ i = 2 ^ (i * 8)" using power_mult [of "2 :: nat" 8 i] by (simp add: mult.commute)
    then have e: "m div 256 ^ i = drop_bit (i * 8) m" by (simp add: drop_bit_eq_div)
    have k: "(0xFF :: u64) = mask 8" by (simp add: mask_eq_exp_minus_1)
    have "(ucast (drop_bit (i * 8) (word_of_nat m :: u64) AND mask 8) :: u8) = word_of_nat (drop_bit (i * 8) m)"
      using that by (intro bit_word_eqI) (auto simp: bit_simps)
    then show ?thesis unfolding w m [symmetric] e k .
  qed
  have be64: "be64 ((word_of_nat (length data) :: u64) * 8) =
      map (\<lambda>i. word_of_nat (8 * length data div 256 ^ (7 - i))) [0..<8]"
  proof (rule nth_equalityI)
    show "length (be64 ((word_of_nat (length data) :: u64) * 8)) =
      length (map (\<lambda>i. word_of_nat (8 * length data div 256 ^ (7 - i)) :: u8) [0..<8])" by simp
    fix i assume "i < length (be64 ((word_of_nat (length data) :: u64) * 8))"
    then have "i < 8" by simp
    then have "rev [0..<8] ! i = 7 - i" "7 - i < 8" "i < length (rev [0..<8 :: nat])" by (simp_all add: rev_nth)
    from \<open>i < 8\<close> this(1,3) byte [OF this(2)]
    show "be64 ((word_of_nat (length data) :: u64) * 8) ! i =
      map (\<lambda>i. word_of_nat (8 * length data div 256 ^ (7 - i))) [0..<8] ! i"
      unfolding be64_def by (simp only: nth_map length_upt nth_upt diff_zero add_0)
  qed
  show ?thesis by (simp only: sha1_pad_def rfc_pad_def pad_loop_eq be64 Let_def) (simp add: p)
qed

lemma fold_on_blocks: "(\<And>c. c \<in> set cs \<Longrightarrow> p c = q c) \<Longrightarrow> fold (\<lambda>c. f (p c)) cs x = fold f (map q cs) x"
  by (induction cs arbitrary: x) auto

lemma ref_sha1_rfc: "ref_sha1 data = rfc_sha1 data"
  unfolding ref_sha1_def rfc_sha1_def sha1_pad_rfc fold_map comp_def
  by (subst fold_on_blocks [where q = "\<lambda>k. take 16 (drop (16 * k) (rfc_words (rfc_pad data)))"])
    (auto simp: fold_map comp_def intro!: w_init_words)

text \<open>
  Property C26: the hand-written SHA-1 is the function of RFC 3174 on every input: the digest is the five
  words the standard's method leaves, in big-endian order, over the padded message.
\<close>

theorem sha1_rfc3174: "sha1 data = concat (map (\<lambda>n. be32 (word_of_nat n)) (rfc_sha1 data))"
  by (simp add: sha1_ref ref_sha1_rfc)

subsection \<open>Evaluation\<close>

lemma ref_rounds_numeral:
  "ref_rounds (numeral k) t ([q0, q1, q2, q3, q4, q5, q6, q7, q8, q9, q10, q11, q12, q13, q14, q15], a, b, c, d, e) =
   ref_rounds (pred_numeral k) (t + 1)
     ([q1, q2, q3, q4, q5, q6, q7, q8, q9, q10, q11, q12, q13, q14, q15, ref_S 1 (q13 XOR q8 XOR q2 XOR q0)],
      (ref_S 5 a + ref_f t b c d + e + ref_K t + q0) mod 4294967296, a, ref_S 30 b, c, d)"
  by (simp only: numeral_eq_Suc [of k] ref_rounds.simps) simp

lemma ref_rounds_80: "ref_rounds 80 0 st =
    ref_rounds 20 60 (ref_rounds 20 40 (ref_rounds 20 20 (ref_rounds 20 0 st)))"
  using ref_rounds_add [of 20 60 0 st] ref_rounds_add [of 20 40 20] ref_rounds_add [of 20 20 40] by simp

lemmas ref_eval = ref_rounds_numeral ref_S_def ref_f_def ref_K_def

text \<open>The sample handshake of RFC 6455: the key and the GUID, two blocks once padded.\<close>

definition rfc6455_key :: bytes where
  "rfc6455_key = map (\<lambda>c. of_nat (of_char c)) (''dGhlIHNhbXBsZSBub25jZQ=='' @ ''258EAFA5-E914-47DA-95CA-C5AB0DC85B11'')"

lemma rfc_rounds1: "ref_rounds 20 0 ([1682401388, 1229475432, 1649951347, 1515405941, 1647457642, 1515273533, 842348613,
      1095123253, 759511345, 875377719, 1145122105, 893600045, 1127563586, 809780024, 893530417,
      2147483648], 1732584193, 4023233417, 2562383102, 271733878, 3285377520) =
    ([1874115766, 1175131875, 1502747054, 901747561, 845628814, 4163435780, 1966773927, 1664546322,
      3285607299, 116098809, 1941241154, 2768487864, 365801013, 1394499013, 1874245584, 1813439660],
      152746364, 2378502326, 3752774234, 1979104605, 671166746)"
  by (simp add: ref_eval)

lemma rfc_rounds2: "ref_rounds 20 20 ([1874115766, 1175131875, 1502747054, 901747561, 845628814, 4163435780, 1966773927, 1664546322,
      3285607299, 116098809, 1941241154, 2768487864, 365801013, 1394499013, 1874245584, 1813439660],
      152746364, 2378502326, 3752774234, 1979104605, 671166746) =
    ([3464898740, 1096661662, 663941193, 2392553959, 2042897861, 1666430109, 10043928, 2325024465,
      2942110617, 4254630878, 517537771, 4027055912, 1113470580, 93729216, 2909551665, 2248896983],
      732088382, 3498479745, 438141449, 3543353481, 662299890)"
  by (simp add: ref_eval)

lemma rfc_rounds3: "ref_rounds 20 40 ([3464898740, 1096661662, 663941193, 2392553959, 2042897861, 1666430109, 10043928, 2325024465,
      2942110617, 4254630878, 517537771, 4027055912, 1113470580, 93729216, 2909551665, 2248896983],
      732088382, 3498479745, 438141449, 3543353481, 662299890) =
    ([181358856, 3266607578, 1821587210, 4153629601, 3910963649, 3201394082, 1279150782,
      1356423736, 3059252702, 439281382, 758339734, 4081671435, 4077783581, 852382809, 1902502840,
      2869297044], 1215486042, 3531927907, 2198413067, 465420221, 2676265148)"
  by (simp add: ref_eval)

lemma rfc_rounds4: "ref_rounds 20 60 ([181358856, 3266607578, 1821587210, 4153629601, 3910963649, 3201394082, 1279150782,
      1356423736, 3059252702, 439281382, 758339734, 4081671435, 4077783581, 852382809, 1902502840,
      2869297044], 1215486042, 3531927907, 2198413067, 465420221, 2676265148) =
    ([3588832849, 3077087395, 3900201404, 1748404790, 3543020993, 2072991799, 1660139103,
      3677194539, 1478172550, 2560719458, 256464969, 1340098780, 315860597, 1849912420, 4279338625,
      55767031], 4102706214, 2203686369, 633413371, 1246086146, 2591277810)"
  by (simp add: ref_eval)

lemma rfc_block1: "ref_chunk [1682401388, 1229475432, 1649951347, 1515405941, 1647457642, 1515273533, 842348613, 1095123253,
      759511345, 875377719, 1145122105, 893600045, 1127563586, 809780024, 893530417, 2147483648]
    [1732584193, 4023233417, 2562383102, 271733878, 3285377520] = [1540323111, 1931952490, 3195796473, 1517820024, 1581688034]"
  by (simp add: ref_chunk_def ref_rounds_80 rfc_rounds1 rfc_rounds2 rfc_rounds3 rfc_rounds4)

lemma rfc_rounds5: "ref_rounds 20 0 ([0, 0, 0, 0, 0, 0, 0, 0, 0, 0, 0, 0, 0, 0, 0, 480], 1540323111, 1931952490, 3195796473,
      1517820024, 1581688034) =
    ([0, 1920, 0, 960, 3840, 0, 0, 7680, 0, 3264, 15360, 1088, 0, 30720, 3840, 13056], 704678737,
      790182409, 2626053057, 2394280195, 639335578)"
  by (simp add: ref_eval)

lemma rfc_rounds6: "ref_rounds 20 20 ([0, 1920, 0, 960, 3840, 0, 0, 7680, 0, 3264, 15360, 1088, 0, 30720, 3840, 13056], 704678737,
      790182409, 2626053057, 2394280195, 639335578) =
    ([0, 52224, 245760, 17280, 0, 495360, 65280, 206464, 983040, 61440, 13056, 2031360, 0, 833536,
      3932160, 264960], 1869188890, 3338603731, 3730487228, 1601125563, 497322629)"
  by (simp add: ref_eval)

lemma rfc_rounds7: "ref_rounds 20 40 ([0, 52224, 245760, 17280, 0, 495360, 65280, 206464, 983040, 61440, 13056, 2031360, 0, 833536,
      3932160, 264960], 1869188890, 3338603731, 3730487228, 1601125563, 497322629) =
    ([15728640, 1032960, 61440, 32488192, 0, 13369344, 62976000, 4423680, 0, 126812160, 16711680,
      52862464, 251658240, 15790080, 3357696, 520062976], 1443995417, 140423934, 1212818885,
      3242250216, 1752014928)"
  by (simp add: ref_eval)

lemma rfc_rounds8: "ref_rounds 20 60 ([15728640, 1032960, 61440, 32488192, 0, 13369344, 62976000, 4423680, 0, 126812160, 16711680,
      52862464, 251658240, 15790080, 3357696, 520062976], 1443995417, 140423934, 1212818885,
      3242250216, 1752014928) =
    ([15790080, 2029977600, 267586560, 864546816, 4026531840, 264516608, 15728640, 4021831681,
      1044480, 3422613504, 3237015555, 1134428160, 0, 2399931399, 4282122240, 647627779], 1470814213,
      1295715756, 3531229709, 1958756557, 1417158664)"
  by (simp add: ref_eval)

lemma rfc_block2: "ref_chunk [0, 0, 0, 0, 0, 0, 0, 0, 0, 0, 0, 0, 0, 0, 0, 480]
    [1540323111, 1931952490, 3195796473, 1517820024, 1581688034] = [3011137324, 3227668246, 2432058886, 3476576581, 2998846698]"
  by (simp add: ref_chunk_def ref_rounds_80 rfc_rounds5 rfc_rounds6 rfc_rounds7 rfc_rounds8)

lemma rfc6455_key_bytes: "rfc6455_key = [100, 71, 104, 108, 73, 72, 78, 104, 98, 88, 66, 115, 90, 83, 66, 117, 98, 50, 53, 106, 90, 81,
      61, 61, 50, 53, 56, 69, 65, 70, 65, 53, 45, 69, 57, 49, 52, 45, 52, 55, 68, 65, 45, 57, 53, 67,
      65, 45, 67, 53, 65, 66, 48, 68, 67, 56, 53, 66, 49, 49]"
  by (simp add: rfc6455_key_def)

lemma be64_480: "be64 480 = [0, 0, 0, 0, 0, 0, 1, 224]"
  by (simp add: be64_def drop_bit_eq_div upt_rec)

lemma rfc6455_pad: "sha1_pad rfc6455_key = rfc6455_key @ [128] @ replicate 59 0 @ [0, 0, 0, 0, 0, 0, 1, 224]"
  by (simp add: sha1_pad_def rfc6455_key_bytes pad_loop_eq pad_left_def be64_480)

lemma upt_16: "[0..<16] = [0, 1, 2, 3, 4, 5, 6, 7, 8, 9, 10, 11, 12, 13, 14, 15 :: nat]"
  by (simp add: upt_rec)

lemma replicate_59: "replicate 59 x = [x, x, x, x, x, x, x, x, x, x, x, x, x, x, x, x, x, x, x, x, x, x, x, x, x, x, x, x, x, x, x,
      x, x, x, x, x, x, x, x, x, x, x, x, x, x, x, x, x, x, x, x, x, x, x, x, x, x, x, x]"
  by (simp add: numeral_eq_Suc)

lemma rfc6455_words:
  "map unat (w_init (sha1_pad rfc6455_key) 0) = [1682401388, 1229475432, 1649951347, 1515405941, 1647457642, 1515273533, 842348613, 1095123253,
      759511345, 875377719, 1145122105, 893600045, 1127563586, 809780024, 893530417, 2147483648]"
  "map unat (w_init (sha1_pad rfc6455_key) 64) = [0, 0, 0, 0, 0, 0, 0, 0, 0, 0, 0, 0, 0, 0, 0, 480]"
  unfolding rfc6455_pad unfolding rfc6455_key_bytes replicate_59 w_init_def upt_16
  by simp_all

lemma rfc6455_digest: "sha1 rfc6455_key = [179, 122, 79, 44, 192, 98, 79, 22, 144, 246, 70, 6, 207, 56, 89, 69, 178, 190, 196, 234]"
proof -
  have len: "length (sha1_pad rfc6455_key) = 128"
    unfolding rfc6455_pad unfolding rfc6455_key_bytes by simp
  have "[0..<2] = [0, 1 :: nat]" by (simp add: upt_rec)
  then have "ref_sha1 rfc6455_key = [3011137324, 3227668246, 2432058886, 3476576581, 2998846698]"
    by (simp add: ref_sha1_def len rfc6455_words rfc_block1 rfc_block2)
  then show ?thesis by (simp add: sha1_ref be32_def drop_bit_eq_div)
qed

section \<open>Base64\<close>

definition kTable :: string where
  "kTable = ''ABCDEFGHIJKLMNOPQRSTUVWXYZabcdefghijklmnopqrstuvwxyz0123456789+/''"

definition sextet_at :: "u32 \<Rightarrow> nat \<Rightarrow> u32" where
  "sextet_at n s = drop_bit s n AND 0x3F"

definition table_char :: "u32 \<Rightarrow> nat \<Rightarrow> char" where
  "table_char n s = kTable ! unat (sextet_at n s)"

fun base64Encode :: "bytes \<Rightarrow> string" where
  "base64Encode (a # b # c # rest) =
     (let n = push_bit 16 (ucast a) OR push_bit 8 (ucast b) OR ucast c
      in table_char n 18 # table_char n 12 # table_char n 6 # table_char n 0 # base64Encode rest)"
| "base64Encode [a] =
     (let n = push_bit 16 (ucast a) in [table_char n 18, table_char n 12, CHR ''='', CHR ''=''])"
| "base64Encode [a, b] =
     (let n = push_bit 16 (ucast a) OR push_bit 8 (ucast b)
      in [table_char n 18, table_char n 12, table_char n 6, CHR ''=''])"
| "base64Encode [] = []"

text \<open>A decoder for the standard alphabet.\<close>

fun index_of :: "'a \<Rightarrow> 'a list \<Rightarrow> nat option" where
  "index_of x [] = None"
| "index_of x (y # ys) = (if x = y then Some 0 else map_option Suc (index_of x ys))"

definition sextet :: "char \<Rightarrow> u32 option" where
  "sextet c = map_option word_of_nat (index_of c kTable)"

fun base64_decode :: "string \<Rightarrow> bytes option" where
  "base64_decode [] = Some []"
| "base64_decode (p # q # r # s # rest) =
     (if s = CHR ''='' then
        (if rest \<noteq> [] then None
         else if r = CHR ''='' then
           (case (sextet p, sextet q) of
              (Some i, Some j) \<Rightarrow> Some [ucast (push_bit 2 i OR drop_bit 4 j)]
            | _ \<Rightarrow> None)
         else (case (sextet p, sextet q, sextet r) of
              (Some i, Some j, Some k) \<Rightarrow>
                Some [ucast (push_bit 2 i OR drop_bit 4 j), ucast (push_bit 4 j OR drop_bit 2 k)]
            | _ \<Rightarrow> None))
      else (case (sextet p, sextet q, sextet r, sextet s, base64_decode rest) of
              (Some i, Some j, Some k, Some l, Some bs) \<Rightarrow>
                Some (ucast (push_bit 2 i OR drop_bit 4 j) # ucast (push_bit 4 j OR drop_bit 2 k) #
                      ucast (push_bit 6 k OR l) # bs)
            | _ \<Rightarrow> None))"
| "base64_decode _ = None"

lemma index_of_nth: "distinct xs \<Longrightarrow> i < length xs \<Longrightarrow> index_of (xs ! i) xs = Some i"
  by (induction xs arbitrary: i) (auto simp: nth_Cons split: nat.split)

lemma kTable_facts: "distinct kTable" "length kTable = 64" "CHR ''='' \<notin> set kTable"
  by (simp_all add: kTable_def)

lemma sextet_at_take: "sextet_at n s = take_bit 6 (drop_bit s n)"
  by (simp add: sextet_at_def take_bit_eq_mask mask_eq_exp_minus_1)

lemma sextet_bound: "unat (sextet_at n s) < 64"
  unfolding sextet_at_take using take_bit_nat_less_exp [of 6 "unat (drop_bit s n)"]
  by (simp add: unsigned_take_bit_eq)

lemma sextet_table_char: "sextet (table_char n s) = Some (sextet_at n s)"
  using index_of_nth [OF kTable_facts(1)] sextet_bound [of n s] kTable_facts(2)
  by (simp add: sextet_def table_char_def)

lemma table_char_pad: "table_char n s \<noteq> CHR ''=''"
  unfolding table_char_def using sextet_bound [of n s] kTable_facts(2,3) by (metis nth_mem)

lemma u8_beyond: "8 \<le> i \<Longrightarrow> \<not> bit (x :: u8) i"
  using bit_imp_le_length [of x i] by auto

lemma byte_index: "i < LENGTH(8) \<Longrightarrow> i \<in> {0, 1, 2, 3, 4, 5, 6, 7}"
  by auto

lemma sextets_bytes:
  fixes a b c :: u8
  defines "n \<equiv> push_bit 16 (ucast a) OR push_bit 8 (ucast b) OR ucast c :: u32"
  shows "ucast (push_bit 2 (sextet_at n 18) OR drop_bit 4 (sextet_at n 12)) = a"
    and "ucast (push_bit 4 (sextet_at n 12) OR drop_bit 2 (sextet_at n 6)) = b"
    and "ucast (push_bit 6 (sextet_at n 6) OR sextet_at n 0) = c"
  unfolding n_def sextet_at_take
  by (rule bit_word_eqI, drule byte_index, elim insertE emptyE; simp add: bit_simps u8_beyond)+

text \<open>
  Base64 decoding inverts the encoding for every input, and the encoding has the length the
  code reserves for it.
\<close>

theorem base64_roundtrip:
  "base64_decode (base64Encode bs) = Some bs \<and> length (base64Encode bs) = (length bs + 2) div 3 * 4"
proof (induction bs rule: base64Encode.induct)
  case (1 a b c rest)
  moreover have "(length rest + 3 + 2) div 3 = Suc ((length rest + 2) div 3)" by simp
  ultimately show ?case by (simp add: Let_def sextet_table_char table_char_pad sextets_bytes)
next
  case (2 a)
  then show ?case using sextets_bytes(1) [of a 0 0] by (simp add: Let_def sextet_table_char)
next
  case (3 a b)
  then show ?case using sextets_bytes(1,2) [of a b 0]
    by (simp add: Let_def sextet_table_char table_char_pad)
qed simp

definition kMagicGuid :: string where
  "kMagicGuid = ''258EAFA5-E914-47DA-95CA-C5AB0DC85B11''"

definition text_bytes :: "string \<Rightarrow> bytes" where
  "text_bytes s = map (\<lambda>c. of_nat (of_char c)) s"

definition expected_accept :: "string \<Rightarrow> string" where
  "expected_accept key = base64Encode (sha1 (text_bytes (key @ kMagicGuid)))"

lemma expected_accept_sample:
  "expected_accept ''dGhlIHNhbXBsZSBub25jZQ=='' = ''s3pPLMBiTxaQ9kYGzzhZRbK+xOo=''"
proof -
  have "text_bytes (''dGhlIHNhbXBsZSBub25jZQ=='' @ kMagicGuid) = rfc6455_key"
    by (simp only: text_bytes_def kMagicGuid_def rfc6455_key_def)
  then show ?thesis
    by (simp add: expected_accept_def rfc6455_digest Let_def table_char_def sextet_at_def kTable_def drop_bit_eq_div)
qed

text \<open>
  The answer the client demands from the server for the sample key of RFC 6455 is the one
  the standard prescribes.
\<close>

theorem expected_accept_rfc6455:
  "expected_accept ''dGhlIHNhbXBsZSBub25jZQ=='' = ''s3pPLMBiTxaQ9kYGzzhZRbK+xOo=''"
  by (rule expected_accept_sample)

section \<open>Text searching\<close>

definition CRLF :: string where "CRLF = [CHR 0x0D, CHR 0x0A]"

lemma CRLF_not_Nil [simp]: "CRLF \<noteq> []" "length CRLF = 2"
  by (simp_all add: CRLF_def)

text \<open>\<open>std::string::find\<close>: the index of the first occurrence.\<close>

fun find_sub :: "string \<Rightarrow> string \<Rightarrow> nat option" where
  "find_sub pat [] = (if pat = [] then Some 0 else None)"
| "find_sub pat (c # cs) =
     (if take (length pat) (c # cs) = pat then Some 0 else map_option Suc (find_sub pat cs))"

lemma find_sub_Some: "find_sub pat s = Some k \<Longrightarrow>
    \<exists>rest. s = take k s @ pat @ rest \<and> k + length pat \<le> length s"
proof (induction pat s arbitrary: k rule: find_sub.induct)
  case (2 pat c cs)
  show ?case
  proof (cases "take (length pat) (c # cs) = pat")
    case True
    then have "length pat \<le> length (c # cs)" by (metis length_take min.cobounded1)
    moreover have "c # cs = pat @ drop (length pat) (c # cs)"
      using True append_take_drop_id [of "length pat" "c # cs"] by simp
    ultimately show ?thesis using 2(2) True by auto
  next
    case False
    with 2(2) obtain j where j: "find_sub pat cs = Some j" "k = Suc j" by auto
    from 2(1) [OF False j(1)] j(2) show ?thesis by auto
  qed
qed (auto split: if_splits)

lemma find_sub_char: "find_sub [x] s = (if x \<in> set s then Some (length (takeWhile (\<lambda>c. c \<noteq> x) s)) else None)"
  by (induction s) auto

lemma find_sub_CRLF: "CHR 0x0D \<notin> set line \<Longrightarrow> find_sub CRLF (line @ CRLF @ rest) = Some (length line)"
  by (induction line) (auto simp: CRLF_def)

definition tolower :: "char \<Rightarrow> char" where
  "tolower c = (if 65 \<le> (of_char c :: nat) \<and> (of_char c :: nat) \<le> 90 then char_of ((of_char c :: nat) + 32) else c)"

definition trim_value :: "string \<Rightarrow> string" where
  "trim_value v =
     (let front = dropWhile (\<lambda>c. c = CHR '' '' \<or> c = CHR 0x09) v
      in rev (dropWhile (\<lambda>c. c = CHR '' '' \<or> c = CHR 0x09 \<or> c = CHR 0x0D) (rev front)))"

text \<open>The loop of \<open>findHeaderValue\<close> on the text from \<open>pos\<close> on.\<close>

function find_header :: "string \<Rightarrow> string \<Rightarrow> string" where
  "find_header text_rest headerName =
     (if text_rest = [] then []
      else
        let lineEnd = find_sub CRLF text_rest;
            line = (case lineEnd of None \<Rightarrow> text_rest | Some e \<Rightarrow> take e text_rest);
            continue = (case lineEnd of None \<Rightarrow> [] | Some e \<Rightarrow> find_header (drop (e + 2) text_rest) headerName)
        in case find_sub '':'' line of
             None \<Rightarrow> continue
           | Some colon \<Rightarrow>
               if map tolower (take colon line) = map tolower headerName
               then trim_value (drop (colon + 1) line)
               else continue)"
  by pat_completeness auto
termination
  by (relation "measure (\<lambda>(text_rest, _). length text_rest)") auto

declare find_header.simps [simp del]

definition findHeaderValue :: "string \<Rightarrow> string \<Rightarrow> string" where
  "findHeaderValue response headerName = find_header response headerName"

text \<open>The meaning of a header block as a list of lines.\<close>

fun header_of_lines :: "string list \<Rightarrow> string \<Rightarrow> string" where
  "header_of_lines [] name = []"
| "header_of_lines (l # ls) name =
     (if CHR '':'' \<in> set l \<and>
         map tolower (takeWhile (\<lambda>c. c \<noteq> CHR '':'') l) = map tolower name
      then trim_value (tl (dropWhile (\<lambda>c. c \<noteq> CHR '':'') l))
      else header_of_lines ls name)"

lemma colon_parts:
  assumes "CHR '':'' \<in> set l"
  shows "take (length (takeWhile (\<lambda>c. c \<noteq> CHR '':'') l)) l = takeWhile (\<lambda>c. c \<noteq> CHR '':'') l"
    and "drop (Suc (length (takeWhile (\<lambda>c. c \<noteq> CHR '':'') l))) l = tl (dropWhile (\<lambda>c. c \<noteq> CHR '':'') l)"
  by (simp_all add: takeWhile_eq_take [symmetric] dropWhile_eq_drop tl_drop drop_Suc)

lemma find_header_line:
  assumes "CHR 0x0D \<notin> set l"
  shows "find_header (l @ CRLF @ rest) name =
    (if CHR '':'' \<in> set l \<and> map tolower (takeWhile (\<lambda>c. c \<noteq> CHR '':'') l) = map tolower name
     then trim_value (tl (dropWhile (\<lambda>c. c \<noteq> CHR '':'') l)) else find_header rest name)"
proof -
  have "l @ CRLF @ rest \<noteq> []" "drop (length l + 2) (l @ CRLF @ rest) = rest"
    by (simp_all add: CRLF_def)
  then show ?thesis
    using find_sub_CRLF [OF assms, of rest] colon_parts [of l]
    by (subst find_header.simps) (simp add: find_sub_char)
qed

text \<open>
  On a response made of lines, the header search returns the trimmed value of the first line
  whose name matches without regard to case, wherever it stands, skipping lines that are not
  headers, and the empty string when there is none.
\<close>

theorem findHeaderValue_lines:
  assumes "\<forall>l \<in> set ls. CHR 0x0D \<notin> set l"
  shows "findHeaderValue (concat (map (\<lambda>l. l @ CRLF) ls) @ CRLF) name = header_of_lines ls name"
  using assms unfolding findHeaderValue_def
proof (induction ls)
  case Nil
  have "find_header ([] @ CRLF @ []) name = find_header [] name"
    using find_header_line [of "[]" "[]" name] by simp
  then show ?case by (simp add: find_header.simps [of "[]"])
next
  case (Cons l ls)
  then show ?case using find_header_line [of l "concat (map (\<lambda>l. l @ CRLF) ls) @ CRLF" name] by simp
qed

theorem findHeaderValue_lines_witness:
  "findHeaderValue (''HTTP/1.1 101 Ok'' @ CRLF @ ''upgrade: websocket'' @ CRLF @
     ''SEC-WebSocket-accept:  abc= '' @ CRLF @ CRLF) ''Sec-WebSocket-Accept'' = ''abc=''"
proof -
  have a: "char_of (97 :: nat) = CHR ''a''" by (simp add: char_of_eq_iff)
  show ?thesis
    using findHeaderValue_lines [of "[''HTTP/1.1 101 Ok'', ''upgrade: websocket'', ''SEC-WebSocket-accept:  abc= '']"
        "''Sec-WebSocket-Accept''"]
    by (simp add: tolower_def trim_value_def char_of_eq_iff a)
qed

section \<open>Sending and connecting\<close>

text \<open>
  \<open>sendAll\<close>: the results of the \<open>send\<close> calls are a list; what reached the kernel, and the outcome (\<open>None\<close>
  while a call is still blocked).
\<close>

fun sendAll :: "string \<Rightarrow> int list \<Rightarrow> bytes \<Rightarrow> bytes \<times> unit outcome option" where
  "sendAll err results [] = ([], Some (Inr ()))"
| "sendAll err [] data = ([], None)"
| "sendAll err (n # results) data =
     (if n \<le> 0 then ([], Some (Inl (Throw (RuntimeError (''send() failed: '' @ err)))))
      else case sendAll err results (drop (nat n) data) of (w, r) \<Rightarrow> (take (nat n) data @ w, r))"

lemma sendAll_prefix: "sendAll err results data = (w, r) \<Longrightarrow>
    (\<exists>rest. data = w @ rest) \<and> (r = Some (Inr ()) \<longrightarrow> w = data)"
proof (induction err results data arbitrary: w r rule: sendAll.induct)
  case (3 err n results d ds)
  show ?case
  proof (cases "n \<le> 0")
    case False
    obtain w' r' where s: "sendAll err results (drop (nat n) (d # ds)) = (w', r')" by fastforce
    from 3(1) [OF False s] have i: "\<exists>rest. drop (nat n) (d # ds) = w' @ rest"
      "r' = Some (Inr ()) \<longrightarrow> w' = drop (nat n) (d # ds)" by auto
    have "w = take (nat n) (d # ds) @ w'" "r = r'" using 3(2) False s by auto
    with i show ?thesis by (metis append_assoc append_take_drop_id)
  qed (use 3(2) in auto)
qed auto

text \<open>What the system calls of one connection attempt return.\<close>

record dial_os =
  d_socket :: int
  d_connect :: int
  d_inprogress :: bool
  d_select :: int
  d_soErr :: int
  d_strerror :: string

definition kConnectTimeoutSec :: int where "kConnectTimeoutSec = 5"
definition kHandshakeTimeoutSec :: int where "kHandshakeTimeoutSec = 5"

definition connectWithTimeout :: "dial_os \<Rightarrow> int \<Rightarrow> string \<Rightarrow> bool \<times> string" where
  "connectWithTimeout d timeoutSec err =
     (if d_connect d = 0 then (True, err)
      else if \<not> d_inprogress d then (False, d_strerror d)
      else if d_select d = 0 then (False, ''timed out after '' @ show_int timeoutSec @ ''s'')
      else if d_select d < 0 then (False, d_strerror d)
      else if d_soErr d \<noteq> 0 then (False, d_strerror d)
      else (True, err))"

text \<open>The loop over the addresses: the connected descriptor (or -1), the last error, what was closed.\<close>

fun dial_loop :: "dial_os list \<Rightarrow> string \<Rightarrow> int \<times> string \<times> int list" where
  "dial_loop [] lastError = (-1, lastError, [])"
| "dial_loop (d # ds) lastError =
     (if d_socket d < 0 then dial_loop ds (d_strerror d)
      else case connectWithTimeout d kConnectTimeoutSec lastError of
        (True, err) \<Rightarrow> (d_socket d, err, [])
      | (False, err) \<Rightarrow>
          (case dial_loop ds err of (fd, err', closed) \<Rightarrow> (fd, err', d_socket d # closed)))"

text \<open>The bytes that arrive during the handshake, the receive timeout, or the end of the connection.\<close>

datatype hs_recv = HsData string | HsTimeout | HsClosed

fun hs_read :: "hs_recv list \<Rightarrow> string \<Rightarrow> string outcome option" where
  "hs_read evs response =
     (if find_sub (CRLF @ CRLF) response \<noteq> None then Some (Inr response)
      else case evs of
        [] \<Rightarrow> None
      | HsData chunk # evs' \<Rightarrow> hs_read evs' (response @ chunk)
      | HsTimeout # evs' \<Rightarrow> Some (Inl (Throw (RuntimeError (''timed out after '' @ show_int kHandshakeTimeoutSec @
          ''s waiting for handshake response (server accepted the TCP connection but never '' @
          ''replied to the WebSocket upgrade request)''))))
      | HsClosed # evs' \<Rightarrow> Some (Inl (Throw (RuntimeError ''connection closed during WebSocket handshake''))))"

declare hs_read.simps [simp del]

definition upgrade_request :: "string \<Rightarrow> u16 \<Rightarrow> string \<Rightarrow> string" where
  "upgrade_request host portno key =
     ''GET / HTTP/1.1'' @ CRLF @ ''Host: '' @ host @ '':'' @ show_int (uint portno) @ CRLF @
     ''Upgrade: websocket'' @ CRLF @ ''Connection: Upgrade'' @ CRLF @
     ''Sec-WebSocket-Key: '' @ key @ CRLF @ ''Sec-WebSocket-Version: 13'' @ CRLF @ CRLF"

text \<open>The checks on the response and the bytes that follow its header.\<close>

definition check_response :: "string \<Rightarrow> string \<Rightarrow> bytes outcome" where
  "check_response key response =
     (if find_sub ''101'' response = None \<or> find_sub '' '' response = None \<or>
         take 5 response \<noteq> ''HTTP/'' then
        Inl (Throw (RuntimeError (''handshake failed, server did not return HTTP 101: '' @ take 64 response)))
      else let statusSpace = the (find_sub '' '' response);
               statusCode = take 3 (drop (statusSpace + 1) response) in
        if statusCode \<noteq> ''101'' then
          Inl (Throw (RuntimeError (''handshake failed, server returned status '' @ statusCode)))
        else if findHeaderValue response ''Sec-WebSocket-Accept'' \<noteq> expected_accept key then
          Inl (Throw (RuntimeError ''handshake failed: Sec-WebSocket-Accept mismatch''))
        else let headerEnd = the (find_sub (CRLF @ CRLF) response) + 4 in
          Inr (if headerEnd < length response then text_bytes (drop headerEnd response) else []))"

record ws_conn =
  ws_fd :: int
  pendingBytes :: bytes

record connect_os =
  c_gai :: "string option"       \<comment> \<open>the error of \<open>getaddrinfo\<close>\<close>
  c_dials :: "dial_os list"
  c_key :: bytes                 \<comment> \<open>the 16 random bytes of the key\<close>
  c_sends :: "int list"
  c_recvs :: "hs_recv list"
  c_strerror :: string

definition generateWebSocketKey :: "bytes \<Rightarrow> string" where
  "generateWebSocketKey raw = base64Encode raw"

text \<open>
  \<open>WebSocketClient::connect\<close>: the outcome (\<open>None\<close> while it waits for the peer), the descriptors it closed,
  what it sent, and the client afterwards.
\<close>

definition ws_connect :: "connect_os \<Rightarrow> string \<Rightarrow> u16 \<Rightarrow> ws_conn \<Rightarrow>
    unit outcome option \<times> int list \<times> bytes \<times> ws_conn" where
  "ws_connect os host portno c =
     (case c_gai os of
        Some gaiErr \<Rightarrow> (Some (Inl (Throw (RuntimeError (''getaddrinfo('' @ [CHR 0x22] @ host @ [CHR 0x22] @
          '') failed: '' @ gaiErr)))), [], [], c)
      | None \<Rightarrow>
          (case dial_loop (c_dials os) [] of (fd, lastError, closed) \<Rightarrow>
             if fd < 0 then
               (Some (Inl (Throw (RuntimeError (''connect() to '' @ host @ '':'' @ show_int (uint portno) @
                  '' failed: '' @ lastError)))), closed, [], c)
             else
               let c1 = c\<lparr>ws_fd := fd\<rparr>;
                   key = generateWebSocketKey (c_key os);
                   (sent, r) = sendAll (c_strerror os) (c_sends os) (text_bytes (upgrade_request host portno key));
                   fail = (\<lambda>e. (Some (Inl e), closed @ [fd], sent, c1\<lparr>ws_fd := -1\<rparr>))
               in case r of
                    None \<Rightarrow> (None, closed, sent, c1)
                  | Some (Inl e) \<Rightarrow> fail e
                  | Some (Inr _) \<Rightarrow>
                      (case hs_read (c_recvs os) [] of
                         None \<Rightarrow> (None, closed, sent, c1)
                       | Some (Inl e) \<Rightarrow> fail e
                       | Some (Inr response) \<Rightarrow>
                           (case check_response key response of
                              Inl e \<Rightarrow> fail e
                            | Inr pending \<Rightarrow> (Some (Inr ()), closed, sent,
                                c1\<lparr>pendingBytes := (if pending = [] then pendingBytes c else pending)\<rparr>)))))"

section \<open>Correctness of the connection\<close>

text \<open>The sockets the address loop creates.\<close>

fun sockets_opened :: "dial_os list \<Rightarrow> int list" where
  "sockets_opened [] = []"
| "sockets_opened (d # ds) =
     (if d_socket d < 0 then sockets_opened ds
      else d_socket d # (if fst (connectWithTimeout d kConnectTimeoutSec []) then [] else sockets_opened ds))"

lemma connectWithTimeout_err: "fst (connectWithTimeout d t err) = fst (connectWithTimeout d t err')"
  by (simp add: connectWithTimeout_def)

lemma dial_loop_sockets: "dial_loop ds err = (fd, err', closed) \<Longrightarrow>
    (if fd < 0 then sockets_opened ds = closed else sockets_opened ds = closed @ [fd])"
proof (induction ds err arbitrary: fd err' closed rule: dial_loop.induct)
  case (2 d ds lastError)
  show ?case
  proof (cases "d_socket d < 0")
    case True
    then show ?thesis using 2 by simp
  next
    case False
    obtain ok e where c: "connectWithTimeout d kConnectTimeoutSec lastError = (ok, e)" by fastforce
    then have ok: "fst (connectWithTimeout d kConnectTimeoutSec []) = ok"
      using connectWithTimeout_err [of d kConnectTimeoutSec "[]" lastError] by simp
    show ?thesis
      using 2(3) 2(2) [OF False c [symmetric]] False c ok by (cases ok) (auto split: prod.splits if_splits)
  qed
qed auto

lemma hs_read_unfold:
  "find_sub (CRLF @ CRLF) response = None \<Longrightarrow> hs_read (HsData chunk # evs) response = hs_read evs (response @ chunk)"
  "find_sub (CRLF @ CRLF) response \<noteq> None \<Longrightarrow> hs_read evs response = Some (Inr response)"
  "find_sub (CRLF @ CRLF) response = None \<Longrightarrow>
     \<exists>m. hs_read (HsTimeout # evs) response = Some (Inl (Throw (RuntimeError m)))"
  "find_sub (CRLF @ CRLF) response = None \<Longrightarrow>
     \<exists>m. hs_read (HsClosed # evs) response = Some (Inl (Throw (RuntimeError m)))"
  by (subst hs_read.simps, simp)+

lemma hs_read_Inr: "hs_read evs response = Some (Inr r) \<Longrightarrow>
    \<exists>chunks rest. evs = map HsData chunks @ rest \<and> r = response @ concat chunks \<and>
      find_sub (CRLF @ CRLF) r \<noteq> None"
proof (induction evs response rule: hs_read.induct)
  case (1 evs response)
  show ?case
  proof (cases "find_sub (CRLF @ CRLF) response = None")
    case False
    then have "r = response" using 1(2) by (simp add: hs_read_unfold)
    then show ?thesis using False by (intro exI [of _ "[]"] exI [of _ evs]) simp
  next
    case True
    then obtain chunk evs' where e: "evs = HsData chunk # evs'"
      using 1(2) by (auto simp: hs_read.simps [of evs response] split: list.splits hs_recv.splits)
    then have "hs_read evs' (response @ chunk) = Some (Inr r)"
      using 1(2) True by (simp add: hs_read_unfold)
    from 1(1) [OF _ e refl this] True obtain chunks rest where
      "evs' = map HsData chunks @ rest" "r = (response @ chunk) @ concat chunks" "find_sub (CRLF @ CRLF) r \<noteq> None"
      by blast
    with e show ?thesis by (intro exI [of _ "chunk # chunks"] exI [of _ rest]) simp
  qed
qed

lemma hs_read_Inl: "hs_read evs response = Some (Inl e) \<Longrightarrow> \<exists>msg. e = Throw (RuntimeError msg)"
proof (induction evs response rule: hs_read.induct)
  case (1 evs response)
  show ?case
  proof (cases "find_sub (CRLF @ CRLF) response = None")
    case False
    then show ?thesis using 1(2) by (simp add: hs_read_unfold)
  next
    case True
    show ?thesis
    proof (cases evs)
      case (Cons ev evs')
      show ?thesis
      proof (cases ev)
        case (HsData chunk)
        then show ?thesis using 1(1) [OF _ Cons HsData] 1(2) True Cons by (simp add: hs_read_unfold)
      qed (use 1(2) Cons hs_read_unfold(3,4) [OF True, of evs'] in auto)
    qed (use 1(2) True in \<open>simp add: hs_read.simps [of "[]" response]\<close>)
  qed
qed

lemma check_response_Inr:
  assumes "check_response key response = Inr pending" and "find_sub (CRLF @ CRLF) response \<noteq> None"
  shows "\<exists>hdr rest. response = hdr @ CRLF @ CRLF @ rest \<and> pending = text_bytes rest \<and>
    take 5 response = ''HTTP/'' \<and> findHeaderValue response ''Sec-WebSocket-Accept'' = expected_accept key"
proof -
  from assms(2) obtain k where k: "find_sub (CRLF @ CRLF) response = Some k" by auto
  from find_sub_Some [OF k] obtain rest where
    r: "response = take k response @ (CRLF @ CRLF) @ rest" "k + 4 \<le> length response" by auto
  have "drop (k + 4) response = rest"
  proof -
    have "length (take k response @ CRLF @ CRLF) = k + 4" using r(2) by simp
    then show ?thesis using r(1) by (metis append_assoc append_eq_conv_conj)
  qed
  moreover have "pending = (if k + 4 < length response then text_bytes (drop (k + 4) response) else [])"
    "take 5 response = ''HTTP/''" "findHeaderValue response ''Sec-WebSocket-Accept'' = expected_accept key"
    using assms(1) k by (auto simp: check_response_def Let_def split: if_splits)
  ultimately show ?thesis using r
    by (intro exI [of _ "take k response"] exI [of _ rest]) (auto simp: text_bytes_def)
qed

lemma sendAll_Inl: "sendAll err results data = (w, Some (Inl e)) \<Longrightarrow> \<exists>msg. e = Throw (RuntimeError msg)"
  by (induction err results data arbitrary: w rule: sendAll.induct) (auto split: if_splits prod.splits)

lemma check_response_Inl: "check_response key response = Inl e \<Longrightarrow> \<exists>msg. e = Throw (RuntimeError msg)"
  by (auto simp: check_response_def Let_def split: if_splits)

text \<open>
  Property C19: when \<open>connect\<close> returns, the client holds exactly one of the sockets the address loop created
  and has closed all others, the whole request was sent, and the data received up to the end of the
  header is a response starting with \<open>HTTP/\<close> whose accept header answers the client's key; the bytes
  behind the header are kept. When it throws, every socket created was closed and none is held.
\<close>

theorem ws_connect_ok:
  assumes "ws_connect os host portno c = (Some r, closed, sent, c')"
    and "ws_fd c = -1" and "pendingBytes c = []" and "c_gai os = None"
  shows "case r of
      Inl e \<Rightarrow> closed = sockets_opened (c_dials os) \<and> ws_fd c' = -1 \<and> (\<exists>msg. e = Throw (RuntimeError msg))
    | Inr _ \<Rightarrow> sockets_opened (c_dials os) = closed @ [ws_fd c'] \<and> 0 \<le> ws_fd c' \<and>
        sent = text_bytes (upgrade_request host portno (base64Encode (c_key os))) \<and>
        (\<exists>chunks later hdr rest. c_recvs os = map HsData chunks @ later \<and>
           concat chunks = hdr @ CRLF @ CRLF @ rest \<and> take 5 (concat chunks) = ''HTTP/'' \<and>
           findHeaderValue (concat chunks) ''Sec-WebSocket-Accept'' = expected_accept (base64Encode (c_key os)) \<and>
           pendingBytes c' = text_bytes rest)"
proof -
  obtain fd lastError cl where d: "dial_loop (c_dials os) [] = (fd, lastError, cl)"
    by (cases "dial_loop (c_dials os) []") auto
  note dl = dial_loop_sockets [OF d]
  let ?key = "base64Encode (c_key os)"
  obtain w sr where s: "sendAll (c_strerror os) (c_sends os) (text_bytes (upgrade_request host portno ?key)) = (w, sr)"
    by fastforce
  note unf = ws_connect_def d s assms(4) Let_def generateWebSocketKey_def
  show ?thesis
  proof (cases "fd < 0")
    case True
    then show ?thesis using assms(1,2) dl by (auto simp: unf)
  next
    case False
    then consider (send) e where "sr = Some (Inl e)" "r = Inl e"
      | (recv) e where "sr = Some (Inr ())" "hs_read (c_recvs os) [] = Some (Inl e)" "r = Inl e"
      | (resp) response where "sr = Some (Inr ())" "hs_read (c_recvs os) [] = Some (Inr response)"
      using assms(1) by (auto simp: unf split: option.splits sum.splits)
    then show ?thesis
    proof cases
      case send
      then show ?thesis using assms(1) False dl sendAll_Inl [OF s [unfolded send(1)]] by (auto simp: unf)
    next
      case recv
      then show ?thesis using assms(1) False dl hs_read_Inl [OF recv(2)] by (auto simp: unf)
    next
      case resp
      show ?thesis
      proof (cases "check_response ?key response")
        case (Inl e)
        then show ?thesis using assms(1) False dl resp check_response_Inl [OF Inl] by (auto simp: unf)
      next
        case (Inr pending)
        from hs_read_Inr [OF resp(2)] obtain chunks later where
          c: "c_recvs os = map HsData chunks @ later" "response = concat chunks"
            "find_sub (CRLF @ CRLF) response \<noteq> None" by auto
        from check_response_Inr [OF Inr c(3)] obtain hdr rest where
          h: "response = hdr @ CRLF @ CRLF @ rest" "pending = text_bytes rest" "take 5 response = ''HTTP/''"
            "findHeaderValue response ''Sec-WebSocket-Accept'' = expected_accept ?key" by blast
        have r: "r = Inr ()" "closed = cl" "sent = w" "ws_fd c' = fd" "pendingBytes c' = pending"
          using assms(1,3) False resp Inr by (auto simp: unf)
        have "w = text_bytes (upgrade_request host portno ?key)"
          using sendAll_prefix [OF s] resp(1) by simp
        then have "sent = text_bytes (upgrade_request host portno ?key)" using r(3) by simp
        moreover have "\<exists>chunks later hdr rest. c_recvs os = map HsData chunks @ later \<and>
           concat chunks = hdr @ CRLF @ CRLF @ rest \<and> take 5 (concat chunks) = ''HTTP/'' \<and>
           findHeaderValue (concat chunks) ''Sec-WebSocket-Accept'' = expected_accept ?key \<and>
           pendingBytes c' = text_bytes rest"
          using c(1) h r(5) unfolding c(2) by blast
        ultimately show ?thesis using r(1,2,4) False dl by simp
      qed
    qed
  qed
qed

text \<open>A connection that succeeds on its second address, with the sample nonce of RFC 6455.\<close>

definition demo_response :: string where
  "demo_response = ''HTTP/1.1 101 OK'' @ CRLF @ ''Sec-WebSocket-Accept: s3pPLMBiTxaQ9kYGzzhZRbK+xOo='' @ CRLF @ CRLF"

definition demo_os :: connect_os where
  "demo_os = \<lparr>c_gai = None,
     c_dials = [\<lparr>d_socket = 4, d_connect = -1, d_inprogress = True, d_select = 0, d_soErr = 0, d_strerror = []\<rparr>,
                \<lparr>d_socket = 5, d_connect = 0, d_inprogress = False, d_select = 0, d_soErr = 0, d_strerror = []\<rparr>],
     c_key = text_bytes ''the sample nonce'', c_sends = [1000],
     c_recvs = [HsData (take 20 demo_response), HsData (drop 20 demo_response @ ''xy'')], c_strerror = []\<rparr>"

lemma demo_key: "base64Encode (c_key demo_os) = ''dGhlIHNhbXBsZSBub25jZQ==''"
  by (simp add: demo_os_def text_bytes_def Let_def table_char_def sextet_at_def kTable_def drop_bit_eq_div)

lemma demo_send:
  "sendAll [] [1000] (text_bytes (upgrade_request ''h'' 80 ''dGhlIHNhbXBsZSBub25jZQ=='')) =
    (text_bytes (upgrade_request ''h'' 80 ''dGhlIHNhbXBsZSBub25jZQ==''), Some (Inr ()))"
  by (simp add: upgrade_request_def text_bytes_def CRLF_def show_int_def nat_digits.simps)

lemma demo_read: "hs_read (c_recvs demo_os) [] = Some (Inr (demo_response @ ''xy''))"
  by (simp add: demo_os_def demo_response_def CRLF_def hs_read_unfold)

lemma demo_check: "check_response ''dGhlIHNhbXBsZSBub25jZQ=='' (demo_response @ ''xy'') = Inr (text_bytes ''xy'')"
proof -
  have a: "findHeaderValue (demo_response @ ''xy'') ''Sec-WebSocket-Accept'' = ''s3pPLMBiTxaQ9kYGzzhZRbK+xOo=''"
    unfolding findHeaderValue_def demo_response_def append_assoc
    by (simp add: find_header_line [of "''HTTP/1.1 101 OK''", simplified]
        find_header_line [of "''Sec-WebSocket-Accept: s3pPLMBiTxaQ9kYGzzhZRbK+xOo=''", simplified] trim_value_def)
  show ?thesis
    unfolding check_response_def a expected_accept_sample
    by (simp add: demo_response_def CRLF_def)
qed

lemma demo_connect: "ws_connect demo_os ''h'' 80 \<lparr>ws_fd = -1, pendingBytes = []\<rparr> =
    (Some (Inr ()), [4], text_bytes (upgrade_request ''h'' 80 ''dGhlIHNhbXBsZSBub25jZQ==''),
     \<lparr>ws_fd = 5, pendingBytes = text_bytes ''xy''\<rparr>)"
proof -
  have d: "dial_loop (c_dials demo_os) [] = (5, ''timed out after 5s'', [4])"
    by (simp add: demo_os_def connectWithTimeout_def kConnectTimeoutSec_def show_int_def nat_digits.simps
        char_of_eq_iff)
  have o: "c_gai demo_os = None" "c_strerror demo_os = []" "c_sends demo_os = [1000]"
    by (simp_all add: demo_os_def)
  have ne: "text_bytes ''xy'' \<noteq> []" by (simp add: text_bytes_def)
  show ?thesis
    by (simp add: ws_connect_def d o generateWebSocketKey_def demo_key demo_send demo_read demo_check ne Let_def)
qed

theorem ws_connect_ok_witness:
  "\<exists>sent c'. ws_connect demo_os ''h'' 80 \<lparr>ws_fd = -1, pendingBytes = []\<rparr> = (Some (Inr ()), [4], sent, c') \<and>
     ws_fd c' = 5 \<and> pendingBytes c' = text_bytes ''xy'' \<and> sockets_opened (c_dials demo_os) = [4, 5]"
proof -
  have "c_gai demo_os = None" by (simp add: demo_os_def)
  with ws_connect_ok [OF demo_connect] demo_connect show ?thesis by simp
qed

end
