(* ===== verification/WsFrames.thy ===== *)
theory WsFrames
  imports StreamFrames WsHandshake
begin

text \<open>
  The second half of \<open>src/sdrconnect/websocket.cpp\<close>: \<open>sendFrame\<close>, and \<open>runReadLoop\<close> with its frame parser,
  the reassembly of fragmented messages, the replies to pings and the closing frame. Lengths are the
  64-bit values of the code, so the overflow of \<open>headerLen + payloadLen\<close> is part of the model.
\<close>

section \<open>Frames on the wire\<close>

record ws_frame =
  fr_fin :: bool
  fr_opcode :: u8
  fr_payload :: bytes

definition length_field :: "u8 \<Rightarrow> nat \<Rightarrow> bytes" where
  "length_field maskBit len =
     (if len < 126 then [maskBit OR word_of_nat len]
      else if len \<le> 0xFFFF then
        [maskBit OR 126, ucast (drop_bit 8 (word_of_nat len :: u64) AND 0xFF),
         ucast ((word_of_nat len :: u64) AND 0xFF)]
      else (maskBit OR 127) # be64 (word_of_nat len))"

definition xor_mask :: "bytes \<Rightarrow> bytes \<Rightarrow> bytes" where
  "xor_mask mk payload = map (\<lambda>i. payload ! i XOR mk ! (i mod 4)) [0..<length payload]"

text \<open>The bytes \<open>sendFrame\<close> hands to \<open>sendAll\<close>; \<open>mk\<close> are its four random bytes.\<close>

definition sendFrame :: "u8 \<Rightarrow> bytes \<Rightarrow> bytes \<Rightarrow> bytes" where
  "sendFrame opcode payload mk =
     [0x80 OR (opcode AND 0x0F)] @ length_field 0x80 (length payload) @ mk @ xor_mask mk payload"

text \<open>What a peer may send: any frame, masked or not.\<close>

definition encode_frame :: "bytes option \<Rightarrow> ws_frame \<Rightarrow> bytes" where
  "encode_frame m f =
     [(if fr_fin f then 0x80 else 0) OR (fr_opcode f AND 0x0F)] @
     length_field (if m = None then 0 else 0x80) (length (fr_payload f)) @
     (case m of None \<Rightarrow> fr_payload f | Some mk \<Rightarrow> mk @ xor_mask mk (fr_payload f))"

lemma sendFrame_encode: "sendFrame opcode payload mk =
    encode_frame (Some mk) \<lparr>fr_fin = True, fr_opcode = opcode AND 0x0F, fr_payload = payload\<rparr>"
  by (simp add: sendFrame_def encode_frame_def and.assoc)

text \<open>
  The parser at the front of the buffer. The comparison \<open>buf.size() - offset < headerLen + payloadLen\<close>
  is in 64-bit arithmetic; a payload above \<open>PTRDIFF_MAX\<close> makes the vector's constructor throw.
\<close>

definition ws_header :: "bytes \<Rightarrow> (nat \<times> u64) option" where
  "ws_header b =
     (let len7 = b ! 1 AND 0x7F;
          masked = (b ! 1 AND 0x80 \<noteq> 0);
          m = (if masked then 4 else 0)
      in if len7 = 126 then
           (if length b < 4 then None
            else Some (4 + m, push_bit 8 (ucast (b ! 2)) OR ucast (b ! 3)))
         else if len7 = 127 then
           (if length b < 10 then None
            else Some (10 + m, foldl (\<lambda>acc x. push_bit 8 acc OR ucast x) 0 (take 8 (drop 2 b))))
         else Some (2 + m, ucast len7))"

definition max_vector :: nat where "max_vector = 2 ^ 63 - 1"

definition next_ws :: "bytes \<Rightarrow> (ws_frame, fault) parsed" where
  "next_ws b =
     (if length b < 2 then NeedMore
      else case ws_header b of
        None \<Rightarrow> NeedMore
      | Some (headerLen, payloadLen) \<Rightarrow>
          if length b < unat (word_of_nat headerLen + payloadLen) then NeedMore
          else if max_vector < unat payloadLen then Abort (Throw LengthError)
          else let masked = (b ! 1 AND 0x80 \<noteq> 0);
                   maskKey = (\<lambda>i. if masked then b ! (headerLen - 4 + i mod 4) else 0)
               in Frame \<lparr>fr_fin = (b ! 0 AND 0x80 \<noteq> 0), fr_opcode = b ! 0 AND 0x0F,
                         fr_payload = map (\<lambda>i. b ! (headerLen + i) XOR maskKey i) [0..<unat payloadLen]\<rparr>
                    (headerLen + unat payloadLen))"

lemma ws_header_le: "ws_header b = Some (h, p) \<Longrightarrow> 2 \<le> h \<and> h \<le> 14"
  by (auto simp: ws_header_def Let_def split: if_splits)

lemma no_wrap:
  assumes "unat p \<le> max_vector" and "h \<le> 14"
  shows "unat (word_of_nat h + p :: u64) = h + unat p"
proof -
  have "h + unat p < 2 ^ 64" using assms by (simp add: max_vector_def)
  then show ?thesis using assms by (simp add: unat_word_ariths unat_of_nat)
qed

lemma next_ws_Frame:
  assumes "next_ws b = Frame f n"
  shows "\<exists>h p. ws_header b = Some (h, p) \<and> n = h + unat p \<and> 2 \<le> h \<and> n \<le> length b \<and>
    unat p \<le> max_vector \<and> length (fr_payload f) = unat p"
  using assms no_wrap ws_header_le
  by (fastforce simp: next_ws_def Let_def not_less split: if_splits option.splits)

lemma next_ws_ok:
  assumes "2 \<le> length b" and "ws_header b = Some (h, p)" and "unat p \<le> max_vector"
    and "h + unat p \<le> length b"
  shows "next_ws b = Frame \<lparr>fr_fin = (b ! 0 AND 0x80 \<noteq> 0), fr_opcode = b ! 0 AND 0x0F,
      fr_payload = map (\<lambda>i. b ! (h + i) XOR (if b ! 1 AND 0x80 \<noteq> 0 then b ! (h - 4 + i mod 4) else 0)) [0..<unat p]\<rparr>
    (h + unat p)"
proof -
  have "unat (word_of_nat h + p :: u64) = h + unat p"
    using no_wrap assms(3) ws_header_le [OF assms(2)] by blast
  then show ?thesis using assms by (simp only: next_ws_def Let_def) simp
qed

lemma ws_header_append:
  assumes "ws_header b = Some hp" and "2 \<le> length b"
  shows "ws_header (b @ ext) = Some hp"
  using assms by (auto simp: ws_header_def Let_def nth_append split: if_splits)

lemma mask_in_header: "ws_header b = Some (h, p) \<Longrightarrow> b ! 1 AND 0x80 \<noteq> 0 \<Longrightarrow> 6 \<le> h"
  by (auto simp: ws_header_def Let_def split: if_splits)

lemma next_ws_append:
  assumes "next_ws b = Frame f n"
  shows "next_ws (b @ ext) = Frame f n"
proof -
  from next_ws_Frame [OF assms] obtain h p where
    h: "ws_header b = Some (h, p)" "n = h + unat p" "2 \<le> h" "n \<le> length b" "unat p \<le> max_vector" by blast
  then have len: "2 \<le> length b" by simp
  have eq: "unat (word_of_nat h + p :: u64) = h + unat p"
    using no_wrap h(5) ws_header_le [OF h(1)] by blast
  have nth: "(b @ ext) ! i = b ! i" if "i < n" for i using that h(4) by (simp add: nth_append)
  have m: "(b @ ext) ! (h - 4 + i mod 4) = b ! (h - 4 + i mod 4)" if "b ! 1 AND 0x80 \<noteq> 0" for i
    using mask_in_header [OF h(1) that] h(2) by (intro nth) (simp add: less_le_trans [OF mod_less_divisor])
  show ?thesis
    using assms h(1-5) len eq nth m ws_header_append [OF h(1) len]
    by (auto simp: next_ws_def Let_def nth_append intro!: map_cong)
qed

lemma next_ws_Abort_append:
  assumes "next_ws b = Abort e"
  shows "next_ws (b @ ext) = Abort e"
proof -
  obtain h p where h: "ws_header b = Some (h, p)" "2 \<le> length b"
    "unat (word_of_nat h + p :: u64) \<le> length b" "max_vector < unat p" "e = Throw LengthError"
    using assms by (auto simp: next_ws_def Let_def split: if_splits option.splits)
  then show ?thesis using ws_header_append [OF h(1,2)] by (simp add: next_ws_def)
qed

section \<open>Round trip\<close>

lemma bit_0x80: "bit (0x80 :: u8) n \<longleftrightarrow> n = 7"
proof -
  have "(0x80 :: u8) = 2 ^ 7" by simp
  then show ?thesis by (simp only: bit_exp_iff) auto
qed

lemma bit_0x7F: "bit (0x7F :: u8) n \<longleftrightarrow> n < 7"
proof -
  have "(0x7F :: u8) = mask 7" by (simp add: mask_eq_exp_minus_1)
  then show ?thesis by (simp only: bit_mask_iff) auto
qed

lemma bit_0x0F: "bit (0x0F :: u8) n \<longleftrightarrow> n < 4"
proof -
  have "(0x0F :: u8) = mask 4" by (simp add: mask_eq_exp_minus_1)
  then show ?thesis by (simp only: bit_mask_iff) auto
qed

lemma bit_0xFF: "bit (0xFF :: u64) n \<longleftrightarrow> n < 8"
proof -
  have "(0xFF :: u64) = mask 8" by (simp add: mask_eq_exp_minus_1)
  then show ?thesis by (simp only: bit_mask_iff) auto
qed

lemma bit_below:
  fixes w :: "'a::len word"
  assumes "unat w < 2 ^ k" and "bit w n"
  shows "n < k"
proof -
  have "take_bit k (unat w) = unat w" using assms(1) by (simp add: take_bit_nat_eq_self)
  moreover have "bit (unat w) n" using assms(2) by (simp add: bit_unsigned_iff)
  ultimately show ?thesis by (metis bit_take_bit_iff)
qed

lemma low_split:
  assumes "unat (w :: u8) < 2 ^ 7" and "mb = 0 \<or> mb = 0x80"
  shows "(mb OR w) AND 0x7F = w" "(mb OR w) AND 0x80 = mb"
proof -
  show "(mb OR w) AND 0x7F = w"
    using assms(2) bit_below [OF assms(1)]
    by (intro bit_word_eqI) (auto simp: bit_simps bit_0x80 bit_0x7F simp del: bit_numeral_word_iff)
  show "(mb OR w) AND 0x80 = mb"
    using assms(2) bit_below [OF assms(1)]
    by (intro bit_word_eqI) (auto simp: bit_simps bit_0x80 simp del: bit_numeral_word_iff)
qed

lemma opcode_split:
  assumes "fb = 0 \<or> fb = (0x80 :: u8)"
  shows "(fb OR (x AND 0x0F)) AND 0x0F = x AND 0x0F" "(fb OR (x AND 0x0F)) AND 0x80 = fb"
proof -
  show "(fb OR (x AND 0x0F)) AND 0x0F = x AND 0x0F"
    using assms by (intro bit_word_eqI) (auto simp: bit_simps bit_0x80 bit_0x0F simp del: bit_numeral_word_iff)
  show "(fb OR (x AND 0x0F)) AND 0x80 = fb"
    using assms by (intro bit_word_eqI) (auto simp: bit_simps bit_0x80 bit_0x0F simp del: bit_numeral_word_iff)
qed

lemma two_byte_length:
  fixes w :: u64
  assumes "unat w < 2 ^ 16"
  shows "push_bit 8 (ucast (ucast (drop_bit 8 w AND 0xFF) :: u8)) OR ucast (ucast (w AND 0xFF) :: u8) = w"
proof (rule bit_word_eqI)
  fix n assume "n < LENGTH(64)"
  consider "n < 8" | "8 \<le> n" "n < 16" | "16 \<le> n" by linarith
  then show "bit (push_bit 8 (ucast (ucast (drop_bit 8 w AND 0xFF) :: u8)) OR ucast (ucast (w AND 0xFF) :: u8) :: u64) n
      = bit w n"
    using bit_below [OF assms, of n] \<open>n < LENGTH(64)\<close> by cases (auto simp: bit_simps bit_0xFF simp del: bit_numeral_word_iff)
qed

lemma be64_unfold: "be64 w = [ucast (drop_bit 56 w AND 0xFF), ucast (drop_bit 48 w AND 0xFF),
   ucast (drop_bit 40 w AND 0xFF), ucast (drop_bit 32 w AND 0xFF), ucast (drop_bit 24 w AND 0xFF),
   ucast (drop_bit 16 w AND 0xFF), ucast (drop_bit 8 w AND 0xFF), ucast (w AND 0xFF)]"
  by (simp add: be64_def upt_rec)

lemma eight_byte_length: "foldl (\<lambda>acc x. push_bit 8 acc OR ucast x) 0 (be64 w) = w"
proof (rule bit_word_eqI)
  fix n assume n: "n < LENGTH(64)"
  consider "n < 8" | "8 \<le> n" "n < 16" | "16 \<le> n" "n < 24" | "24 \<le> n" "n < 32" | "32 \<le> n" "n < 40"
    | "40 \<le> n" "n < 48" | "48 \<le> n" "n < 56" | "56 \<le> n" "n < 64" using n by force
  then show "bit (foldl (\<lambda>acc x. push_bit 8 acc OR ucast x) 0 (be64 w) :: u64) n = bit w n"
    by cases (simp_all add: be64_unfold bit_simps bit_0xFF less_diff_conv2 del: bit_numeral_word_iff)
qed

fun valid_ws :: "bytes option \<Rightarrow> ws_frame \<Rightarrow> bool" where
  "valid_ws m f \<longleftrightarrow> fr_opcode f AND 0x0F = fr_opcode f \<and> length (fr_payload f) \<le> max_vector \<and>
     (case m of None \<Rightarrow> True | Some mk \<Rightarrow> length mk = 4)"

text \<open>The header that \<open>ws_header\<close> finds in an encoded frame.\<close>

lemma ws_header_encoded:
  assumes "len \<le> max_vector" and "mb = 0 \<or> mb = 0x80"
  shows "ws_header (c # length_field mb len @ rest) =
      Some (1 + length (length_field mb len) + (if mb = 0 then 0 else 4), word_of_nat len)"
    and "(c # length_field mb len @ rest) ! 1 AND 0x80 = mb"
proof -
  have l64: "len < 2 ^ 64" using assms(1) by (simp add: max_vector_def)
  have mb0: "mb \<noteq> 0 \<longleftrightarrow> mb = 0x80" using assms(2) by auto
  consider (short) "len < 126" | (two) "126 \<le> len" "len \<le> 0xFFFF" | (eight) "0xFFFF < len" by linarith
  then have "ws_header (c # length_field mb len @ rest) =
      Some (1 + length (length_field mb len) + (if mb = 0 then 0 else 4), word_of_nat len) \<and>
    (c # length_field mb len @ rest) ! 1 AND 0x80 = mb"
  proof cases
    case short
    then have u: "unat (word_of_nat len :: u8) = len" by (simp add: unat_of_nat)
    then have s: "(mb OR word_of_nat len) AND 0x7F = (word_of_nat len :: u8)"
      "(mb OR word_of_nat len) AND 0x80 = mb"
      using low_split [of "word_of_nat len" mb] short assms(2) by simp_all
    have n: "(word_of_nat len :: u8) \<noteq> 126" "(word_of_nat len :: u8) \<noteq> 127"
      using u short by (auto simp flip: word_unat_eq_iff simp: word_unat_eq_iff)
    have c: "ucast (word_of_nat len :: u8) = (word_of_nat len :: u64)"
      using u short by (simp add: word_unat_eq_iff unsigned_ucast_eq unat_of_nat take_bit_nat_eq_self)
    show ?thesis using short s n c by (simp add: length_field_def ws_header_def Let_def)
  next
    case two
    have s: "(mb OR 126) AND 0x7F = (126 :: u8)" "(mb OR 126) AND 0x80 = mb"
      using low_split [of 126 mb] assms(2) by simp_all
    have "unat (word_of_nat len :: u64) < 2 ^ 16" using two by (simp add: unat_of_nat)
    from two_byte_length [OF this] show ?thesis using two s
      by (simp add: length_field_def ws_header_def Let_def)
  next
    case eight
    have s: "(mb OR 127) AND 0x7F = (127 :: u8)" "(mb OR 127) AND 0x80 = mb"
      using low_split [of 127 mb] assms(2) by simp_all
    have "take 8 (be64 (word_of_nat len) @ rest) = be64 (word_of_nat len)" by simp
    then show ?thesis using eight s eight_byte_length [of "word_of_nat len"]
      by (simp add: length_field_def ws_header_def Let_def)
  qed
  then show "ws_header (c # length_field mb len @ rest) =
      Some (1 + length (length_field mb len) + (if mb = 0 then 0 else 4), word_of_nat len)"
    and "(c # length_field mb len @ rest) ! 1 AND 0x80 = mb" by blast+
qed

lemma length_field_le: "1 \<le> length (length_field mb len)" "length (length_field mb len) \<le> 9"
  by (simp_all add: length_field_def)

lemma length_xor_mask [simp]: "length (xor_mask mk payload) = length payload"
  by (simp add: xor_mask_def)

lemma next_ws_encoded:
  assumes "valid_ws m f"
  shows "next_ws (encode_frame m f) = Frame f (length (encode_frame m f))"
proof -
  define len where "len = length (fr_payload f)"
  define mb :: u8 where "mb = (if m = None then 0 else 0x80)"
  define fb :: u8 where "fb = (if fr_fin f then 0x80 else 0)"
  define mk where "mk = (case m of None \<Rightarrow> [] | Some mk \<Rightarrow> mk)"
  define body where "body = (case m of None \<Rightarrow> fr_payload f | Some mk \<Rightarrow> xor_mask mk (fr_payload f))"
  define lf where "lf = length_field mb len"
  define b where "b = (fb OR (fr_opcode f AND 0x0F)) # lf @ mk @ body"
  define h where "h = 1 + length lf + length mk"
  have e: "encode_frame m f = b"
    by (simp add: encode_frame_def mb_def fb_def mk_def body_def b_def lf_def len_def split: option.split)
  have l: "len \<le> max_vector" "length body = len" "length mk = (if mb = 0 then 0 else 4)"
    using assms by (auto simp: body_def mk_def mb_def len_def split: option.splits)
  have mb: "mb = 0 \<or> mb = 0x80" by (simp add: mb_def)
  note hd = ws_header_encoded [OF l(1) mb, of "fb OR (fr_opcode f AND 0x0F)" "mk @ body"]
  have h: "ws_header b = Some (h, word_of_nat len)" using hd(1) l(3) by (simp add: h_def b_def lf_def)
  have hd2: "b ! 1 AND 0x80 = mb" unfolding b_def lf_def by (rule hd(2))
  have p: "unat (word_of_nat len :: u64) = len"
    using l(1) by (simp add: max_vector_def unat_of_nat)
  have sz: "length b = h + len" using l(2) by (simp add: b_def h_def)
  have "2 \<le> length b" using length_field_le(1) [of mb len] by (simp add: b_def lf_def)
  from next_ws_ok [OF this h] l(1) p sz have n: "next_ws b =
    Frame \<lparr>fr_fin = (b ! 0 AND 0x80 \<noteq> 0), fr_opcode = b ! 0 AND 0x0F,
      fr_payload = map (\<lambda>i. b ! (h + i) XOR (if b ! 1 AND 0x80 \<noteq> 0 then b ! (h - 4 + i mod 4) else 0)) [0..<len]\<rparr>
    (length b)" by simp
  have op: "b ! 0 AND 0x0F = fr_opcode f" "b ! 0 AND 0x80 = fb"
    using opcode_split [of fb "fr_opcode f"] assms by (auto simp: fb_def b_def)
  have body_at: "b ! (h + i) = body ! i" for i by (simp add: b_def h_def nth_append)
  have pl: "map (\<lambda>i. b ! (h + i) XOR (if mb \<noteq> 0 then b ! (h - 4 + i mod 4) else 0)) [0..<len] = fr_payload f"
  proof (cases m)
    case None
    then show ?thesis
      by (intro nth_equalityI) (simp_all add: len_def body_at mb_def body_def)
  next
    case (Some mk')
    then have mk: "mk = mk'" "length mk = 4" "mb \<noteq> 0" using assms by (simp_all add: mk_def mb_def)
    have "h - 4 + i mod 4 = Suc (length lf + i mod 4)" for i using mk(2) by (simp add: h_def)
    then have "b ! (h - 4 + i mod 4) = mk ! (i mod 4)" for i
      using mk(2) by (simp add: b_def nth_append)
    moreover have "i < len \<Longrightarrow> body ! i = fr_payload f ! i XOR mk ! (i mod 4)" for i
      using Some mk(1) by (simp add: body_def xor_mask_def len_def)
    ultimately show ?thesis using mk(3)
      by (intro nth_equalityI) (simp_all add: len_def body_at xor.assoc)
  qed
  show ?thesis unfolding e n op hd2 pl by (simp add: fb_def)
qed

definition enc_ws :: "ws_frame \<Rightarrow> bytes" where
  "enc_ws = encode_frame None"

interpretation ws: codec next_ws enc_ws "valid_ws None"
proof unfold_locales
  show "next_ws [] = NeedMore" by (simp add: next_ws_def)
  fix b f n ext e
  show "next_ws b = Frame f n \<Longrightarrow> 0 < n \<and> n \<le> length b" using next_ws_Frame [of b f n] by auto
  show "next_ws b = Frame f n \<Longrightarrow> next_ws (b @ ext) = Frame f n" by (rule next_ws_append)
  show "next_ws b = Abort e \<Longrightarrow> next_ws (b @ ext) = Abort e" by (rule next_ws_Abort_append)
  show "valid_ws None f \<Longrightarrow> next_ws (enc_ws f) = Frame f (length (enc_ws f))"
    unfolding enc_ws_def by (rule next_ws_encoded)
qed

text \<open>
  Property C23: the frame parser inverts the frame encoding, for payloads of every length the code can hold
  (the three forms of the length field), masked or not, whatever follows in the stream; in
  particular it reads back what \<open>sendFrame\<close> writes with any four mask bytes.
\<close>

theorem ws_frame_roundtrip:
  assumes "fr_opcode f AND 0x0F = fr_opcode f" and "length (fr_payload f) \<le> max_vector" and "length mk = 4"
  shows "next_ws (encode_frame None f @ rest) = Frame f (length (encode_frame None f)) \<and>
    next_ws (encode_frame (Some mk) f @ rest) = Frame f (length (encode_frame (Some mk) f)) \<and>
    (fr_fin f \<longrightarrow> next_ws (sendFrame (fr_opcode f) (fr_payload f) mk @ rest) =
       Frame f (length (sendFrame (fr_opcode f) (fr_payload f) mk)))"
proof -
  have v: "valid_ws None f" "valid_ws (Some mk) f" using assms by simp_all
  have "fr_fin f \<Longrightarrow> sendFrame (fr_opcode f) (fr_payload f) mk = encode_frame (Some mk) f"
    using assms(1) by (simp add: sendFrame_encode) (simp add: encode_frame_def)
  then show ?thesis using next_ws_encoded [OF v(1)] next_ws_encoded [OF v(2)] by (simp add: next_ws_append)
qed

theorem ws_frame_roundtrip_witness:
  "next_ws (sendFrame 9 [104, 105] [1, 2, 3, 4] @ [7, 7]) =
     Frame \<lparr>fr_fin = True, fr_opcode = 9, fr_payload = [104, 105]\<rparr> 8"
  using ws_frame_roundtrip [of "\<lparr>fr_fin = True, fr_opcode = 9, fr_payload = [104, 105]\<rparr>" "[1, 2, 3, 4]" "[7, 7]"]
  by (simp add: max_vector_def sendFrame_def length_field_def)

section \<open>A declared length that overflows\<close>

text \<open>
  Property C40: a frame header that declares a 64-bit payload length so large that adding the header
  length wraps around passes the check that the frame is complete as soon as the header is there, and the allocation then throws \<open>std::length_error\<close>; every
  smaller length above \<open>PTRDIFF_MAX\<close> makes the loop wait.
\<close>

theorem ws_length_overflow:
  assumes "fb = 0 \<or> fb = (0x80 :: u8)" and "max_vector < unat w" and "length ext + 10 < 2 ^ 63"
  shows "next_ws ([fb OR opcode, 127] @ be64 w @ ext) =
    (if 2 ^ 64 \<le> 10 + unat w then Abort (Throw LengthError) else NeedMore)"
proof -
  have h: "ws_header ([fb OR opcode, 127] @ be64 w @ ext) = Some (10, w)"
    using eight_byte_length [of w] by (simp add: ws_header_def Let_def)
  have w: "unat w < 2 ^ 64" using unsigned_less [of w, where 'a = nat] by simp
  have u: "unat (word_of_nat 10 + w :: u64) = (10 + unat w) mod 2 ^ 64"
    by (simp add: unat_word_ariths)
  have l: "length ([fb OR opcode, 127] @ be64 w @ ext) = length ext + 10" by simp
  show ?thesis
  proof (cases "2 ^ 64 \<le> 10 + unat w")
    case True
    then have "(10 + unat w) mod 2 ^ 64 = unat w + 10 - 2 ^ 64"
      using w by (simp add: mod_if)
    moreover have "unat w - 18446744073709551606 \<le> 10 + length ext" using w by simp
    ultimately show ?thesis using True assms(2) h u l by (simp add: next_ws_def)
  next
    case False
    then have "(10 + unat w) mod 2 ^ 64 = 10 + unat w" by simp
    moreover have "length ext + 10 < 10 + unat w" using assms(2,3) by (simp add: max_vector_def)
    ultimately show ?thesis using False h u l by (simp add: next_ws_def)
  qed
qed

theorem ws_length_overflow_witness:
  "next_ws ([0x82, 127] @ be64 (-1)) = Abort (Throw LengthError)"
  using ws_length_overflow [where fb = "0x80" and w = "-1" and ext = "[]" and opcode = 2]
  by (simp add: max_vector_def unsigned_minus_1_eq_mask mask_eq_exp_minus_1)

section \<open>The read loop\<close>

text \<open>
  The callbacks of the user of the client, on a state of type \<open>'s\<close>; an exception a callback lets escape
  ends the loop. \<open>rd_pongs\<close> are the payloads of the pong frames sent, whose errors are ignored.
\<close>

record 's ws_callbacks =
  onText :: "('s \<Rightarrow> bytes \<Rightarrow> 's \<times> fault option) option"
  onBinary :: "('s \<Rightarrow> bytes \<Rightarrow> 's \<times> fault option) option"

record 's ws_reader =
  fragActive :: bool
  fragOpcode :: u8
  fragPayload :: bytes
  rd_app :: 's
  rd_pongs :: "bytes list"

definition new_reader :: "'s \<Rightarrow> 's ws_reader" where
  "new_reader s = \<lparr>fragActive = False, fragOpcode = 0, fragPayload = [], rd_app = s, rd_pongs = []\<rparr>"

datatype ws_stop = CloseSeen | Escaped fault

definition dispatch :: "'s ws_callbacks \<Rightarrow> u8 \<Rightarrow> bytes \<Rightarrow> 's \<Rightarrow> 's \<times> fault option" where
  "dispatch cb opcode payload s =
     (if opcode = 1 then (case onText cb of None \<Rightarrow> (s, None) | Some f \<Rightarrow> f s payload)
      else if opcode = 2 then (case onBinary cb of None \<Rightarrow> (s, None) | Some f \<Rightarrow> f s payload)
      else (s, None))"

definition deliver :: "'s ws_callbacks \<Rightarrow> u8 \<Rightarrow> bytes \<Rightarrow> 's ws_reader \<Rightarrow> 's ws_reader \<times> ws_stop option" where
  "deliver cb opcode payload r =
     (case dispatch cb opcode payload (rd_app r) of
        (s', e) \<Rightarrow> (r\<lparr>rd_app := s'\<rparr>, map_option Escaped e))"

definition on_frame :: "'s ws_callbacks \<Rightarrow> 's ws_reader \<Rightarrow> ws_frame \<Rightarrow> 's ws_reader \<times> ws_stop option" where
  "on_frame cb r f =
     (if fr_opcode f = 0 then
        (if fragActive r then
           let r1 = r\<lparr>fragPayload := fragPayload r @ fr_payload f\<rparr> in
           if fr_fin f then
             (case deliver cb (fragOpcode r) (fragPayload r1) r1 of
                (r2, Some e) \<Rightarrow> (r2, Some e)
              | (r2, None) \<Rightarrow> (r2\<lparr>fragActive := False, fragPayload := []\<rparr>, None))
           else (r1, None)
         else (r, None))
      else if fr_opcode f = 1 \<or> fr_opcode f = 2 then
        (if \<not> fr_fin f then
           (r\<lparr>fragActive := True, fragOpcode := fr_opcode f, fragPayload := fr_payload f\<rparr>, None)
         else deliver cb (fr_opcode f) (fr_payload f) r)
      else if fr_opcode f = 8 then (r, Some CloseSeen)
      else if fr_opcode f = 9 then (r\<lparr>rd_pongs := rd_pongs r @ [fr_payload f]\<rparr>, None)
      else (r, None))"

text \<open>The inner loop with its \<open>offset\<close>.\<close>

function ws_loop :: "'s ws_callbacks \<Rightarrow> 's ws_reader \<Rightarrow> bytes \<Rightarrow> nat \<Rightarrow> 's ws_reader \<times> bytes \<times> ws_stop option" where
  "ws_loop cb r buf offset =
     (case next_ws (drop offset buf) of
        NeedMore \<Rightarrow> (r, drop offset buf, None)
      | Abort e \<Rightarrow> (r, drop offset buf, Some (Escaped e))
      | Frame f n \<Rightarrow>
          (case on_frame cb r f of
             (r', Some v) \<Rightarrow> (r', drop (offset + n) buf, Some v)
           | (r', None) \<Rightarrow> ws_loop cb r' buf (offset + n)))"
  by pat_completeness auto
termination
  by (relation "measure (\<lambda>(_, _, buf, offset). length buf - offset)") (auto dest: next_ws_Frame)

declare ws_loop.simps [simp del]

fun ws_recv :: "'s ws_callbacks \<Rightarrow> 's ws_reader \<times> bytes \<times> ws_stop option \<Rightarrow> bytes \<Rightarrow>
    's ws_reader \<times> bytes \<times> ws_stop option" where
  "ws_recv cb (r, buf, Some v) chunk = (r, buf, Some v)"
| "ws_recv cb (r, buf, None) chunk = ws_loop cb r (buf @ chunk) 0"

text \<open>
  \<open>runReadLoop\<close> on the chunks the successful \<open>recv\<close> calls return before the first that does not: the reader
  and why it stopped (\<open>None\<close>: the connection ended), and the client with its descriptor closed, unless an
  exception escaped.
\<close>

definition runReadLoop :: "'s ws_callbacks \<Rightarrow> 's \<Rightarrow> ws_conn \<Rightarrow> bytes list \<Rightarrow>
    ('s ws_reader \<times> bytes \<times> ws_stop option) \<times> ws_conn" where
  "runReadLoop cb s c chunks =
     (let res = foldl (ws_recv cb) (new_reader s, pendingBytes c, None) chunks;
          c1 = c\<lparr>pendingBytes := []\<rparr>
      in (res, case snd (snd res) of Some (Escaped e) \<Rightarrow> c1 | _ \<Rightarrow> c1\<lparr>ws_fd := -1\<rparr>))"

text \<open>The parser with the stop reasons of the loop.\<close>

definition next_ws_stop :: "bytes \<Rightarrow> (ws_frame, ws_stop) parsed" where
  "next_ws_stop b = (case next_ws b of NeedMore \<Rightarrow> NeedMore | Frame f n \<Rightarrow> Frame f n | Abort e \<Rightarrow> Abort (Escaped e))"

interpretation wsl: codec next_ws_stop enc_ws "valid_ws None"
proof unfold_locales
  fix b f n ext e
  show "next_ws_stop [] = NeedMore" by (simp add: next_ws_stop_def ws.empty_more)
  show "next_ws_stop b = Frame f n \<Longrightarrow> 0 < n \<and> n \<le> length b"
    using ws.frame_bound by (auto simp: next_ws_stop_def split: parsed.splits)
  show "next_ws_stop b = Frame f n \<Longrightarrow> next_ws_stop (b @ ext) = Frame f n"
    by (auto simp: next_ws_stop_def ws.frame_stable split: parsed.splits)
  show "next_ws_stop b = Abort e \<Longrightarrow> next_ws_stop (b @ ext) = Abort e"
    by (auto simp: next_ws_stop_def ws.abort_stable split: parsed.splits)
  show "valid_ws None f \<Longrightarrow> next_ws_stop (enc_ws f) = Frame f (length (enc_ws f))"
    unfolding next_ws_stop_def by (subst ws.enc_parsed) simp_all
qed

lemma ws_loop_drain: "ws_loop cb r buf offset = drain next_ws_stop (on_frame cb) r (drop offset buf)"
proof (induction cb r buf offset rule: ws_loop.induct)
  case (1 cb r buf offset)
  show ?case
  proof (cases "next_ws (drop offset buf)")
    case NeedMore
    then show ?thesis
      by (subst ws_loop.simps) (simp add: wsl.drain_NeedMore next_ws_stop_def)
  next
    case (Abort e)
    then show ?thesis
      by (subst ws_loop.simps) (simp add: wsl.drain_Abort [of _ "Escaped e"] next_ws_stop_def)
  next
    case (Frame f n)
    then have n: "next_ws_stop (drop offset buf) = Frame f n" by (simp add: next_ws_stop_def)
    show ?thesis using 1 [OF Frame] Frame
      by (subst ws_loop.simps) (auto simp: wsl.drain_Frame [OF n] add.commute split: prod.splits option.splits)
  qed
qed

lemma ws_recv_feed: "ws_recv cb st chunk = feed next_ws_stop (on_frame cb) st chunk"
proof -
  obtain r buf v where "st = (r, buf, v)" by (cases st)
  then show ?thesis by (cases v) (simp_all add: ws_loop_drain)
qed

lemma runReadLoop_feed: "fst (runReadLoop cb s c chunks) =
    foldl (feed next_ws_stop (on_frame cb)) (new_reader s, pendingBytes c, None) chunks"
  by (simp add: runReadLoop_def Let_def ws_recv_feed cong: foldl_cong)

text \<open>
  Once anything has been received, the read loop sees the bytes kept from the handshake
  followed by everything received, independently of how that was cut into chunks; but while nothing
  has been received the kept bytes are not looked at, so complete frames in them are lost when the
  connection ends there.
\<close>

theorem ws_read_loop_stream:
  "view (fst (runReadLoop cb s c (chunk # chunks))) =
     view (drain next_ws_stop (on_frame cb) (new_reader s) (pendingBytes c @ concat (chunk # chunks))) \<and>
   fst (runReadLoop cb s c []) = (new_reader s, pendingBytes c, None) \<and>
   pendingBytes (snd (runReadLoop cb s c [])) = []"
  using wsl.drain_chunks [of "on_frame cb" "new_reader s" "pendingBytes c @ chunk" chunks]
  by (simp add: runReadLoop_feed) (simp add: runReadLoop_def Let_def)

section \<open>Reassembly\<close>

text \<open>A message of RFC 6455 in fragments: the opcode in the first frame, \<open>FIN\<close> in the last.\<close>

fun msg_frames :: "u8 \<Rightarrow> bytes list \<Rightarrow> ws_frame list" where
  "msg_frames opcode [] = []"
| "msg_frames opcode [p] = [\<lparr>fr_fin = True, fr_opcode = opcode, fr_payload = p\<rparr>]"
| "msg_frames opcode (p # ps) = \<lparr>fr_fin = False, fr_opcode = opcode, fr_payload = p\<rparr> # msg_frames 0 ps"

definition is_data :: "ws_frame \<Rightarrow> bool" where
  "is_data f \<longleftrightarrow> fr_opcode f = 0 \<or> fr_opcode f = 1 \<or> fr_opcode f = 2"

definition is_ping :: "ws_frame \<Rightarrow> bool" where
  "is_ping f \<longleftrightarrow> fr_opcode f = 9"

text \<open>
  A message in fragments whose handler, in any application state that satisfies \<open>I\<close>, returns normally
  and keeps \<open>I\<close>.
\<close>

definition quiet_message :: "'s ws_callbacks \<Rightarrow> ('s \<Rightarrow> bool) \<Rightarrow> u8 \<times> bytes list \<Rightarrow> bool" where
  "quiet_message cb I m \<longleftrightarrow> snd m \<noteq> [] \<and> (fst m = 1 \<or> fst m = 2) \<and>
     (\<forall>s. I s \<longrightarrow> snd (dispatch cb (fst m) (concat (snd m)) s) = None \<and>
                 I (fst (dispatch cb (fst m) (concat (snd m)) s)))"

lemma deliver_quiet: "snd (dispatch cb opcode payload (rd_app r)) = None \<Longrightarrow>
    deliver cb opcode payload r = (r\<lparr>rd_app := fst (dispatch cb opcode payload (rd_app r))\<rparr>, None)"
  by (auto simp: deliver_def split: prod.split)

lemma on_frame_pongs: "is_data f \<Longrightarrow>
    on_frame cb (r\<lparr>rd_pongs := ps\<rparr>) f = ((fst (on_frame cb r f))\<lparr>rd_pongs := ps\<rparr>, snd (on_frame cb r f))"
  by (auto simp: on_frame_def is_data_def deliver_def Let_def split: prod.splits option.splits)

lemma on_frame_control:
  "\<not> is_data f \<Longrightarrow> fr_opcode f \<noteq> 8 \<Longrightarrow>
    on_frame cb r f = (r\<lparr>rd_pongs := rd_pongs r @ (if is_ping f then [fr_payload f] else [])\<rparr>, None)"
  by (auto simp: on_frame_def is_data_def is_ping_def)

lemma run_frames_control:
  assumes "run_frames (on_frame cb) r (filter is_data fs) = (r', None)" and "\<forall>f \<in> set fs. fr_opcode f \<noteq> 8"
  shows "run_frames (on_frame cb) (r\<lparr>rd_pongs := ps\<rparr>) fs =
      (r'\<lparr>rd_pongs := ps @ map fr_payload (filter is_ping fs)\<rparr>, None)"
  using assms
proof (induction fs arbitrary: r ps)
  case (Cons f fs)
  show ?case
  proof (cases "is_data f")
    case True
    then have np: "\<not> is_ping f" by (auto simp: is_data_def is_ping_def)
    obtain r1 where o: "on_frame cb r f = (r1, None)"
      "run_frames (on_frame cb) r1 (filter is_data fs) = (r', None)"
      using Cons.prems(1) True by (auto split: prod.splits option.splits)
    from Cons.IH [OF o(2), of ps] Cons.prems(2) show ?thesis
      using np on_frame_pongs [OF True, of cb ps r] o(1) by simp
  next
    case False
    then show ?thesis
      using Cons.IH [of r "ps @ (if is_ping f then [fr_payload f] else [])"] Cons.prems
      by (auto simp: on_frame_control)
  qed
qed simp

lemma run_continuation:
  assumes "ps \<noteq> []" and "fragActive r"
    and "snd (dispatch cb (fragOpcode r) (fragPayload r @ concat ps) (rd_app r)) = None"
  shows "\<exists>r'. run_frames (on_frame cb) r (msg_frames 0 ps) = (r', None) \<and>
    \<not> fragActive r' \<and> rd_pongs r' = rd_pongs r \<and>
    rd_app r' = fst (dispatch cb (fragOpcode r) (fragPayload r @ concat ps) (rd_app r))"
  using assms
proof (induction "0 :: u8" ps arbitrary: r rule: msg_frames.induct)
  case (2 p)
  then show ?case by (simp add: on_frame_def Let_def deliver_quiet)
next
  case (3 p q qs)
  let ?r = "r\<lparr>fragPayload := fragPayload r @ p\<rparr>"
  have "on_frame cb r \<lparr>fr_fin = False, fr_opcode = 0, fr_payload = p\<rparr> = (?r, None)"
    using 3(3) by (simp add: on_frame_def Let_def)
  then show ?case using 3(1) [of ?r] 3(3,4) by simp
qed simp

lemma run_message:
  assumes "quiet_message cb I (opcode, ps)" and "\<not> fragActive r" and "I (rd_app r)"
  shows "\<exists>r'. run_frames (on_frame cb) r (msg_frames opcode ps) = (r', None) \<and>
    \<not> fragActive r' \<and> rd_pongs r' = rd_pongs r \<and> I (rd_app r') \<and>
    rd_app r' = fst (dispatch cb opcode (concat ps) (rd_app r))"
proof (cases ps)
  case (Cons p qs)
  show ?thesis
  proof (cases qs)
    case Nil
    then show ?thesis using Cons assms by (auto simp: on_frame_def deliver_quiet quiet_message_def)
  next
    case (Cons q qs')
    let ?r = "r\<lparr>fragActive := True, fragOpcode := opcode, fragPayload := p\<rparr>"
    have "on_frame cb r \<lparr>fr_fin = False, fr_opcode = opcode, fr_payload = p\<rparr> = (?r, None)"
      using assms(1) by (auto simp: on_frame_def quiet_message_def)
    then show ?thesis
      using run_continuation [of qs ?r cb] assms(1,3) \<open>ps = p # qs\<close> Cons
      by (auto simp: quiet_message_def)
  qed
qed (use assms(1) in \<open>simp add: quiet_message_def\<close>)

lemma run_messages:
  assumes "\<forall>m \<in> set msgs. quiet_message cb I m" and "\<not> fragActive r" and "I (rd_app r)"
  shows "\<exists>r'. run_frames (on_frame cb) r (concat (map (\<lambda>(opcode, ps). msg_frames opcode ps) msgs)) = (r', None) \<and>
    \<not> fragActive r' \<and> rd_pongs r' = rd_pongs r \<and> I (rd_app r') \<and>
    rd_app r' = foldl (\<lambda>s (opcode, ps). fst (dispatch cb opcode (concat ps) s)) (rd_app r) msgs"
  using assms
proof (induction msgs arbitrary: r)
  case (Cons m msgs)
  obtain opcode ps where m: "m = (opcode, ps)" by (cases m)
  with Cons.prems have "quiet_message cb I (opcode, ps)" by auto
  from run_message [OF this Cons.prems(2,3)] obtain r1 where
    r1: "run_frames (on_frame cb) r (msg_frames opcode ps) = (r1, None)" "\<not> fragActive r1"
      "I (rd_app r1)" "rd_pongs r1 = rd_pongs r" "rd_app r1 = fst (dispatch cb opcode (concat ps) (rd_app r))" by blast
  from Cons.IH [of r1] Cons.prems(1) r1(2,3) show ?case
    by (auto simp: m run_frames_append r1)
qed simp

lemma messages_delivered:
  assumes "\<forall>m \<in> set msgs. quiet_message cb I m" and "I s" and "\<forall>f \<in> set fs. valid_ws None f \<and> fr_opcode f \<noteq> 8"
    and "filter is_data fs = concat (map (\<lambda>(opcode, ps). msg_frames opcode ps) msgs)"
    and "concat (chunk # chunks) = concat (map enc_ws fs)" and "pendingBytes c = []"
  shows "\<exists>r. fst (runReadLoop cb s c (chunk # chunks)) = (r, [], None) \<and> I (rd_app r) \<and>
    rd_app r = foldl (\<lambda>s (opcode, ps). fst (dispatch cb opcode (concat ps) s)) s msgs \<and>
    rd_pongs r = map fr_payload (filter is_ping fs)"
proof -
  let ?fin = "\<lambda>r'. r'\<lparr>rd_pongs := map fr_payload (filter is_ping fs)\<rparr>"
  have nr: "\<not> fragActive (new_reader s)" "rd_app (new_reader s) = s" "(new_reader s)\<lparr>rd_pongs := []\<rparr> = new_reader s"
    by (simp_all add: new_reader_def)
  have "I (rd_app (new_reader s))" using assms(2) by (simp only: nr(2))
  from run_messages [OF assms(1) nr(1) this] obtain r' where r':
    "run_frames (on_frame cb) (new_reader s) (filter is_data fs) = (r', None)"
    "rd_app r' = foldl (\<lambda>s (opcode, ps). fst (dispatch cb opcode (concat ps) s)) s msgs" "I (rd_app r')"
    unfolding assms(4) nr(2) by blast
  have rf: "run_frames (on_frame cb) (new_reader s) fs = (?fin r', None)"
    using run_frames_control [OF r'(1), of "[]"] assms(3) unfolding nr(3) by simp
  have "view (foldl (feed next_ws_stop (on_frame cb)) (new_reader s, [], None) (chunk # chunks)) =
      (?fin r', Some [], None)"
    using wsl.chunked_run [of "chunk # chunks" fs "[]" "on_frame cb" "new_reader s"] assms(3,5) rf
    by (simp add: wsl.empty_more)
  then have "fst (runReadLoop cb s c (chunk # chunks)) = (?fin r', [], None)"
    unfolding runReadLoop_feed assms(6) view_eq_None .
  then show ?thesis using r'(2,3) by simp
qed

text \<open>
  Property C4: a stream of frames that carries whole messages in any fragmentation, with pings, pongs and
  unknown frames anywhere between the fragments, arriving in any chunks, hands every message to its
  callback exactly once, complete and in order, and answers every ping with its own payload.
\<close>

theorem ws_messages_reassembled:
  assumes "\<forall>m \<in> set msgs. quiet_message cb I m" and "I s" and "\<forall>f \<in> set fs. valid_ws None f \<and> fr_opcode f \<noteq> 8"
    and "filter is_data fs = concat (map (\<lambda>(opcode, ps). msg_frames opcode ps) msgs)"
    and "concat (chunk # chunks) = concat (map enc_ws fs)" and "pendingBytes c = []"
  shows "\<exists>r. fst (runReadLoop cb s c (chunk # chunks)) = (r, [], None) \<and> I (rd_app r) \<and>
    rd_app r = foldl (\<lambda>s (opcode, ps). fst (dispatch cb opcode (concat ps) s)) s msgs \<and>
    rd_pongs r = map fr_payload (filter is_ping fs)"
  by (rule messages_delivered [OF assms])

text \<open>Callbacks that record what they are given.\<close>

definition demo_callbacks :: "(u8 \<times> bytes) list ws_callbacks" where
  "demo_callbacks = \<lparr>onText = Some (\<lambda>s p. (s @ [(1, p)], None)), onBinary = Some (\<lambda>s p. (s @ [(2, p)], None))\<rparr>"

theorem ws_messages_reassembled_witness:
  "\<exists>r. fst (runReadLoop demo_callbacks [] \<lparr>ws_fd = 5, pendingBytes = []\<rparr>
      [[0x02, 2, 10], [11, 0x89, 1, 77, 0x80], [1, 12, 0x81, 0]]) = (r, [], None) \<and>
    rd_app r = [(2, [10, 11, 12]), (1, [])] \<and> rd_pongs r = [[77]]"
proof -
  let ?fs = "[\<lparr>fr_fin = False, fr_opcode = 2, fr_payload = [10, 11]\<rparr>, \<lparr>fr_fin = True, fr_opcode = 9, fr_payload = [77]\<rparr>,
    \<lparr>fr_fin = True, fr_opcode = 0, fr_payload = [12]\<rparr>, \<lparr>fr_fin = True, fr_opcode = 1, fr_payload = []\<rparr>]"
  let ?ms = "[(2 :: u8, [[10, 11], [12]]), (1, [[]])]"
  have a: "\<forall>f \<in> set ?fs. valid_ws None f \<and> fr_opcode f \<noteq> 8" by (simp add: max_vector_def)
  have b: "filter is_data ?fs = concat (map (\<lambda>(opcode, ps). msg_frames opcode ps) ?ms)"
    by (simp add: is_data_def)
  have c: "\<forall>m \<in> set ?ms. quiet_message demo_callbacks (\<lambda>_. True) m"
    by (simp add: quiet_message_def dispatch_def demo_callbacks_def)
  have d: "concat [[0x02, 2, 10], [11, 0x89, 1, 77, 0x80], [1, 12, 0x81, 0]] = concat (map enc_ws ?fs)"
    by (simp add: enc_ws_def encode_frame_def length_field_def)
  show ?thesis
    using ws_messages_reassembled [OF c TrueI a b d, of "\<lparr>ws_fd = 5, pendingBytes = []\<rparr>" "[]"]
    by (simp add: dispatch_def demo_callbacks_def is_ping_def)
qed

end
