(* ===== verification/WsThreads.thy ===== *)
theory WsThreads
  imports WsFrames "HOL-Library.Sublist"
begin

text \<open>
  The two threads that share a \<open>WebSocketClient\<close> (\<open>src/sdrconnect/websocket.cpp\<close>, \<open>src/sdrconnect/client.cpp\<close>):
  the read thread in \<open>runReadLoop\<close>, which owns the descriptor, and the thread in \<open>SdrConnectClient::close\<close>,
  which sends a closing frame, shuts the socket down and joins. Nothing locks \<open>fd_\<close> or the sending of frames,
  so every \<open>send\<close>, every use of \<open>fd_\<close> and every frame handled is a step of its own.
\<close>

section \<open>The state\<close>

text \<open>
  The read thread: in \<open>recv\<close> with the kept bytes, in the frame loop with the bytes from \<open>offset\<close> on, sending the
  rest of a pong, before \<open>::close(fd_)\<close>, before \<open>fd_ = -1\<close>, returned, or ended by an exception.
\<close>

datatype ws_pc =
    RdRecv bytes
  | RdLoop bytes
  | RdPong bytes bytes
  | RdClosing
  | RdReset
  | RdDone
  | RdEscaped fault

text \<open>The closing thread: the check of \<open>fd_\<close>, \<open>sendFrame\<close> and its \<open>sendAll\<close> on the \<open>fd_\<close> read then, \<open>shutdown\<close>, \<open>join\<close>.\<close>

datatype closer_pc = CloseIdle | CloseFrame | CloseSend int bytes | CloseShut | CloseJoin | CloseDone

text \<open>
  \<open>wl_open\<close>, \<open>wl_shut\<close>, \<open>wl_ended\<close> and \<open>wl_queue\<close> are the kernel's socket: not closed, shut down, ended by the peer,
  and the bytes received but not read; \<open>wl_wire\<close> is what it took, \<open>wl_partial\<close> whether a \<open>send\<close> ever took only
  a part, \<open>wl_closes\<close> the number of \<open>::close\<close> calls.
\<close>

record 's ws_link =
  wl_fd :: int
  wl_open :: bool
  wl_shut :: bool
  wl_ended :: bool
  wl_queue :: bytes
  wl_wire :: bytes
  wl_partial :: bool
  wl_closes :: nat
  wl_reader :: "'s ws_reader"
  wl_pc :: ws_pc
  wl_closer :: closer_pc

text \<open>A connected client when its read thread starts.\<close>

definition ws_linked :: "ws_conn \<Rightarrow> 's \<Rightarrow> 's ws_link" where
  "ws_linked c a = \<lparr>wl_fd = ws_fd c, wl_open = True, wl_shut = False, wl_ended = False, wl_queue = [],
     wl_wire = [], wl_partial = False, wl_closes = 0, wl_reader = new_reader a, wl_pc = RdRecv (pendingBytes c),
     wl_closer = CloseIdle\<rparr>"

text \<open>One successful \<open>send\<close> of the first \<open>n\<close> bytes of \<open>rest\<close>.\<close>

definition took :: "nat \<Rightarrow> bytes \<Rightarrow> 's ws_link \<Rightarrow> 's ws_link" where
  "took n rest s = s\<lparr>wl_wire := wl_wire s @ take n rest, wl_partial := (wl_partial s \<or> n < length rest)\<rparr>"

section \<open>The steps\<close>

inductive ws_read_step :: "'s ws_callbacks \<Rightarrow> 's ws_link \<Rightarrow> 's ws_link \<Rightarrow> bool" for cb where
  rd_bytes: "wl_pc s = RdRecv buf \<Longrightarrow> wl_queue s = chunk @ rest \<Longrightarrow> chunk \<noteq> [] \<Longrightarrow> length chunk \<le> 65536 \<Longrightarrow>
     ws_read_step cb s (s\<lparr>wl_queue := rest, wl_pc := RdLoop (buf @ chunk)\<rparr>)"
| rd_end: "wl_pc s = RdRecv buf \<Longrightarrow> wl_ended s \<or> wl_shut s \<Longrightarrow> ws_read_step cb s (s\<lparr>wl_pc := RdClosing\<rparr>)"
| rd_more: "wl_pc s = RdLoop buf \<Longrightarrow> next_ws buf = NeedMore \<Longrightarrow> ws_read_step cb s (s\<lparr>wl_pc := RdRecv buf\<rparr>)"
| rd_abort: "wl_pc s = RdLoop buf \<Longrightarrow> next_ws buf = Abort e \<Longrightarrow> ws_read_step cb s (s\<lparr>wl_pc := RdEscaped e\<rparr>)"
| rd_frame: "wl_pc s = RdLoop buf \<Longrightarrow> next_ws buf = Frame f n \<Longrightarrow> \<not> is_ping f \<Longrightarrow>
     on_frame cb (wl_reader s) f = (r', v) \<Longrightarrow>
     ws_read_step cb s (s\<lparr>wl_reader := r', wl_pc := (case v of None \<Rightarrow> RdLoop (drop n buf)
       | Some CloseSeen \<Rightarrow> RdClosing | Some (Escaped e) \<Rightarrow> RdEscaped e)\<rparr>)"
| rd_ping: "wl_pc s = RdLoop buf \<Longrightarrow> next_ws buf = Frame f n \<Longrightarrow> is_ping f \<Longrightarrow> length mk = 4 \<Longrightarrow>
     ws_read_step cb s (s\<lparr>wl_reader := fst (on_frame cb (wl_reader s) f),
       wl_pc := RdPong (sendFrame 10 (fr_payload f) mk) (drop n buf)\<rparr>)"
| rd_pong_send: "wl_pc s = RdPong rest buf \<Longrightarrow> 0 < n \<Longrightarrow> n \<le> length rest \<Longrightarrow> \<not> wl_shut s \<Longrightarrow>
     ws_read_step cb s ((took n rest s)\<lparr>wl_pc := RdPong (drop n rest) buf\<rparr>)"
| rd_pong_ends: "wl_pc s = RdPong rest buf \<Longrightarrow>  \<comment> \<open>all sent, or \<open>send\<close> failed and the exception is ignored\<close>
     ws_read_step cb s (s\<lparr>wl_pc := RdLoop buf\<rparr>)"
| rd_closes: "wl_pc s = RdClosing \<Longrightarrow>
     ws_read_step cb s (s\<lparr>wl_open := False, wl_closes := wl_closes s + 1, wl_pc := RdReset\<rparr>)"
| rd_resets: "wl_pc s = RdReset \<Longrightarrow> ws_read_step cb s (s\<lparr>wl_fd := -1, wl_pc := RdDone\<rparr>)"

inductive ws_close_step :: "'s ws_link \<Rightarrow> 's ws_link \<Rightarrow> bool" where
  cl_skip: "wl_closer s = CloseIdle \<Longrightarrow> wl_fd s < 0 \<Longrightarrow> ws_close_step s (s\<lparr>wl_closer := CloseJoin\<rparr>)"
| cl_begin: "wl_closer s = CloseIdle \<Longrightarrow> \<not> wl_fd s < 0 \<Longrightarrow> ws_close_step s (s\<lparr>wl_closer := CloseFrame\<rparr>)"
| cl_encode: "wl_closer s = CloseFrame \<Longrightarrow> length mk = 4 \<Longrightarrow>
     ws_close_step s (s\<lparr>wl_closer := CloseSend (wl_fd s) (sendFrame 8 [] mk)\<rparr>)"
| cl_send: "wl_closer s = CloseSend fd rest \<Longrightarrow> 0 < n \<Longrightarrow> n \<le> length rest \<Longrightarrow> 0 \<le> fd \<Longrightarrow> wl_open s \<Longrightarrow>
     ws_close_step s ((took n rest s)\<lparr>wl_closer := CloseSend fd (drop n rest)\<rparr>)"
| cl_sent: "wl_closer s = CloseSend fd rest \<Longrightarrow>  \<comment> \<open>all sent, or \<open>send\<close> failed and the exception is ignored\<close>
     ws_close_step s (s\<lparr>wl_closer := CloseShut\<rparr>)"
| cl_shut: "wl_closer s = CloseShut \<Longrightarrow>
     ws_close_step s (s\<lparr>wl_shut := (0 \<le> wl_fd s \<and> wl_open s), wl_closer := CloseJoin\<rparr>)"
| cl_join: "wl_closer s = CloseJoin \<Longrightarrow> wl_pc s = RdDone \<Longrightarrow> ws_close_step s (s\<lparr>wl_closer := CloseDone\<rparr>)"

text \<open>The peer sends bytes, or ends the connection.\<close>

inductive ws_peer_step :: "'s ws_link \<Rightarrow> 's ws_link \<Rightarrow> bool" where
  peer_sends: "wl_open s \<Longrightarrow> \<not> wl_ended s \<Longrightarrow> \<not> wl_shut s \<Longrightarrow>
     ws_peer_step s (s\<lparr>wl_queue := wl_queue s @ bs\<rparr>)"
| peer_ends: "\<not> wl_ended s \<Longrightarrow> ws_peer_step s (s\<lparr>wl_ended := True\<rparr>)"

definition ws_step :: "'s ws_callbacks \<Rightarrow> 's ws_link \<Rightarrow> 's ws_link \<Rightarrow> bool" where
  "ws_step cb s s' \<longleftrightarrow> ws_read_step cb s s' \<or> ws_close_step s s' \<or> ws_peer_step s s'"

lemma ws_step_cases:
  assumes "ws_step cb s s'"
  obtains (read) "ws_read_step cb s s'" | (closing) "ws_close_step s s'" | (peer) "ws_peer_step s s'"
  using assms by (auto simp: ws_step_def)

lemma took_simps [simp]:
  "wl_fd (took n rest s) = wl_fd s" "wl_open (took n rest s) = wl_open s" "wl_shut (took n rest s) = wl_shut s"
  "wl_closes (took n rest s) = wl_closes s" "wl_reader (took n rest s) = wl_reader s"
  "wl_pc (took n rest s) = wl_pc s" "wl_closer (took n rest s) = wl_closer s" "wl_queue (took n rest s) = wl_queue s"
  "wl_ended (took n rest s) = wl_ended s" "wl_wire (took n rest s) = wl_wire s @ take n rest"
  "wl_partial (took n rest s) \<longleftrightarrow> wl_partial s \<or> n < length rest"
  by (simp_all add: took_def)

section \<open>Who owns the descriptor\<close>

definition ws_link_inv :: "int \<Rightarrow> 's ws_link \<Rightarrow> bool" where
  "ws_link_inv fd s \<longleftrightarrow> 0 \<le> fd \<and> (wl_open s \<longleftrightarrow> wl_pc s \<notin> {RdReset, RdDone}) \<and>
     wl_closes s = (if wl_open s then 0 else 1) \<and> wl_fd s = (if wl_pc s = RdDone then -1 else fd) \<and>
     (wl_closer s \<in> {CloseJoin, CloseDone} \<longrightarrow> wl_shut s \<or> wl_pc s \<in> {RdReset, RdDone}) \<and>
     (wl_shut s \<longrightarrow> wl_closer s \<in> {CloseJoin, CloseDone}) \<and> (wl_closer s = CloseDone \<longrightarrow> wl_pc s = RdDone)"

lemma ws_link_inv_step: "ws_step cb s s' \<Longrightarrow> ws_link_inv fd s \<Longrightarrow> ws_link_inv fd s'"
proof (induction rule: ws_step_cases)
  case read
  then show ?case
    by (induction rule: ws_read_step.induct) (auto simp: ws_link_inv_def split: option.splits ws_stop.splits)
next
  case closing
  then show ?case by (induction rule: ws_close_step.induct) (auto simp: ws_link_inv_def)
next
  case peer
  then show ?case by (induction rule: ws_peer_step.induct) (auto simp: ws_link_inv_def)
qed

lemma ws_link_inv_reachable:
  assumes "(ws_step cb)\<^sup>*\<^sup>* (ws_linked c a) s" and "0 \<le> ws_fd c"
  shows "ws_link_inv (ws_fd c) s"
  using assms(1)
proof (induction rule: rtranclp_induct)
  case base
  then show ?case using assms(2) by (simp add: ws_link_inv_def ws_linked_def)
qed (rule ws_link_inv_step)

section \<open>Closing comes to an end\<close>

text \<open>A bound on the steps that are left once the closing thread joins.\<close>

fun pc_rank :: "nat \<Rightarrow> ws_pc \<Rightarrow> nat" where
  "pc_rank q (RdRecv buf) = 5 * q + 3 * length buf + 3"
| "pc_rank q (RdLoop buf) = 5 * q + 3 * length buf + 4"
| "pc_rank q (RdPong rest buf) = 5 * q + 3 * length buf + 5"
| "pc_rank q RdClosing = 2"
| "pc_rank q RdReset = 1"
| "pc_rank q _ = 0"

definition ws_rank :: "'s ws_link \<Rightarrow> nat" where
  "ws_rank s = pc_rank (length (wl_queue s)) (wl_pc s) + (if wl_ended s then 0 else 1) +
     (if wl_closer s = CloseDone then 0 else 1)"

definition joining :: "'s ws_link \<Rightarrow> bool" where
  "joining s \<longleftrightarrow> wl_closer s \<in> {CloseJoin, CloseDone}"

lemma ws_frame_size: "next_ws buf = Frame f n \<Longrightarrow> 2 \<le> n \<and> n \<le> length buf"
  by (fastforce dest: next_ws_Frame)

lemma read_step_rank:
  assumes "ws_read_step cb s s'" and "wl_shut s \<or> wl_pc s \<in> {RdReset, RdDone}"
  shows "pc_rank (length (wl_queue s')) (wl_pc s') < pc_rank (length (wl_queue s)) (wl_pc s) \<and>
    wl_closer s' = wl_closer s \<and> wl_ended s' = wl_ended s"
  using assms(1)
proof (cases rule: ws_read_step.cases)
  case (rd_bytes buf chunk rest)
  then show ?thesis by (cases chunk) auto
next
  case (rd_frame buf f n r' v)
  with ws_frame_size [OF rd_frame(3)] show ?thesis by (auto split: option.splits ws_stop.splits)
next
  case (rd_ping buf f n mk)
  with ws_frame_size [OF rd_ping(3)] show ?thesis by auto
qed (use assms(2) in auto)

lemma joining_step:
  assumes "ws_step cb s s'" and "ws_link_inv fd s" and "joining s"
  shows "joining s' \<and> ws_rank s' < ws_rank s"
proof -
  have j: "wl_shut s \<or> wl_pc s \<in> {RdReset, RdDone}" "wl_closer s \<in> {CloseJoin, CloseDone}"
    using assms(2,3) by (auto simp: ws_link_inv_def joining_def)
  from assms(1) show ?thesis
  proof (cases rule: ws_step_cases)
    case read
    from read_step_rank [OF read j(1)] j(2) show ?thesis by (auto simp: ws_rank_def joining_def)
  next
    case closing
    then show ?thesis by (cases rule: ws_close_step.cases) (use j in \<open>auto simp: ws_rank_def joining_def\<close>)
  next
    case peer
    then show ?thesis
      by (cases rule: ws_peer_step.cases) (use j assms(2) in \<open>auto simp: ws_rank_def joining_def ws_link_inv_def\<close>)
  qed
qed

lemma joining_run:
  assumes "(ws_step cb ^^ n) s s'" and "ws_link_inv fd s" and "joining s"
  shows "n + ws_rank s' \<le> ws_rank s \<and> ws_link_inv fd s' \<and> joining s'"
  using assms(1)
proof (induction n arbitrary: s')
  case (Suc n)
  then obtain t where t: "(ws_step cb ^^ n) s t" "ws_step cb t s'" by auto
  with Suc.IH joining_step [OF t(2)] ws_link_inv_step [OF t(2)] show ?case by fastforce
qed (use assms in simp)

text \<open>The read thread can always go on, unless it waits for the peer.\<close>

lemma read_progress:
  assumes "wl_pc s \<noteq> RdDone" and "\<forall>e. wl_pc s \<noteq> RdEscaped e" and "wl_shut s \<or> wl_pc s \<in> {RdReset, RdDone}"
  shows "\<exists>s'. ws_read_step cb s s'"
proof (cases "wl_pc s")
  case (RdLoop buf)
  show ?thesis
  proof (cases "next_ws buf")
    case (Frame f n)
    show ?thesis
    proof (cases "is_ping f")
      case True
      from rd_ping [OF RdLoop Frame True, of "[0, 0, 0, 0]" cb] show ?thesis by auto
    next
      case False
      obtain r' v where "on_frame cb (wl_reader s) f = (r', v)" by fastforce
      from rd_frame [OF RdLoop Frame False this] show ?thesis by blast
    qed
  qed (blast intro: rd_more rd_abort RdLoop)+
qed (use assms in \<open>auto intro: rd_end rd_pong_ends rd_closes rd_resets\<close>)

lemma joining_stuck:
  assumes "ws_link_inv fd s" and "joining s" and "\<nexists>s'. ws_read_step cb s s' \<or> ws_close_step s s'"
  shows "wl_closer s = CloseDone \<or> (\<exists>e. wl_pc s = RdEscaped e)"
proof (rule ccontr)
  assume n: "\<not> (wl_closer s = CloseDone \<or> (\<exists>e. wl_pc s = RdEscaped e))"
  then have j: "wl_closer s = CloseJoin" using assms(2) by (auto simp: joining_def)
  have "wl_pc s \<noteq> RdDone" using cl_join [OF j] assms(3) by blast
  then have "\<exists>s'. ws_read_step cb s s'" using n j assms(1) by (intro read_progress) (auto simp: ws_link_inv_def)
  with assms(3) show False by blast
qed

text \<open>
  Property C20: closing ends: from the moment \<open>close\<close> waits for the read thread, the threads and the peer
  together can take only a bounded number of steps, however they are scheduled, and the two threads cannot get
  stuck, whatever the peer does, before the join has returned, unless an exception left the read thread; then
  the read thread has returned, has closed the descriptor once, and none is left for the destructor.
\<close>

theorem ws_close_joins:
  assumes "(ws_step cb)\<^sup>*\<^sup>* (ws_linked c a) s" and "0 \<le> ws_fd c" and "wl_closer s = CloseJoin"
  shows "((ws_step cb ^^ n) s s' \<longrightarrow> n \<le> ws_rank s) \<and>
    ((ws_step cb)\<^sup>*\<^sup>* s s' \<and> (\<nexists>s''. ws_read_step cb s' s'' \<or> ws_close_step s' s'') \<longrightarrow>
       wl_closer s' = CloseDone \<and> wl_pc s' = RdDone \<and> wl_closes s' = 1 \<and> wl_fd s' = -1 \<or>
       (\<exists>e. wl_pc s' = RdEscaped e))"
proof (intro conjI impI)
  have i: "ws_link_inv (ws_fd c) s" by (rule ws_link_inv_reachable [OF assms(1,2)])
  have j: "joining s" using assms(3) by (simp add: joining_def)
  show "n \<le> ws_rank s" if "(ws_step cb ^^ n) s s'" using joining_run [OF that i j] by simp
  assume r: "(ws_step cb)\<^sup>*\<^sup>* s s' \<and> (\<nexists>s''. ws_read_step cb s' s'' \<or> ws_close_step s' s'')"
  then obtain k where "(ws_step cb ^^ k) s s'" by (auto simp: rtranclp_power)
  from joining_run [OF this i j] have i': "ws_link_inv (ws_fd c) s'" and "joining s'" by simp_all
  from joining_stuck [OF this] r have "wl_closer s' = CloseDone \<or> (\<exists>e. wl_pc s' = RdEscaped e)" by blast
  moreover from i' have "wl_pc s' = RdDone \<and> wl_closes s' = 1 \<and> wl_fd s' = -1" if "wl_closer s' = CloseDone"
    using that by (simp add: ws_link_inv_def)
  ultimately show "wl_closer s' = CloseDone \<and> wl_pc s' = RdDone \<and> wl_closes s' = 1 \<and> wl_fd s' = -1 \<or>
      (\<exists>e. wl_pc s' = RdEscaped e)" by blast
qed

section \<open>What the two threads write\<close>

text \<open>The frames on the wire, as opcode, payload and mask.\<close>

definition frames_wire :: "(u8 \<times> bytes \<times> bytes) list \<Rightarrow> bytes" where
  "frames_wire fs = concat (map (\<lambda>(op, p, mk). sendFrame op p mk) fs)"

definition pongs_of :: "(u8 \<times> bytes \<times> bytes) list \<Rightarrow> bytes list" where
  "pongs_of fs = [p. (op, p, mk) \<leftarrow> fs, op = 10]"

definition closes_of :: "(u8 \<times> bytes \<times> bytes) list \<Rightarrow> nat" where
  "closes_of fs = length (filter (\<lambda>(op, p, mk). op = 8) fs)"

definition control_frame :: "u8 \<times> bytes \<times> bytes \<Rightarrow> bool" where
  "control_frame f = (case f of (op, p, mk) \<Rightarrow> length mk = 4 \<and> (op = 10 \<or> op = 8 \<and> p = []))"

lemma frames_snoc [simp]:
  "frames_wire (fs @ [(op, p, mk)]) = frames_wire fs @ sendFrame op p mk"
  "pongs_of (fs @ [(op, p, mk)]) = pongs_of fs @ (if op = 10 then [p] else [])"
  "closes_of (fs @ [(op, p, mk)]) = closes_of fs + (if op = 8 then 1 else 0)"
  by (simp_all add: frames_wire_def pongs_of_def closes_of_def)

text \<open>A pong or a closing frame in hand of which nothing is sent yet, or which is sent.\<close>

definition pong_ok :: "ws_pc \<Rightarrow> bytes list \<Rightarrow> bytes list \<Rightarrow> bool" where
  "pong_ok pc sent asked \<longleftrightarrow> subseq sent asked \<and> (case pc of
     RdPong rest buf \<Rightarrow> rest = [] \<or>
       (\<exists>ps p mk. asked = ps @ [p] \<and> subseq sent ps \<and> length mk = 4 \<and> rest = sendFrame 10 p mk)
   | _ \<Rightarrow> True)"

definition close_ok :: "closer_pc \<Rightarrow> nat \<Rightarrow> bool" where
  "close_ok cl k \<longleftrightarrow> (case cl of
     CloseIdle \<Rightarrow> k = 0
   | CloseFrame \<Rightarrow> k = 0
   | CloseSend fd rest \<Rightarrow> k \<le> 1 \<and> (rest = [] \<or> k = 0 \<and> (\<exists>mk. length mk = 4 \<and> rest = sendFrame 8 [] mk))
   | _ \<Rightarrow> k \<le> 1)"

definition wire_inv :: "'s ws_link \<Rightarrow> bool" where
  "wire_inv s \<longleftrightarrow> (\<not> wl_partial s \<longrightarrow> (\<exists>fs. wl_wire s = frames_wire fs \<and> list_all control_frame fs \<and>
     pong_ok (wl_pc s) (pongs_of fs) (rd_pongs (wl_reader s)) \<and> close_ok (wl_closer s) (closes_of fs)))"

lemma on_frame_keeps_pongs: "on_frame cb r f = (r', v) \<Longrightarrow> \<not> is_ping f \<Longrightarrow> rd_pongs r' = rd_pongs r"
  by (auto simp: on_frame_def deliver_def is_ping_def Let_def split: if_splits prod.splits option.splits)

lemma on_frame_ping: "is_ping f \<Longrightarrow> rd_pongs (fst (on_frame cb r f)) = rd_pongs r @ [fr_payload f]"
  by (auto simp: on_frame_def is_ping_def)

lemma pong_ok_other: "pong_ok pc sent asked \<Longrightarrow> (\<forall>rest buf. pc' \<noteq> RdPong rest buf) \<Longrightarrow> pong_ok pc' sent asked"
  by (auto simp: pong_ok_def split: ws_pc.splits)

lemma wire_inv_read: "ws_read_step cb s s' \<Longrightarrow> wire_inv s \<Longrightarrow> wire_inv s'"
proof (induction rule: ws_read_step.induct)
  case (rd_frame s buf f n r' v)
  from rd_frame.prems show ?case
    unfolding wire_inv_def using on_frame_keeps_pongs [OF rd_frame(4,3)]
    by (auto elim!: pong_ok_other split: option.splits ws_stop.splits)
next
  case (rd_ping s buf f n mk)
  have "pong_ok (RdPong (sendFrame 10 (fr_payload f) mk) (drop n buf)) sent (asked @ [fr_payload f])"
    if "pong_ok (wl_pc s) sent asked" for sent asked
    using that rd_ping(4) by (auto simp: pong_ok_def)
  with rd_ping.prems show ?case unfolding wire_inv_def by (auto simp: on_frame_ping [OF rd_ping(3)])
next
  case (rd_pong_send s rest buf n)
  show ?case
  proof (cases "wl_partial s \<or> n < length rest")
    case True
    then show ?thesis by (simp add: wire_inv_def)
  next
    case False
    with rd_pong_send have r: "take n rest = rest" "drop n rest = []" "rest \<noteq> []" by auto
    from rd_pong_send.prems False obtain fs where fs: "wl_wire s = frames_wire fs" "list_all control_frame fs"
      "pong_ok (wl_pc s) (pongs_of fs) (rd_pongs (wl_reader s))" "close_ok (wl_closer s) (closes_of fs)"
      unfolding wire_inv_def by blast
    from fs(3) r(3) rd_pong_send(1) obtain ps p mk where p: "rd_pongs (wl_reader s) = ps @ [p]"
      "subseq (pongs_of fs) ps" "length mk = 4" "rest = sendFrame 10 p mk" by (auto simp: pong_ok_def)
    from p(2) have "subseq (pongs_of fs @ [p]) (ps @ [p])" by simp
    with fs p r show ?thesis unfolding wire_inv_def
      by (intro impI exI [of _ "fs @ [(10, p, mk)]"]) (simp add: control_frame_def pong_ok_def)
  qed
qed (auto simp: wire_inv_def elim!: pong_ok_other)

lemma wire_inv_close: "ws_close_step s s' \<Longrightarrow> wire_inv s \<Longrightarrow> wire_inv s'"
proof (induction rule: ws_close_step.induct)
  case (cl_send s fd rest n)
  show ?case
  proof (cases "wl_partial s \<or> n < length rest")
    case True
    then show ?thesis by (simp add: wire_inv_def)
  next
    case False
    with cl_send have r: "take n rest = rest" "drop n rest = []" "rest \<noteq> []" by auto
    from cl_send.prems False obtain fs where fs: "wl_wire s = frames_wire fs" "list_all control_frame fs"
      "pong_ok (wl_pc s) (pongs_of fs) (rd_pongs (wl_reader s))" "close_ok (wl_closer s) (closes_of fs)"
      unfolding wire_inv_def by blast
    from fs(4) r(3) cl_send(1) obtain mk where c: "closes_of fs = 0" "length mk = 4" "rest = sendFrame 8 [] mk"
      by (auto simp: close_ok_def)
    with fs r show ?thesis unfolding wire_inv_def
      by (intro impI exI [of _ "fs @ [(8, [], mk)]"]) (simp add: control_frame_def close_ok_def)
  qed
qed (auto simp: wire_inv_def close_ok_def)

lemma wire_inv_reachable:
  assumes "(ws_step cb)\<^sup>*\<^sup>* (ws_linked c a) s"
  shows "wire_inv s"
  using assms
proof (induction rule: rtranclp_induct)
  case base
  show ?case
    by (simp add: wire_inv_def ws_linked_def new_reader_def pong_ok_def close_ok_def)
      (intro exI [of _ "[]"], simp add: frames_wire_def pongs_of_def closes_of_def)
next
  case (step s s')
  from step(2) show ?case
  proof (cases rule: ws_step_cases)
    case peer
    then show ?thesis by (cases rule: ws_peer_step.cases) (use step.IH in \<open>auto simp: wire_inv_def\<close>)
  qed (use step.IH in \<open>blast intro: wire_inv_read wire_inv_close\<close>)+
qed

text \<open>
  Property C21: the descriptor of a WebSocket connection in every interleaving: only the read thread closes it,
  once, it is open whenever that thread uses it, and when \<open>close\<close> has returned it is closed and forgotten. As
  long as no \<open>send\<close> takes a part of a frame only, what the connection carries after the handshake is a sequence of
  whole frames, the pongs among them in the order of the pings, and at most one closing frame.
\<close>

theorem ws_link_invariant:
  assumes "(ws_step cb)\<^sup>*\<^sup>* (ws_linked c a) s" and "0 \<le> ws_fd c"
  shows "(wl_open s \<longleftrightarrow> wl_pc s \<notin> {RdReset, RdDone}) \<and> wl_closes s = (if wl_open s then 0 else 1) \<and>
    wl_fd s = (if wl_pc s = RdDone then -1 else ws_fd c) \<and>
    (wl_closer s = CloseDone \<longrightarrow> \<not> wl_open s \<and> wl_closes s = 1 \<and> wl_fd s = -1) \<and>
    (\<not> wl_partial s \<longrightarrow> (\<exists>fs. wl_wire s = frames_wire fs \<and> list_all control_frame fs \<and>
       subseq (pongs_of fs) (rd_pongs (wl_reader s)) \<and> closes_of fs \<le> 1))"
proof -
  have i: "ws_link_inv (ws_fd c) s" by (rule ws_link_inv_reachable [OF assms])
  have "close_ok cl k \<Longrightarrow> k \<le> 1" for cl k by (cases cl) (auto simp: close_ok_def)
  then have "\<not> wl_partial s \<longrightarrow> (\<exists>fs. wl_wire s = frames_wire fs \<and> list_all control_frame fs \<and>
       subseq (pongs_of fs) (rd_pongs (wl_reader s)) \<and> closes_of fs \<le> 1)"
    using wire_inv_reachable [OF assms(1)] unfolding wire_inv_def pong_ok_def by blast
  with i show ?thesis by (simp add: ws_link_inv_def)
qed

section \<open>The read thread alone\<close>

definition after_ws :: "ws_stop option \<Rightarrow> bytes \<Rightarrow> ws_pc" where
  "after_ws v b = (case v of None \<Rightarrow> RdRecv b | Some CloseSeen \<Rightarrow> RdClosing | Some (Escaped e) \<Rightarrow> RdEscaped e)"

definition pong_frames :: "bytes \<Rightarrow> bytes list \<Rightarrow> bytes" where
  "pong_frames mk ps = frames_wire (map (\<lambda>p. (10, p, mk)) ps)"

lemma pong_frames_simps [simp]:
  "pong_frames mk [] = []" "pong_frames mk (p # ps) = sendFrame 10 p mk @ pong_frames mk ps"
  by (simp_all add: pong_frames_def frames_wire_def)

lemma pong_sent:
  assumes "wl_pc s = RdLoop buf" and "next_ws buf = Frame f n" and "is_ping f" and "length mk = 4" and "\<not> wl_shut s"
  shows "(ws_read_step cb)\<^sup>*\<^sup>* s (s\<lparr>wl_reader := fst (on_frame cb (wl_reader s) f), wl_pc := RdLoop (drop n buf),
      wl_wire := wl_wire s @ sendFrame 10 (fr_payload f) mk\<rparr>)"
proof -
  let ?w = "sendFrame 10 (fr_payload f) mk"
  let ?s1 = "s\<lparr>wl_reader := fst (on_frame cb (wl_reader s) f), wl_pc := RdPong ?w (drop n buf)\<rparr>"
  let ?s2 = "(took (length ?w) ?w ?s1)\<lparr>wl_pc := RdPong [] (drop n buf)\<rparr>"
  have "ws_read_step cb s ?s1" using assms(1-4) by (rule rd_ping)
  moreover have "ws_read_step cb ?s1 ?s2"
    using rd_pong_send [of ?s1 ?w "drop n buf" "length ?w" cb] assms(5) by (simp add: sendFrame_def)
  moreover have "ws_read_step cb ?s2 (?s2\<lparr>wl_pc := RdLoop (drop n buf)\<rparr>)" by (rule rd_pong_ends) simp
  ultimately have "(ws_read_step cb)\<^sup>*\<^sup>* s (?s2\<lparr>wl_pc := RdLoop (drop n buf)\<rparr>)"
    by (meson converse_rtranclp_into_rtranclp rtranclp.rtrancl_refl)
  moreover have "?s2\<lparr>wl_pc := RdLoop (drop n buf)\<rparr> = s\<lparr>wl_reader := fst (on_frame cb (wl_reader s) f),
      wl_pc := RdLoop (drop n buf), wl_wire := wl_wire s @ ?w\<rparr>" by (cases s) (simp add: took_def)
  ultimately show ?thesis by simp
qed

lemma ws_loop_run:
  assumes "ws_loop cb r buf offset = (r', b', v)" and "length mk = 4" and "wl_pc s = RdLoop (drop offset buf)"
    and "wl_reader s = r" and "\<not> wl_shut s"
  shows "\<exists>new. rd_pongs r' = rd_pongs r @ new \<and> (ws_read_step cb)\<^sup>*\<^sup>* s
    (s\<lparr>wl_reader := r', wl_pc := after_ws v b', wl_wire := wl_wire s @ pong_frames mk new\<rparr>)"
  using assms
proof (induction cb r buf offset arbitrary: s r' b' v rule: ws_loop.induct)
  case (1 cb r buf offset)
  show ?case
  proof (cases "next_ws (drop offset buf)")
    case NeedMore
    then have "r' = r" "b' = drop offset buf" "v = None" using 1(2) by (simp_all add: ws_loop.simps)
    with rd_more [OF 1(4) NeedMore, of cb] 1(5) show ?thesis by (intro exI [of _ "[]"]) (auto simp: after_ws_def)
  next
    case (Abort e)
    then have "r' = r" "v = Some (Escaped e)" using 1(2) by (simp_all add: ws_loop.simps)
    with rd_abort [OF 1(4) Abort, of cb] 1(5) show ?thesis by (intro exI [of _ "[]"]) (auto simp: after_ws_def)
  next
    case (Frame f n)
    obtain r1 v1 where o: "on_frame cb r f = (r1, v1)" by fastforce
    show ?thesis
    proof (cases "is_ping f")
      case True
      then have v1: "v1 = None" and pongs: "rd_pongs r1 = rd_pongs r @ [fr_payload f]"
        using o on_frame_ping [of f cb r] by (auto simp: on_frame_def is_ping_def)
      let ?s = "s\<lparr>wl_reader := r1, wl_pc := RdLoop (drop n (drop offset buf)),
        wl_wire := wl_wire s @ sendFrame 10 (fr_payload f) mk\<rparr>"
      have run: "(ws_read_step cb)\<^sup>*\<^sup>* s ?s" using pong_sent [OF 1(4) Frame True 1(3,6), of cb] o 1(5) by simp
      have "ws_loop cb r1 buf (offset + n) = (r', b', v)" using 1(2) Frame o v1 by (subst (asm) ws_loop.simps) simp
      from 1(1) [OF Frame o [symmetric] v1 this 1(3), of ?s] 1(6) obtain new where
        "rd_pongs r' = rd_pongs r1 @ new" "(ws_read_step cb)\<^sup>*\<^sup>* ?s
          (s\<lparr>wl_reader := r', wl_pc := after_ws v b', wl_wire := wl_wire s @ pong_frames mk (fr_payload f # new)\<rparr>)"
        by (auto simp: add.commute)
      with rtranclp_trans [OF run this(2)] pongs show ?thesis by (intro exI [of _ "fr_payload f # new"]) simp
    next
      case False
      have p: "rd_pongs r1 = rd_pongs r" by (rule on_frame_keeps_pongs [OF o False])
      have step: "ws_read_step cb s (s\<lparr>wl_reader := r1, wl_pc := (case v1 of None \<Rightarrow> RdLoop (drop n (drop offset buf))
          | Some CloseSeen \<Rightarrow> RdClosing | Some (Escaped e) \<Rightarrow> RdEscaped e)\<rparr>)"
        using 1(4) Frame False o 1(5) by (intro rd_frame) simp_all
      show ?thesis
      proof (cases v1)
        case None
        then have "ws_loop cb r1 buf (offset + n) = (r', b', v)" using 1(2) Frame o by (subst (asm) ws_loop.simps) simp
        from 1(1) [OF Frame o [symmetric] None this 1(3), of "s\<lparr>wl_reader := r1, wl_pc := RdLoop (drop n (drop offset buf))\<rparr>"]
          1(6) step None p show ?thesis
          by (auto simp: add.commute intro: converse_rtranclp_into_rtranclp)
      next
        case (Some e)
        then have "r' = r1" "v = Some e" using 1(2) Frame o by (simp_all add: ws_loop.simps)
        with step Some p show ?thesis
          by (intro exI [of _ "[]"]) (auto simp: after_ws_def split: ws_stop.splits)
      qed
    qed
  qed
qed

text \<open>
  The read thread running alone in the interleaved model does what the functional read loop does
  with the chunk \<open>recv\<close> returned: the same messages to the same callbacks, the same end, and a pong frame on the
  wire for every ping, in order.
\<close>

theorem ws_reader_alone:
  assumes "ws_recv cb (wl_reader s, buf, None) chunk = (r', b', v)" and "wl_pc s = RdRecv buf"
    and "wl_queue s = chunk" and "chunk \<noteq> []" and "length chunk \<le> 65536" and "\<not> wl_shut s" and "length mk = 4"
  shows "\<exists>new. rd_pongs r' = rd_pongs (wl_reader s) @ new \<and> (ws_read_step cb)\<^sup>*\<^sup>* s
    (s\<lparr>wl_queue := [], wl_reader := r', wl_pc := after_ws v b', wl_wire := wl_wire s @ pong_frames mk new\<rparr>)"
proof -
  let ?s = "s\<lparr>wl_queue := [], wl_pc := RdLoop (buf @ chunk)\<rparr>"
  have "ws_read_step cb s ?s" using assms(2-5) by (intro rd_bytes) simp_all
  moreover have "ws_loop cb (wl_reader s) (buf @ chunk) 0 = (r', b', v)" using assms(1) by simp
  from ws_loop_run [OF this assms(7), of ?s] assms(6) obtain new where n: "rd_pongs r' = rd_pongs (wl_reader s) @ new"
    and r: "(ws_read_step cb)\<^sup>*\<^sup>* ?s
      (?s\<lparr>wl_reader := r', wl_pc := after_ws v b', wl_wire := wl_wire s @ pong_frames mk new\<rparr>)" by auto
  have "?s\<lparr>wl_reader := r', wl_pc := after_ws v b', wl_wire := wl_wire s @ pong_frames mk new\<rparr> =
      s\<lparr>wl_queue := [], wl_reader := r', wl_pc := after_ws v b', wl_wire := wl_wire s @ pong_frames mk new\<rparr>"
    by (cases s) simp
  with r have "(ws_read_step cb)\<^sup>*\<^sup>* ?s
      (s\<lparr>wl_queue := [], wl_reader := r', wl_pc := after_ws v b', wl_wire := wl_wire s @ pong_frames mk new\<rparr>)" by simp
  ultimately show ?thesis using n by (blast intro: converse_rtranclp_into_rtranclp)
qed

section \<open>A concrete run\<close>

text \<open>The closing thread has sent its frame, shut the socket down and waits.\<close>

definition demo_conn :: ws_conn where "demo_conn = \<lparr>ws_fd = 3, pendingBytes = []\<rparr>"

definition demo_linked :: "(u8 \<times> bytes) list ws_link" where "demo_linked = ws_linked demo_conn []"

definition demo_joining :: "(u8 \<times> bytes) list ws_link" where
  "demo_joining = demo_linked\<lparr>wl_wire := sendFrame 8 [] [0, 0, 0, 0], wl_shut := True, wl_closer := CloseJoin\<rparr>"

lemma close_then: "ws_close_step s t \<Longrightarrow> (ws_step cb)\<^sup>*\<^sup>* t u \<Longrightarrow> (ws_step cb)\<^sup>*\<^sup>* s u"
  by (rule converse_rtranclp_into_rtranclp) (simp_all add: ws_step_def)

lemma demo_joining_reachable: "(ws_step cb)\<^sup>*\<^sup>* demo_linked demo_joining"
proof -
  let ?w = "sendFrame 8 [] [0, 0, 0, 0]"
  let ?s1 = "demo_linked\<lparr>wl_closer := CloseFrame\<rparr>" and ?s2 = "demo_linked\<lparr>wl_closer := CloseSend 3 ?w\<rparr>"
  let ?s3 = "demo_linked\<lparr>wl_wire := ?w, wl_closer := CloseSend 3 []\<rparr>"
  let ?s4 = "demo_linked\<lparr>wl_wire := ?w, wl_closer := CloseShut\<rparr>"
  have "ws_close_step demo_linked ?s1" using cl_begin [of demo_linked] by (simp add: demo_linked_def ws_linked_def demo_conn_def)
  moreover have "ws_close_step ?s1 ?s2"
    using cl_encode [of ?s1 "[0, 0, 0, 0]"] by (simp add: demo_linked_def ws_linked_def demo_conn_def)
  moreover have "ws_close_step ?s2 ?s3"
    using cl_send [of ?s2 3 ?w "length ?w"] by (simp add: demo_linked_def ws_linked_def took_def) (simp add: sendFrame_def)
  moreover have "ws_close_step ?s3 ?s4" using cl_sent [of ?s3 3 "[]"] by (simp add: demo_linked_def ws_linked_def)
  moreover have "ws_close_step ?s4 demo_joining"
    using cl_shut [of ?s4] by (simp add: demo_linked_def ws_linked_def demo_conn_def demo_joining_def)
  ultimately show ?thesis by (blast intro: close_then rtranclp.rtrancl_refl)
qed

theorem ws_close_joins_witness: "\<nexists>s'. (ws_step demo_callbacks ^^ 6) demo_joining s'"
proof -
  have r: "(ws_step demo_callbacks)\<^sup>*\<^sup>* (ws_linked demo_conn []) demo_joining"
    using demo_joining_reachable by (simp add: demo_linked_def)
  have c: "0 \<le> ws_fd demo_conn" "wl_closer demo_joining = CloseJoin" by (simp_all add: demo_conn_def demo_joining_def)
  have "ws_rank demo_joining = 5"
    by (simp add: ws_rank_def demo_joining_def demo_linked_def ws_linked_def demo_conn_def)
  with ws_close_joins [OF r c, of 6] show ?thesis by fastforce
qed

theorem ws_link_invariant_witness:
  "wl_open demo_joining \<and> (\<exists>fs. sendFrame 8 [] [0, 0, 0, 0] = frames_wire fs \<and> closes_of fs \<le> 1)"
proof -
  have r: "(ws_step demo_callbacks)\<^sup>*\<^sup>* (ws_linked demo_conn []) demo_joining"
    using demo_joining_reachable by (simp add: demo_linked_def)
  have c: "0 \<le> ws_fd demo_conn" "wl_wire demo_joining = sendFrame 8 [] [0, 0, 0, 0]" "\<not> wl_partial demo_joining"
    "wl_pc demo_joining = RdRecv []"
    by (simp_all add: demo_conn_def demo_joining_def demo_linked_def ws_linked_def)
  from ws_link_invariant [OF r c(1)] c(2-4) show ?thesis by auto
qed

theorem ws_reader_alone_witness:
  "\<exists>s'. (ws_read_step demo_callbacks)\<^sup>*\<^sup>* (demo_linked\<lparr>wl_queue := [0x89, 0]\<rparr>) s' \<and>
     wl_wire s' = sendFrame 10 [] [0, 0, 0, 0] \<and> wl_pc s' = RdRecv []"
proof -
  let ?s = "demo_linked\<lparr>wl_queue := [0x89, 0]\<rparr>" and ?r = "new_reader [] :: (u8 \<times> bytes) list ws_reader"
  have n: "next_ws [0x89, 0] = Frame \<lparr>fr_fin = True, fr_opcode = 9, fr_payload = []\<rparr> 2"
    by (simp add: next_ws_def ws_header_def)
  have "on_frame demo_callbacks ?r \<lparr>fr_fin = True, fr_opcode = 9, fr_payload = []\<rparr> = (?r\<lparr>rd_pongs := [[]]\<rparr>, None)"
    by (simp add: on_frame_def new_reader_def)
  then have "ws_loop demo_callbacks ?r [0x89, 0] 0 = (?r\<lparr>rd_pongs := [[]]\<rparr>, [], None)"
    using n by (subst ws_loop.simps) (simp, simp add: ws_loop.simps next_ws_def)
  then have l: "ws_recv demo_callbacks (wl_reader ?s, [], None) [0x89, 0] = (?r\<lparr>rd_pongs := [[]]\<rparr>, [], None)"
    by (simp add: demo_linked_def ws_linked_def)
  have h: "wl_pc ?s = RdRecv []" "wl_queue ?s = [0x89, 0]" "[0x89, 0 :: u8] \<noteq> []" "length [0x89, 0 :: u8] \<le> 65536"
    "\<not> wl_shut ?s" "length [0, 0, 0, 0 :: u8] = 4" by (simp_all add: demo_linked_def ws_linked_def demo_conn_def)
  from ws_reader_alone [OF l h] show ?thesis
    by (auto simp: demo_linked_def ws_linked_def new_reader_def after_ws_def)
qed

end
