(* ===== verification/IqSource.thy ===== *)
theory IqSource
  imports VirtualReceiver
begin

text \<open>
  \<open>src/iq_source.hpp\<close>: the interface both upstream clients implement, a stream of chunks of interleaved
  normalised samples handed to one callback. The locale \<open>iq_source\<close> is its contract: what a client
  delivers for a driver buffer or a network message is the normalisation of its 16-bit samples, so
  the two clients are interchangeable in front of the receivers.
\<close>

section \<open>Normalisation\<close>

text \<open>\<open>static_cast<float>(raw) / 32768.0f\<close> of a 16-bit sample.\<close>

definition normalise16 :: "int \<Rightarrow> fp" where
  "normalise16 raw = fdiv binary32 (f32_of_int raw) (Fin 32768)"

lemma normalise16_exact:
  assumes "- (2 ^ 15) \<le> raw" and "raw < 2 ^ 15"
  shows "normalise16 raw = Fin (of_int raw / 32768)"
proof -
  have b: "\<bar>raw\<bar> \<le> 2 ^ 15" using assms by simp
  then have "\<bar>raw\<bar> \<le> 2 ^ 24" by simp
  then have "f32_of_int raw = Fin (of_int raw)" by (rule f32_of_int_exact)
  moreover have "representable binary32 (of_int raw * 2 powi (-15))"
  proof -
    have "\<bar>rat_of_int raw\<bar> \<le> of_int (2 ^ 15)" using b by (simp only: of_int_le_iff flip: of_int_abs)
    then have "\<bar>rat_of_int raw * 2 powi (-15)\<bar> \<le> 1" by (simp add: abs_mult power_int_minus)
    also have "(1 :: rat) < 2 powi 128" by simp
    finally show ?thesis using b by (intro representableI) (simp_all add: binary32_def)
  qed
  then have "fpround binary32 (of_int raw * 2 powi (-15)) = Fin (of_int raw * 2 powi (-15))"
    by (rule b32.fpround_representable)
  then have "fpround binary32 (of_int raw / 32768) = Fin (of_int raw / 32768)"
    by (simp add: power_int_minus field_simps)
  ultimately show ?thesis by (simp add: normalise16_def)
qed

fun interleave16 :: "(int \<times> int) list \<Rightarrow> fp list" where
  "interleave16 [] = []"
| "interleave16 ((i, q) # xs) = normalise16 i # normalise16 q # interleave16 xs"

lemma length_interleave16 [simp]: "length (interleave16 xs) = 2 * length xs"
  by (induction xs rule: interleave16.induct) simp_all

definition raw16 :: "int \<times> int \<Rightarrow> bool" where
  "raw16 s \<longleftrightarrow> - (2 ^ 15) \<le> fst s \<and> fst s < 2 ^ 15 \<and> - (2 ^ 15) \<le> snd s \<and> snd s < 2 ^ 15"

lemma interleave16_range:
  assumes "\<forall>s \<in> set xs. raw16 s" and "x \<in> set (interleave16 xs)"
  shows "\<exists>r. x = Fin r \<and> -1 \<le> r \<and> r < 1"
  using assms
proof (induction xs rule: interleave16.induct)
  case (2 i q xs)
  then show ?case by (auto simp: raw16_def normalise16_exact)
qed simp

section \<open>The contract of a source\<close>

locale iq_source =
  fixes handle_msg :: "'m \<Rightarrow> (fp list \<times> nat) option"  \<comment> \<open>the call of \<open>onIq_\<close>, if any\<close>
    and samples_of :: "'m \<Rightarrow> (int \<times> int) list"
    and valid_msg :: "'m \<Rightarrow> bool"
  assumes delivers: "valid_msg m \<Longrightarrow> samples_of m \<noteq> [] \<Longrightarrow>
      handle_msg m = Some (interleave16 (samples_of m), length (samples_of m))"
    and delivers_nothing: "valid_msg m \<Longrightarrow> samples_of m = [] \<Longrightarrow> handle_msg m = None \<or> handle_msg m = Some ([], 0)"
    and raw_range: "valid_msg m \<Longrightarrow> \<forall>s \<in> set (samples_of m). raw16 s"
begin

text \<open>Every chunk is what the receivers need: an even number of finite samples in \<open>[-1, 1)\<close>.\<close>

lemma chunk_shape:
  assumes "valid_msg m" and "handle_msg m = Some (iq, n)"
  shows "length iq = 2 * n \<and> n = length (samples_of m) \<and> (\<forall>x \<in> set iq. \<exists>r. x = Fin r \<and> -1 \<le> r \<and> r < 1)"
proof (cases "samples_of m = []")
  case True
  then show ?thesis using delivers_nothing [OF assms(1)] assms(2) by auto
next
  case False
  from delivers [OF assms(1) False] assms(2) have
    iq: "iq = interleave16 (samples_of m)" "n = length (samples_of m)" by auto
  with interleave16_range [OF raw_range [OF assms(1)]] show ?thesis by simp
qed

lemma same_samples:
  assumes "valid_msg m" and "valid_msg m'" and "samples_of m = samples_of m'" and "samples_of m \<noteq> []"
  shows "handle_msg m = handle_msg m'"
  using assms delivers by metis

lemma receiver_accepts:
  assumes "valid_msg m" and "handle_msg m = Some (iq, n)" and "vrx_inv v"
  shows "\<exists>outs v'. processWidebandChunk L v iq n = Some (outs, v') \<and> vrx_inv v' \<and>
    (\<forall>(cb, bs) \<in> set outs. length bs = 2 * (n div nat (decimationFactor v)))"
proof -
  have "length iq = 2 * n" using chunk_shape [OF assms(1,2)] by simp
  from processWidebandChunk_total [OF assms(3) this, of L] show ?thesis by (auto split: if_splits)
qed

end

end
