(* ===== verification/SdrConnectClient.thy ===== *)
theory SdrConnectClient
  imports WsFrames IqSource ClientRegistry
begin

text \<open>
  \<open>src/sdrconnect/client.cpp\<close>: the client of a running SDRconnect instance. The JSON texts it sends and
  their order, the handling of incoming text and binary messages, and closing. yaml-cpp, which parses
  the incoming JSON, is the parameter of \<open>Config\<close>.
\<close>

section \<open>Outgoing control messages\<close>

definition json_field :: "string \<Rightarrow> string \<Rightarrow> string" where
  "json_field name val = quoted name @ '':'' @ quoted val"

definition set_property_json :: "string \<Rightarrow> string \<Rightarrow> string \<Rightarrow> string" where
  "set_property_json prop val device =
     ''{'' @ json_field ''event_type'' ''set_property'' @ '','' @ json_field ''property'' prop @ '','' @
     json_field ''value'' val @ '','' @ json_field ''device'' device @ ''}''"

definition control_json :: "string \<Rightarrow> string \<Rightarrow> string" where
  "control_json eventType val =
     ''{'' @ json_field ''event_type'' eventType @ '','' @ json_field ''property'' [] @ '','' @
     json_field ''value'' val @ ''}''"

record sdrconnect_client =
  sc_centerFrequencyHz :: fp
  sc_sampleRateHz :: fp
  sc_deviceCfg :: sdrplay_config
  sc_connCfg :: sdrconnect_config

text \<open>The device is selected by its serial number, when one is configured.\<close>

definition serial_texts :: "sdrconnect_client \<Rightarrow> string list" where
  "serial_texts c =
     (case sc_serialNumber (sc_connCfg c) of
        None \<Rightarrow> []
      | Some serial \<Rightarrow> [control_json ''selected_device_serial'' (serial @ '':'' @ networkMode (sc_connCfg c))])"

text \<open>
  The texts \<open>connect\<close> sends after the handshake, in order; \<open>None\<close> when the conversion of the centre
  frequency to \<open>uint64_t\<close> is undefined.
\<close>

definition connect_texts :: "sdrconnect_client \<Rightarrow> string list option" where
  "connect_texts c =
     (case cast_u64 (sc_centerFrequencyHz c) of
        None \<Rightarrow> None
      | Some f \<Rightarrow> Some (
          serial_texts c @
          [set_property_json ''device_center_frequency'' (show_int (uint f)) ''primary'',
           set_property_json ''device_sample_rate'' (to_string_f64 (sc_sampleRateHz c)) ''primary'',
           set_property_json ''lna_state'' (show_int (lnaState (sc_deviceCfg c))) ''primary''] @
          (case sc_antenna (sc_connCfg c) of
             None \<Rightarrow> []
           | Some antenna_name \<Rightarrow> [set_property_json ''active_antenna'' antenna_name ''primary'']) @
          [control_json ''device_stream_enable'' ''true'', control_json ''iq_stream_enable'' ''true'']))"

text \<open>
  \<open>sendText\<close> for each of them: every frame is sent with its own mask and its own \<open>send\<close> results; the first
  failure ends the sequence.
\<close>

fun send_texts :: "string \<Rightarrow> (bytes \<times> int list) list \<Rightarrow> string list \<Rightarrow> bytes \<times> unit outcome option" where
  "send_texts err os [] = ([], Some (Inr ()))"
| "send_texts err [] (t # ts) = ([], None)"
| "send_texts err ((mk, results) # os) (t # ts) =
     (case sendAll err results (sendFrame 1 (text_bytes t) mk) of
        (w, Some (Inr _)) \<Rightarrow> (case send_texts err os ts of (w', r) \<Rightarrow> (w @ w', r))
      | (w, r) \<Rightarrow> (w, r))"

text \<open>
  \<open>connect\<close>: the handshake, then the texts. A centre frequency that does not convert is met after the serial
  number was sent. The read thread starts only when all were sent.
\<close>

definition sdr_connect :: "connect_os \<Rightarrow> (bytes \<times> int list) list \<Rightarrow> sdrconnect_client \<Rightarrow> ws_conn \<Rightarrow>
    unit outcome option \<times> bytes \<times> ws_conn" where
  "sdr_connect os sends c ws =
     (case ws_connect os (host (sc_connCfg c)) (port (sc_connCfg c)) ws of
        (Some (Inr _), _, request, ws') \<Rightarrow>
          (case connect_texts c of
             None \<Rightarrow>
               (case send_texts (c_strerror os) sends (serial_texts c) of
                  (w, Some (Inr _)) \<Rightarrow> (Some (Inl UB), request @ w, ws')
                | (w, r) \<Rightarrow> (r, request @ w, ws'))
           | Some texts \<Rightarrow>
               (case send_texts (c_strerror os) sends texts of (w, r) \<Rightarrow> (r, request @ w, ws')))
      | (r, _, request, ws') \<Rightarrow> (r, request, ws'))"

text \<open>\<open>WebSocketClient::close\<close>: a closing frame whose errors are ignored, then \<open>shutdown\<close>.\<close>

definition ws_close :: "bytes \<Rightarrow> int list \<Rightarrow> ws_conn \<Rightarrow> bytes \<times> sock_op list" where
  "ws_close mk results ws =
     (if ws_fd ws < 0 then ([], [])
      else (fst (sendAll [] results (sendFrame 8 [] mk)), [Shutdown (ws_fd ws)]))"

section \<open>Incoming messages\<close>

datatype sdr_log = OverloadEvent bool

text \<open>
  \<open>handleTextMessage\<close>: only \<open>YAML::Load\<close> is inside the \<open>try\<close>; everything after it that throws leaves the
  handler.
\<close>

definition handleTextMessage :: "'n yaml \<Rightarrow> string \<Rightarrow> sdr_log list \<times> fault option" where
  "handleTextMessage Y json =
     (case y_load Y json of
        Inl (Throw (YamlException _)) \<Rightarrow> ([], None)
      | Inl e \<Rightarrow> ([], Some e)
      | Inr node \<Rightarrow>
          if \<not> y_is_map Y node then ([], None)
          else (case y_get Y node ''event_type'' of
            Inl e \<Rightarrow> ([], Some e)
          | Inr None \<Rightarrow> ([], None)
          | Inr (Some etNode) \<Rightarrow> (case y_get Y node ''property'' of
              Inl e \<Rightarrow> ([], Some e)
            | Inr None \<Rightarrow> ([], None)
            | Inr (Some prNode) \<Rightarrow> (case y_string Y etNode of
                Inl e \<Rightarrow> ([], Some e)
              | Inr eventType \<Rightarrow> (case y_string Y prNode of
                  Inl e \<Rightarrow> ([], Some e)
                | Inr prop \<Rightarrow>
                    if eventType = ''property_changed'' \<and> prop = ''overload'' then
                      (case bindr (y_get Y node ''value'') (\<lambda>v. case v of
                                None \<Rightarrow> Inr [] | Some vn \<Rightarrow> y_string Y vn) of
                         Inl e \<Rightarrow> ([], Some e)
                       | Inr val \<Rightarrow> ([OverloadEvent (val = ''true'')], None))
                    else ([], None))))))"

definition readLe16 :: "u8 \<Rightarrow> u8 \<Rightarrow> int" where
  "readLe16 lo hi = sint (ucast lo OR push_bit 8 (ucast hi) :: u16)"

fun iq_pairs :: "bytes \<Rightarrow> (int \<times> int) list" where
  "iq_pairs (a # b # c # d # rest) = (readLe16 a b, readLe16 c d) # iq_pairs rest"
| "iq_pairs _ = []"

text \<open>\<open>handleBinaryMessage\<close>: the call of \<open>onIq_\<close> it makes, if any.\<close>

definition handleBinaryMessage :: "bytes \<Rightarrow> (fp list \<times> nat) option" where
  "handleBinaryMessage data =
     (if length data < 2 then None
      else if (ucast (data ! 0) OR push_bit 8 (ucast (data ! 1)) :: u16) \<noteq> 2 then None
      else let iqBytes = drop 2 data;
               numSamples = length iqBytes div 4
           in if numSamples = 0 then None
              else Some (interleave16 (iq_pairs iqBytes), numSamples))"

section \<open>Properties\<close>

lemma length_iq_pairs: "length (iq_pairs bs) = length bs div 4"
  by (induction bs rule: iq_pairs.induct) auto

lemma iq_pairs_Nil: "iq_pairs bs = [] \<longleftrightarrow> length bs div 4 = 0"
  by (simp only: length_0_conv [symmetric] length_iq_pairs)

lemma readLe16_range: "- (2 ^ 15) \<le> readLe16 lo hi \<and> readLe16 lo hi < 2 ^ 15"
  using sint_range_size [of "ucast lo OR push_bit 8 (ucast hi) :: u16"]
  by (simp add: readLe16_def word_size)

lemma iq_pairs_raw: "s \<in> set (iq_pairs bs) \<Longrightarrow> raw16 s"
  using readLe16_range by (induction bs rule: iq_pairs.induct) (auto simp: raw16_def)

definition sc_samples :: "bytes \<Rightarrow> (int \<times> int) list" where
  "sc_samples data =
     (if length data < 2 \<or> (ucast (data ! 0) OR push_bit 8 (ucast (data ! 1)) :: u16) \<noteq> 2 then []
      else iq_pairs (drop 2 data))"

interpretation sdrc: iq_source handleBinaryMessage sc_samples "\<lambda>_. True"
proof unfold_locales
  fix data
  show "sc_samples data \<noteq> [] \<Longrightarrow>
      handleBinaryMessage data = Some (interleave16 (sc_samples data), length (sc_samples data))"
    by (simp add: handleBinaryMessage_def sc_samples_def Let_def iq_pairs_Nil length_iq_pairs split: if_splits)
  show "sc_samples data = [] \<Longrightarrow> handleBinaryMessage data = None \<or> handleBinaryMessage data = Some ([], 0)"
    by (auto simp: handleBinaryMessage_def sc_samples_def Let_def iq_pairs_Nil split: if_splits)
  show "\<forall>s \<in> set (sc_samples data). raw16 s"
    using iq_pairs_raw by (auto simp: sc_samples_def)
qed

text \<open>The little-endian encoding of a block of samples, as the peer sends it.\<close>

definition le16 :: "int \<Rightarrow> bytes" where
  "le16 i = (let w = word_of_int i :: u16 in [ucast w, ucast (drop_bit 8 w)])"

definition encode_iq :: "(int \<times> int) list \<Rightarrow> bytes" where
  "encode_iq xs = le16 2 @ concat (map (\<lambda>(i, q). le16 i @ le16 q) xs)"

lemma u16_bytes: "ucast (ucast w :: u8) OR push_bit 8 (ucast (ucast (drop_bit 8 w) :: u8)) = (w :: u16)"
proof (rule bit_word_eqI)
  fix n assume "n < LENGTH(16)"
  then consider "n < 8" | "8 \<le> n" "n < 16" by force
  then show "bit (ucast (ucast w :: u8) OR push_bit 8 (ucast (ucast (drop_bit 8 w) :: u8)) :: u16) n = bit w n"
    by cases (auto simp: bit_simps)
qed

lemma readLe16_le16:
  assumes "- (2 ^ 15) \<le> i" and "i < 2 ^ 15"
  shows "readLe16 (ucast (word_of_int i :: u16)) (ucast (drop_bit 8 (word_of_int i :: u16))) = i"
  using assms by (simp add: readLe16_def u16_bytes signed_take_bit_int_eq_self sint_sbintrunc')

lemma iq_pairs_encoded: "\<forall>s \<in> set xs. raw16 s \<Longrightarrow>
    iq_pairs (concat (map (\<lambda>(i, q). le16 i @ le16 q) xs) @ tail) = xs @ iq_pairs tail"
  by (induction xs) (auto simp: le16_def Let_def readLe16_le16 raw16_def)

lemma encode_iq_message:
  assumes "\<forall>s \<in> set xs. raw16 s" and "length tail < 4"
  shows "sc_samples (encode_iq xs @ tail) = xs"
proof -
  have "iq_pairs tail = []" using assms(2) by (simp add: iq_pairs_Nil)
  then show ?thesis using iq_pairs_encoded [OF assms(1), of tail]
    by (simp add: sc_samples_def encode_iq_def le16_def Let_def u16_bytes)
qed

lemma handleBinaryMessage_encoded:
  assumes "\<forall>s \<in> set xs. raw16 s" and "length tail < 4" and "xs \<noteq> []"
  shows "handleBinaryMessage (encode_iq xs @ tail) = Some (interleave16 xs, length xs)"
  using sdrc.delivers [of "encode_iq xs @ tail"] encode_iq_message [OF assms(1,2)] assms(3) by simp

lemma interleave16_values: "\<forall>s \<in> set xs. raw16 s \<Longrightarrow>
    interleave16 xs = concat (map (\<lambda>(i, q). [Fin (of_int i / 32768), Fin (of_int q / 32768)]) xs)"
  by (induction xs) (auto simp: raw16_def normalise16_exact)

text \<open>
  Property C36: a block of 16-bit samples sent little-endian in a binary message of type 2 reaches the IQ
  callback as one chunk with exactly the values \<open>raw / 32768\<close>, in order and without rounding, whatever
  incomplete sample follows; an empty block and a message of any other type reach nobody.
\<close>

theorem handleBinaryMessage_roundtrip:
  assumes "\<forall>s \<in> set xs. raw16 s" and "length tail < 4" and "w \<noteq> 2"
  shows "handleBinaryMessage (encode_iq xs @ tail) = (if xs = [] then None else
      Some (concat (map (\<lambda>(i, q). [Fin (of_int i / 32768), Fin (of_int q / 32768)]) xs), length xs)) \<and>
    handleBinaryMessage ([ucast (w :: u16), ucast (drop_bit 8 w)] @ rest) = None"
proof (cases "xs = []")
  case True
  with assms(2,3) show ?thesis
    by (simp add: handleBinaryMessage_def encode_iq_def le16_def Let_def u16_bytes)
next
  case False
  with assms show ?thesis
    using handleBinaryMessage_encoded [OF assms(1,2) False] interleave16_values [OF assms(1)]
    by (simp add: handleBinaryMessage_def u16_bytes)
qed

theorem handleBinaryMessage_roundtrip_witness:
  "handleBinaryMessage (encode_iq [(-32768, 16384)] @ [7]) = Some ([Fin (-1), Fin (1 / 2)], 1) \<and>
   handleBinaryMessage [3, 0, 1, 2, 3, 4] = None"
  using handleBinaryMessage_roundtrip [of "[(-32768, 16384)]" "[7]" 3 "[1, 2, 3, 4]"]
  by (simp add: raw16_def)


section \<open>What the peer receives\<close>

definition text_frame :: "string \<Rightarrow> ws_frame" where
  "text_frame t = \<lparr>fr_fin = True, fr_opcode = 1, fr_payload = text_bytes t\<rparr>"

text \<open>A peer that collects the frames it parses.\<close>

definition collect :: "ws_frame list \<Rightarrow> ws_frame \<Rightarrow> ws_frame list \<times> fault option" where
  "collect fs f = (fs @ [f], None)"

lemma text_frame_sent:
  assumes "length mk = 4" and "length t \<le> max_vector"
  shows "next_ws (sendFrame 1 (text_bytes t) mk) = Frame (text_frame t) (length (sendFrame 1 (text_bytes t) mk))"
proof -
  have "valid_ws (Some mk) (text_frame t)" using assms by (simp add: text_frame_def text_bytes_def)
  from next_ws_encoded [OF this] show ?thesis by (simp add: sendFrame_encode text_frame_def)
qed

lemma send_texts_frames:
  assumes "send_texts err sends ts = (w, Some (Inr ()))"
    and "\<forall>(mk, _) \<in> set sends. length mk = 4" and "\<forall>t \<in> set ts. length t \<le> max_vector"
  shows "drain next_ws collect fs w = (fs @ map text_frame ts, [], None)"
  using assms
proof (induction err sends ts arbitrary: w fs rule: send_texts.induct)
  case (1 err os)
  then show ?case by (simp add: ws.drain_NeedMore ws.empty_more)
next
  case (3 err mk results os t ts)
  let ?f = "sendFrame 1 (text_bytes t) mk"
  obtain w1 r1 where s: "sendAll err results ?f = (w1, r1)" by fastforce
  with 3(2) have r1: "r1 = Some (Inr ())" by (auto split: option.splits sum.splits prod.splits)
  with sendAll_prefix [OF s] have w1: "w1 = ?f" by simp
  obtain w2 where w2: "send_texts err os ts = (w2, Some (Inr ()))" "w = ?f @ w2"
    using 3(2) s r1 w1 by (auto split: prod.splits)
  have "next_ws (?f @ w2) = Frame (text_frame t) (length ?f)"
    using text_frame_sent [of mk t] 3(3,4) by (auto intro!: ws.frame_stable)
  from ws.drain_Frame [OF this, of collect fs] w2(2)
  have "drain next_ws collect fs w = drain next_ws collect (fs @ [text_frame t]) w2"
    by (simp add: collect_def)
  moreover have "drain next_ws collect (fs @ [text_frame t]) w2 =
      ((fs @ [text_frame t]) @ map text_frame ts, [], None)"
    using 3(1) [OF s [symmetric], of "Inr ()" "()" w2 "fs @ [text_frame t]"] w2(1) r1 3(3,4) by auto
  ultimately show ?case by simp
qed simp

lemma ws_connect_sent:
  assumes "ws_connect os hst portno ws = (Some (Inr u), cls, request, ws')"
  shows "request = text_bytes (upgrade_request hst portno (base64Encode (c_key os)))"
proof -
  obtain fd lastError cl where d: "dial_loop (c_dials os) [] = (fd, lastError, cl)" by (cases "dial_loop (c_dials os) []")
  obtain w r where s: "sendAll (c_strerror os) (c_sends os)
      (text_bytes (upgrade_request hst portno (generateWebSocketKey (c_key os)))) = (w, r)" by fastforce
  from assms d s have "r = Some (Inr ()) \<and> request = w"
    by (auto simp: ws_connect_def Let_def split: option.splits sum.splits if_splits)
  with sendAll_prefix [OF s] show ?thesis by (simp add: generateWebSocketKey_def)
qed

text \<open>
  Property C24: when the client's \<open>connect\<close> returns, what it put on the connection is the upgrade request
  followed by masked frames which the peer, however it receives them, parses as exactly the control
  texts, each one whole text message, in the order of the code: the device selection first, the two
  stream enables last.
\<close>

theorem sdr_connect_messages:
  assumes "sdr_connect os sends c ws = (Some (Inr ()), w, ws')"
    and "\<forall>(mk, _) \<in> set sends. length mk = 4"
    and "\<forall>t \<in> set (the (connect_texts c)). length t \<le> max_vector"
  shows "\<exists>texts frames. connect_texts c = Some texts \<and>
    w = text_bytes (upgrade_request (host (sc_connCfg c)) (port (sc_connCfg c)) (base64Encode (c_key os))) @ frames \<and>
    (\<forall>chunks. concat chunks = frames \<longrightarrow>
      foldl (feed next_ws collect) ([], [], None) chunks = (map text_frame texts, [], None)) \<and>
    drop (length texts - 2) texts =
      [control_json ''device_stream_enable'' ''true'', control_json ''iq_stream_enable'' ''true'']"
proof -
  obtain u cls request ws1 texts frames where
    c: "ws_connect os (host (sc_connCfg c)) (port (sc_connCfg c)) ws = (Some (Inr u), cls, request, ws1)"
    "connect_texts c = Some texts" "send_texts (c_strerror os) sends texts = (frames, Some (Inr ()))"
    "w = request @ frames"
    using assms(1) by (auto simp: sdr_connect_def split: prod.splits option.splits sum.splits)
  have d: "drain next_ws collect [] frames = (map text_frame texts, [], None)"
    using send_texts_frames [OF c(3) assms(2), of "[]"] assms(3) c(2) by simp
  have "foldl (feed next_ws collect) ([], [], None) chunks = (map text_frame texts, [], None)"
    if "concat chunks = frames" for chunks
    using ws.chunk_independence [of collect "[]" chunks] d that by (simp add: view_eq_None)
  moreover have "drop (length texts - 2) texts =
      [control_json ''device_stream_enable'' ''true'', control_json ''iq_stream_enable'' ''true'']"
    using c(2) by (auto simp: connect_texts_def split: option.splits)
  ultimately show ?thesis using c ws_connect_sent [OF c(1)] by blast
qed

text \<open>A client whose every \<open>send\<close> takes the whole frame.\<close>

definition demo_sdr :: sdrconnect_client where
  "demo_sdr = \<lparr>sc_centerFrequencyHz = Fin 100, sc_sampleRateHz = Fin 8, sc_deviceCfg = default_sdrplay_config,
     sc_connCfg = default_sdrconnect_config\<lparr>host := ''h'', port := 80\<rparr>\<rparr>"

lemma send_texts_whole:
  "\<forall>t \<in> set ts. length (sendFrame 1 (text_bytes t) mk) \<le> 1000 \<Longrightarrow>
    \<exists>w. send_texts err (replicate (length ts) (mk, [1000])) ts = (w, Some (Inr ()))"
proof (induction ts)
  case (Cons t ts)
  have "\<And>d. length d \<le> 1000 \<Longrightarrow> sendAll err [1000] d = (d, Some (Inr ()))"
    by (case_tac d) auto
  with Cons show ?case by auto
qed simp

lemma sendFrame_length: "length mk = 4 \<Longrightarrow> length p < 126 \<Longrightarrow> length (sendFrame op p mk) = length p + 6"
  by (simp add: sendFrame_def length_field_def xor_mask_def)

lemma demo_sdr_texts: "\<exists>texts. connect_texts demo_sdr = Some texts \<and> length texts = 5 \<and>
    (\<forall>t \<in> set texts. length t < 126)"
proof -
  have u: "cast_u64 (Fin 100) = Some 100" by (simp add: cast_u64_def rtrunc_def)
  have n: "show_int 100 = ''100''" "show_int 0 = ''0''"
    by (simp_all add: show_int_def nat_digits.simps char_of_eq_iff)
  have z: "replicate 5 (CHR ''0'') = ''00000''" by (simp add: numeral_eq_Suc)
  have r: "to_string_f64 (Fin 8) = ''8.000000''"
    using rne_of_int [of 8000000]
    by (simp add: Let_def pad0_def nat_digits.simps char_of_eq_iff z)
  have d: "sc_centerFrequencyHz demo_sdr = Fin 100" "sc_sampleRateHz demo_sdr = Fin 8"
    "lnaState (sc_deviceCfg demo_sdr) = 0" "sc_serialNumber (sc_connCfg demo_sdr) = None"
    "sc_antenna (sc_connCfg demo_sdr) = None"
    by (simp_all add: demo_sdr_def default_sdrplay_config_def default_sdrconnect_config_def)
  show ?thesis
    by (simp add: connect_texts_def serial_texts_def u n r d set_property_json_def control_json_def json_field_def quoted_def
        del: to_string_f64.simps)
qed

theorem sdr_connect_messages_witness:
  "\<exists>w ws' texts frames. sdr_connect demo_os (replicate 5 ([1, 2, 3, 4], [1000])) demo_sdr
      \<lparr>ws_fd = -1, pendingBytes = []\<rparr> = (Some (Inr ()), w, ws') \<and>
    foldl (feed next_ws collect) ([], [], None) [frames] = (map text_frame texts, [], None) \<and> length texts = 5"
proof -
  obtain texts where t: "connect_texts demo_sdr = Some texts" "length texts = 5" "\<forall>t \<in> set texts. length t < 126"
    using demo_sdr_texts by blast
  let ?sends = "replicate 5 ([1, 2, 3, 4 :: u8], [1000 :: int])"
  have "\<forall>t \<in> set texts. length (sendFrame 1 (text_bytes t) [1, 2, 3, 4]) \<le> 1000"
    using t(3) by (auto simp: sendFrame_length text_bytes_def)
  from send_texts_whole [OF this, of "[]"] obtain w where
    "send_texts [] ?sends texts = (w, Some (Inr ()))" unfolding t(2) by blast
  moreover have "c_strerror demo_os = []" "host (sc_connCfg demo_sdr) = ''h''" "port (sc_connCfg demo_sdr) = 80"
    by (simp_all add: demo_os_def demo_sdr_def)
  ultimately have c: "sdr_connect demo_os ?sends demo_sdr \<lparr>ws_fd = -1, pendingBytes = []\<rparr> = (Some (Inr ()),
      text_bytes (upgrade_request ''h'' 80 ''dGhlIHNhbXBsZSBub25jZQ=='') @ w, \<lparr>ws_fd = 5, pendingBytes = text_bytes ''xy''\<rparr>)"
    by (simp add: sdr_connect_def demo_connect t(1))
  have "\<forall>(mk, _) \<in> set ?sends. length mk = 4" by auto
  moreover have "\<forall>t \<in> set (the (connect_texts demo_sdr)). length t \<le> max_vector"
    using t(1,3) by (auto simp: max_vector_def)
  ultimately obtain texts' frames where "connect_texts demo_sdr = Some texts'"
    "\<forall>chunks. concat chunks = frames \<longrightarrow>
      foldl (feed next_ws collect) ([], [], None) chunks = (map text_frame texts', [], None)"
    using sdr_connect_messages [OF c] by blast
  moreover have "concat [frames] = frames" by simp
  ultimately show ?thesis using c t(1,2) by (metis option.inject)
qed

section \<open>The read thread\<close>

definition bytes_text :: "bytes \<Rightarrow> string" where
  "bytes_text bs = map (\<lambda>b. char_of (unat b)) bs"

text \<open>
  The two handlers \<open>connect\<close> gives to \<open>runReadLoop\<close>, over the log and the state of the IQ callback, which is
  \<open>None\<close> while none is set.
\<close>

definition sdr_callbacks :: "'n yaml \<Rightarrow> ('a \<Rightarrow> fp list \<Rightarrow> nat \<Rightarrow> 'a \<times> fault option) option \<Rightarrow>
    (sdr_log list \<times> 'a) ws_callbacks" where
  "sdr_callbacks Y onIq = \<lparr>
     onText = Some (\<lambda>(logs, a) text_msg.
       (case handleTextMessage Y (bytes_text text_msg) of (ls, e) \<Rightarrow> ((logs @ ls, a), e))),
     onBinary = Some (\<lambda>(logs, a) data.
       (case (handleBinaryMessage data, onIq) of
          (Some (iq, n), Some f) \<Rightarrow> (case f a iq n of (a', e) \<Rightarrow> ((logs, a'), e))
        | _ \<Rightarrow> ((logs, a), None)))\<rparr>"

text \<open>
  A block of samples as a message: the fragments it is sent in carry its encoding and possibly an
  incomplete sample.
\<close>

definition block_message :: "(int \<times> int) list \<times> bytes list \<Rightarrow> bool" where
  "block_message b \<longleftrightarrow> fst b \<noteq> [] \<and> (\<forall>s \<in> set (fst b). raw16 s) \<and> snd b \<noteq> [] \<and>
     (\<exists>tail. length tail < 4 \<and> concat (snd b) = encode_iq (fst b) @ tail)"

lemma dispatch_block: "block_message b \<Longrightarrow>
    dispatch (sdr_callbacks Y (Some f)) 2 (concat (snd b)) (logs, a) =
      (case f a (interleave16 (fst b)) (length (fst b)) of (a', e) \<Rightarrow> ((logs, a'), e))"
  using handleBinaryMessage_encoded [of "fst b"]
  by (auto simp: dispatch_def sdr_callbacks_def block_message_def)

lemma blocks_delivered:
  assumes "\<forall>b \<in> set blocks. block_message b"
    and "\<And>a b. I a \<Longrightarrow> b \<in> set blocks \<Longrightarrow>
      \<exists>a'. f a (interleave16 (fst b)) (length (fst b)) = (a', None) \<and> I a'"
    and "I a" and "\<forall>g \<in> set fs. valid_ws None g \<and> fr_opcode g \<noteq> 8"
    and "filter is_data fs = concat (map (\<lambda>b. msg_frames 2 (snd b)) blocks)"
    and "concat (chunk # chunks) = concat (map enc_ws fs)" and "pendingBytes c = []"
  shows "\<exists>r. fst (runReadLoop (sdr_callbacks Y (Some f)) ([], a) c (chunk # chunks)) = (r, [], None) \<and>
    I (snd (rd_app r)) \<and>
    rd_app r = ([], foldl (\<lambda>a b. fst (f a (interleave16 (fst b)) (length (fst b)))) a blocks)"
proof -
  let ?cb = "sdr_callbacks Y (Some f)" and ?msgs = "map (\<lambda>b. (2 :: u8, snd b)) blocks"
  let ?I = "\<lambda>s. fst s = [] \<and> I (snd s)"
  have "quiet_message ?cb ?I (2, snd b)" if b: "b \<in> set blocks" for b
  proof -
    have m: "block_message b" using assms(1) b by blast
    then have "snd b \<noteq> []" by (simp add: block_message_def)
    moreover have "snd (dispatch ?cb 2 (concat (snd b)) s) = None \<and> ?I (fst (dispatch ?cb 2 (concat (snd b)) s))"
      if "?I s" for s
      using assms(2) [OF _ b, of "snd s"] that by (cases s) (auto simp: dispatch_block [OF m])
    ultimately show ?thesis by (simp add: quiet_message_def)
  qed
  then have q: "\<forall>m \<in> set ?msgs. quiet_message ?cb ?I m" by auto
  have m: "filter is_data fs = concat (map (\<lambda>(opcode, ps). msg_frames opcode ps) ?msgs)"
    by (simp add: assms(5) comp_def)
  have i: "?I ([], a)" using assms(3) by simp
  from messages_delivered [OF q i assms(4) m assms(6,7)] obtain r where
    r: "fst (runReadLoop ?cb ([], a) c (chunk # chunks)) = (r, [], None)" "?I (rd_app r)"
      "rd_app r = foldl (\<lambda>s (opcode, ps). fst (dispatch ?cb opcode (concat ps) s)) ([], a) ?msgs" by blast
  have "foldl (\<lambda>s (opcode, ps). fst (dispatch ?cb opcode (concat ps) s)) (l, a) (map (\<lambda>b. (2, snd b)) bs) =
      (l, foldl (\<lambda>a b. fst (f a (interleave16 (fst b)) (length (fst b)))) a bs)"
    if "\<forall>b \<in> set bs. block_message b" for bs l a
    using that by (induction bs arbitrary: a) (auto simp: dispatch_block split: prod.split)
  with r assms(1) show ?thesis by auto
qed

end
