(* ===== verification/SdrPlayClient.thy ===== *)
theory SdrPlayClient
  imports SdrConnectClient
begin

text \<open>
  \<open>src/sdrplay/client.cpp\<close> and \<open>src/sdrplay_const.hpp\<close>: the client of the local SDRplay API. The vendor's
  library is a parameter: the record \<open>sdrplay_api\<close> holds what each of its calls returns. A client's
  state is threaded together with the list of the calls made so far and their results.
\<close>

section \<open>Constants\<close>

definition kDeviceRsp1 :: u8 where "kDeviceRsp1 = 1"
definition kDeviceRsp1A :: u8 where "kDeviceRsp1A = 255"
definition kDeviceRsp2 :: u8 where "kDeviceRsp2 = 2"
definition kDeviceRspDuo :: u8 where "kDeviceRspDuo = 3"
definition kDeviceRspDx :: u8 where "kDeviceRspDx = 4"
definition kDeviceRsp1B :: u8 where "kDeviceRsp1B = 6"
definition kDeviceRspDxR2 :: u8 where "kDeviceRspDxR2 = 7"

definition kErrSuccess :: int where "kErrSuccess = 0"

definition kUpdateNone :: u32 where "kUpdateNone = 0"
definition kUpdateRsp1aBiasTControl :: u32 where "kUpdateRsp1aBiasTControl = 0x10"
definition kUpdateRsp2BiasTControl :: u32 where "kUpdateRsp2BiasTControl = 0x80"
definition kUpdateTunerGr :: u32 where "kUpdateTunerGr = 0x8000"
definition kUpdateTunerFrf :: u32 where "kUpdateTunerFrf = 0x20000"
definition kUpdateCtrlAgc :: u32 where "kUpdateCtrlAgc = 0x1000000"
definition kUpdateRspDuoBiasTControl :: u32 where "kUpdateRspDuoBiasTControl = 0x8000000"
definition kUpdateExt1None :: u32 where "kUpdateExt1None = 0"
definition kUpdateExt1RspDxBiasTControl :: u32 where "kUpdateExt1RspDxBiasTControl = 2"

definition kBw0_200 :: int where "kBw0_200 = 200"
definition kBw0_300 :: int where "kBw0_300 = 300"
definition kBw0_600 :: int where "kBw0_600 = 600"
definition kBw5_000 :: int where "kBw5_000 = 5000"
definition kBw6_000 :: int where "kBw6_000 = 6000"
definition kBw7_000 :: int where "kBw7_000 = 7000"
definition kBw8_000 :: int where "kBw8_000 = 8000"

definition kIfZero :: int where "kIfZero = 0"
definition kLoAuto :: int where "kLoAuto = 1"
definition kMinGrNormal :: int where "kMinGrNormal = 20"
definition kTunerA :: int where "kTunerA = 1"
definition kRspDuoModeSingleTuner :: int where "kRspDuoModeSingleTuner = 1"
definition kAgcDisable :: int where "kAgcDisable = 0"
definition kAgcCtrlEn :: int where "kAgcCtrlEn = 4"
definition kEventPowerOverloadChange :: int where "kEventPowerOverloadChange = 1"
definition kEventDeviceRemoved :: int where "kEventDeviceRemoved = 2"
definition kEventDeviceFailure :: int where "kEventDeviceFailure = 4"
definition kPowerOverloadDetected :: int where "kPowerOverloadDetected = 0"

named_theorems rsp_consts \<open>the numeric constants of the vendor's API\<close>

declare kDeviceRsp1_def [rsp_consts] kDeviceRsp1A_def [rsp_consts] kDeviceRsp2_def [rsp_consts]
  kDeviceRspDuo_def [rsp_consts] kDeviceRspDx_def [rsp_consts] kDeviceRsp1B_def [rsp_consts]
  kDeviceRspDxR2_def [rsp_consts] kErrSuccess_def [rsp_consts] kUpdateNone_def [rsp_consts]
  kUpdateRsp1aBiasTControl_def [rsp_consts] kUpdateRsp2BiasTControl_def [rsp_consts]
  kUpdateTunerGr_def [rsp_consts] kUpdateTunerFrf_def [rsp_consts] kUpdateCtrlAgc_def [rsp_consts]
  kUpdateRspDuoBiasTControl_def [rsp_consts] kUpdateExt1None_def [rsp_consts]
  kUpdateExt1RspDxBiasTControl_def [rsp_consts] kBw0_200_def [rsp_consts] kBw0_300_def [rsp_consts]
  kBw0_600_def [rsp_consts] kBw5_000_def [rsp_consts] kBw6_000_def [rsp_consts] kBw7_000_def [rsp_consts]
  kBw8_000_def [rsp_consts] kIfZero_def [rsp_consts] kLoAuto_def [rsp_consts] kMinGrNormal_def [rsp_consts]
  kTunerA_def [rsp_consts] kRspDuoModeSingleTuner_def [rsp_consts] kAgcDisable_def [rsp_consts]
  kAgcCtrlEn_def [rsp_consts] kEventPowerOverloadChange_def [rsp_consts]
  kEventDeviceRemoved_def [rsp_consts] kEventDeviceFailure_def [rsp_consts]
  kPowerOverloadDetected_def [rsp_consts]

section \<open>Bandwidth and decimation from the sample rate\<close>

definition bwTypeForSampleRate :: "fp \<Rightarrow> int" where
  "bwTypeForSampleRate sr =
     (if sr < Fin 300000 then kBw0_200
      else if sr < Fin 600000 then kBw0_300
      else if sr < Fin 1536000 then kBw0_600
      else if sr < Fin 5000000 then kBw5_000
      else if sr < Fin 6000000 then kBw6_000
      else if sr < Fin 7000000 then kBw7_000
      else if sr < Fin 8000000 then kBw8_000
      else kBw8_000)"

text \<open>
  The doubling loop. \<open>decimationFactor *= 2\<close> beyond the range of \<open>int\<close> is undefined.
\<close>

partial_function (option) decimation_loop :: "fp \<Rightarrow> int \<Rightarrow> (fp \<times> int) outcome option" where
  "decimation_loop adcSampleRateHz factor =
     (if adcSampleRateHz < Fin 2000000 then
        (if 2 ^ 31 - 1 < factor * 2 then Some (Inl UB)
         else decimation_loop (fmul binary64 adcSampleRateHz (Fin 2)) (factor * 2))
      else Some (Inr (adcSampleRateHz, factor)))"

definition decimationForSampleRate :: "fp \<Rightarrow> (fp \<times> int) outcome option" where
  "decimationForSampleRate sr = decimation_loop sr 1"

text \<open>
  The filter chosen for a rate of at least 200 kHz fits inside the captured band exactly
  below 1.536 MHz and from 8 MHz on: in between the ladder has lost the 1.536 MHz rung and every
  rate gets a filter wider than the band it samples.
\<close>

theorem bandwidth_fits:
  assumes "200000 \<le> s"
  shows "of_int (bwTypeForSampleRate (Fin s)) * 1000 \<le> s \<longleftrightarrow> s < 1536000 \<or> 8000000 \<le> s"
  using assms by (simp add: bwTypeForSampleRate_def rsp_consts)

theorem bandwidth_fits_witness:
  "\<not> of_int (bwTypeForSampleRate (Fin 2048000)) * 1000 \<le> (2048000 :: rat)"
  using bandwidth_fits [of 2048000] by simp

text \<open>Doubling a \<open>double\<close> below 2 MHz is exact.\<close>

lemma representable_double:
  assumes "representable binary64 x" and "\<bar>x\<bar> < 2 ^ 21"
  shows "representable binary64 (x * 2)"
proof -
  obtain m q where m: "x = of_int m * 2 powi q" "\<bar>m\<bar> \<le> 2 ^ 53" "-1074 \<le> q"
    using assms(1) by (auto simp: representable_def binary64_def)
  have "x * 2 = of_int m * 2 powi (q + 1)" by (simp add: m(1) power_int_add)
  moreover have "\<bar>x * 2\<bar> < 2 powi 1024"
  proof -
    have "\<bar>x * 2\<bar> < 2 powi 22" using assms(2) by (simp add: abs_mult)
    also have "(2 :: rat) powi 22 < 2 powi 1024" by (simp only: powi_less_iff)
    finally show ?thesis .
  qed
  ultimately show ?thesis using m(2,3) by (auto intro!: representableI simp: binary64_def)
qed

lemma fmul_double: "representable binary64 x \<Longrightarrow> \<bar>x\<bar> < 2 ^ 21 \<Longrightarrow> fmul binary64 (Fin x) (Fin 2) = Fin (x * 2)"
  using b64.fpround_representable [OF representable_double] by simp

lemma double_step:
  assumes "representable binary64 (s * 2 ^ j)" and "0 < s" and "s * 2 ^ j < 2000000"
  shows "fmul binary64 (Fin (s * 2 ^ j)) (Fin 2) = Fin (s * 2 ^ Suc j)"
    and "representable binary64 (s * 2 ^ Suc j)"
proof -
  have "\<bar>s * 2 ^ j\<bar> < 2 ^ 21" using assms(2,3) by (simp add: abs_mult)
  from fmul_double [OF assms(1) this] representable_double [OF assms(1) this]
  show "fmul binary64 (Fin (s * 2 ^ j)) (Fin 2) = Fin (s * 2 ^ Suc j)"
    and "representable binary64 (s * 2 ^ Suc j)" by (simp_all add: mult_ac)
qed

lemma factor_in_range: "j < 30 \<Longrightarrow> \<not> 2 ^ 31 - 1 < (2 :: int) ^ j * 2"
  using power_increasing [of "Suc j" 30 "2 :: int"] by simp

lemma decimation_loop_returns:
  assumes "representable binary64 (s * 2 ^ j)" and "0 < s" and "j \<le> n" and "n \<le> 30"
    and "\<forall>i. j \<le> i \<and> i < n \<longrightarrow> s * 2 ^ i < 2000000" and "2000000 \<le> s * 2 ^ n"
  shows "decimation_loop (Fin (s * 2 ^ j)) (2 ^ j) = Some (Inr (Fin (s * 2 ^ n), 2 ^ n))"
  using assms
proof (induction "n - j" arbitrary: j)
  case 0
  then have "j = n" by simp
  with 0 show ?case by (subst decimation_loop.simps) simp
next
  case (Suc d)
  have lt: "s * 2 ^ j < 2000000" and jn: "j < n" using Suc.hyps(2) Suc.prems(5) by auto
  note step = double_step [OF Suc.prems(1,2) lt]
  have "decimation_loop (Fin (s * 2 ^ Suc j)) (2 ^ Suc j) = Some (Inr (Fin (s * 2 ^ n), 2 ^ n))"
    using Suc.hyps(1) [of "Suc j", OF _ step(2)] Suc.hyps(2) Suc.prems jn by simp
  then show ?case using lt factor_in_range [of j] jn Suc.prems(4) step(1)
    by (subst decimation_loop.simps) (simp add: mult.commute)
qed

lemma decimation_loop_overflows:
  assumes "\<And>i. j \<le> i \<Longrightarrow> i \<le> 30 \<Longrightarrow> f i < Fin 2000000"
    and "\<And>i. j \<le> i \<Longrightarrow> i < 30 \<Longrightarrow> fmul binary64 (f i) (Fin 2) = f (Suc i)" and "j \<le> 30"
  shows "decimation_loop (f j) (2 ^ j) = Some (Inl UB)"
  using assms
proof (induction "30 - j" arbitrary: j)
  case 0
  then have j: "j = 30" by simp
  show ?case using 0(2) [of 30] unfolding j by (subst decimation_loop.simps) simp
next
  case (Suc d)
  have "decimation_loop (f (Suc j)) (2 ^ Suc j) = Some (Inl UB)"
    using Suc.hyps(2) by (intro Suc.hyps(1)) (auto intro: Suc.prems(1,2))
  then show ?case using Suc.prems(1,2) [of j] Suc.hyps(2) factor_in_range [of j]
    by (subst decimation_loop.simps) (simp add: mult.commute)
qed

lemma fmul_nonpos: "x \<le> Fin 0 \<Longrightarrow> fmul binary64 x (Fin 2) \<le> Fin 0"
proof (cases x)
  case (Fin r)
  moreover assume "x \<le> Fin 0"
  ultimately show ?thesis using b64.fpround_mono [of "r * 2" 0] by simp
qed (simp_all add: inf_of_sign_def)

lemma nonpos_less: "x \<le> Fin 0 \<Longrightarrow> x < Fin 2000000"
  by (cases x) simp_all

lemma decimation_rate:
  assumes "representable binary64 s"
  shows "if 2000000 \<le> s * 2 ^ 30
    then \<exists>n \<le> 30. decimationForSampleRate (Fin s) = Some (Inr (Fin (s * 2 ^ n), 2 ^ n)) \<and>
           2000000 \<le> s * 2 ^ n \<and> (n = 0 \<or> s * 2 ^ n < 4000000)
    else decimationForSampleRate (Fin s) = Some (Inl UB)"
proof (cases "2000000 \<le> s * 2 ^ 30")
  case True
  then have pos: "0 < s" by (simp add: zero_less_mult_iff le_less_trans [of 0 2000000])
  define n where "n = (LEAST n. 2000000 \<le> s * 2 ^ n)"
  have n: "2000000 \<le> s * 2 ^ n" "n \<le> 30" "\<And>i. i < n \<Longrightarrow> s * 2 ^ i < 2000000"
    using LeastI [of "\<lambda>n. 2000000 \<le> s * 2 ^ n" 30] Least_le [of "\<lambda>n. 2000000 \<le> s * 2 ^ n" 30]
      not_less_Least [of _ "\<lambda>n. 2000000 \<le> s * 2 ^ n"] True by (auto simp: n_def not_le)
  have "decimationForSampleRate (Fin s) = Some (Inr (Fin (s * 2 ^ n), 2 ^ n))"
    using decimation_loop_returns [of s 0 n] assms pos n by (simp add: decimationForSampleRate_def)
  moreover have "n = 0 \<or> s * 2 ^ n < 4000000" using n(3) [of "n - 1"] by (cases n) auto
  ultimately show ?thesis using True n(1,2) by auto
next
  case False
  have "decimation_loop (Fin s) (2 ^ 0) = Some (Inl UB)"
  proof (cases "0 < s")
    case True
    have lt: "s * 2 ^ i < 2000000" if "i \<le> 30" for i
    proof -
      have "s * 2 ^ i \<le> s * 2 ^ 30" using power_increasing [of i 30 "2 :: rat"] that True by simp
      with False show ?thesis by simp
    qed
    have rep: "representable binary64 (s * 2 ^ i)" if "i \<le> 30" for i
      using that by (induction i) (use assms double_step(2) [OF _ True] lt in auto)
    show ?thesis
      using decimation_loop_overflows [of 0 "\<lambda>i. Fin (s * 2 ^ i)"] lt double_step(1) [OF rep True] by simp
  next
    case False
    let ?f = "\<lambda>i. ((\<lambda>x. fmul binary64 x (Fin 2)) ^^ i) (Fin s)"
    have np: "?f i \<le> Fin 0" for i using False by (induction i) (simp_all add: fmul_nonpos)
    show ?thesis using decimation_loop_overflows [of 0 ?f] nonpos_less [OF np] by simp
  qed
  with \<open>\<not> 2000000 \<le> s * 2 ^ 30\<close> show ?thesis by (simp add: decimationForSampleRate_def)
qed

text \<open>
  Property C30: the doubling of the ADC rate returns for every representable rate that 30 doublings bring
  to 2 MHz: the ADC rate is then exactly the rate times the factor, the factor a power of two at
  most \<open>2 ^ 30\<close>, and the ADC rate the first one that clears 2 MHz. For every lower rate, zero and
  negative ones included, the factor overflows, which is undefined.
\<close>

theorem decimation_for_rate:
  assumes "representable binary64 s"
  shows "if 2000000 \<le> s * 2 ^ 30
    then \<exists>n \<le> 30. decimationForSampleRate (Fin s) = Some (Inr (Fin (s * 2 ^ n), 2 ^ n)) \<and>
           2000000 \<le> s * 2 ^ n \<and> (n = 0 \<or> s * 2 ^ n < 4000000)
    else decimationForSampleRate (Fin s) = Some (Inl UB)"
  by (rule decimation_rate [OF assms])

theorem decimation_for_rate_witness:
  "(\<exists>n \<le> 30. decimationForSampleRate (Fin 500000) = Some (Inr (Fin (500000 * 2 ^ n), 2 ^ n))) \<and>
   decimationForSampleRate (Fin (- 1)) = Some (Inl UB)"
proof -
  have "representable binary64 (of_int 500000)" "representable binary64 (of_int (- 1))"
    by (rule b64.representable_int; simp add: binary64_def)+
  with decimation_for_rate [of 500000] decimation_for_rate [of "- 1"] show ?thesis by auto
qed

section \<open>The vendor's structures and calls\<close>

text \<open>The fields of the vendor's structures that the sources use.\<close>

record rsp_device =
  SerNo :: string
  hwVer :: u8
  dv_tuner :: int
  rspDuoMode :: int
  dv_handle :: "int option"    \<comment> \<open>\<open>dev\<close>; \<open>None\<close> is the null handle\<close>

record dev_params =
  dp_ppm :: fp
  fsHz :: fp
  rspDx_biasTEnable :: int
  rspDx_antennaSel :: int

record rx_params =
  bwType :: int
  ifType :: int
  loMode :: int
  rfHz :: fp
  gRdB :: int
  LNAstate :: int
  minGr :: int
  DCenable :: int
  IQenable :: int
  dec_enable :: int
  dec_decimationFactor :: int
  wideBandSignal :: int
  agc_enable :: int
  setPoint_dBfs :: int
  rsp1a_biasTEnable :: int
  rsp2_biasTEnable :: int
  rsp2_antennaSel :: int
  rspDuo_biasTEnable :: int

datatype api_call =
    COpen | CLock | CGetDevices | CSelectDevice string | CUnlock | CGetDeviceParams | CInit
  | CUninit | CReleaseDevice | CClose
  | CUpdate "int option" int u32 u32

text \<open>
  What the calls return: the error code, and what they hand back through pointers. \<open>a_lock\<close> is \<open>None\<close>
  when the call never returns, \<open>a_params\<close> may hand back a null pointer; \<open>a_cast\<close> converts to the integer
  type the vendor's header declares for a field.
\<close>

record sdrplay_api =
  a_open :: int
  a_lock :: "int option"
  a_devices :: "int \<times> rsp_device list"
  a_select :: "rsp_device \<Rightarrow> int \<times> rsp_device"
  a_unlock :: int
  a_params :: "int \<times> (dev_params \<times> rx_params) option"
  a_init :: int
  a_uninit :: int
  a_release :: int
  a_update :: "u32 \<Rightarrow> u32 \<Rightarrow> int"
  a_errorString :: "int \<Rightarrow> string"
  a_cast :: "string \<Rightarrow> int \<Rightarrow> int"

section \<open>State\<close>

record sdrplay_client =
  pl_cfg :: sdrplay_config
  pl_centerFrequencyHz :: fp
  pl_sampleRateHz :: fp
  opened :: bool
  deviceSelected :: bool
  initialized :: bool
  pl_device :: rsp_device
  deviceParams :: "(dev_params \<times> rx_params) option"

definition new_sdrplay_client :: "sdrplay_config \<Rightarrow> fp \<Rightarrow> fp \<Rightarrow> sdrplay_client" where
  "new_sdrplay_client cfg centerHz rateHz = \<lparr>pl_cfg = cfg, pl_centerFrequencyHz = centerHz,
     pl_sampleRateHz = rateHz, opened = False, deviceSelected = False, initialized = False,
     pl_device = \<lparr>SerNo = [], hwVer = 0, dv_tuner = 0, rspDuoMode = 0, dv_handle = None\<rparr>,
     deviceParams = None\<rparr>"

text \<open>
  A statement over the client and the calls made so far: \<open>None\<close> while it is blocked in a call, else a
  value, an exception or undefined behaviour.
\<close>

type_synonym play_state = "sdrplay_client \<times> (api_call \<times> int) list"
type_synonym 'a play = "play_state \<Rightarrow> 'a outcome option \<times> play_state"

definition returnp :: "'a \<Rightarrow> 'a play" where
  "returnp a s = (Some (Inr a), s)"

definition throwp :: "string \<Rightarrow> 'a play" where
  "throwp msg s = (Some (Inl (Throw (RuntimeError msg))), s)"

definition bindp :: "'a play \<Rightarrow> ('a \<Rightarrow> 'b play) \<Rightarrow> 'b play" where
  "bindp m f s = (case m s of
       (Some (Inr a), s') \<Rightarrow> f a s'
     | (Some (Inl e), s') \<Rightarrow> (Some (Inl e), s')
     | (None, s') \<Rightarrow> (None, s'))"

definition modifyp :: "(sdrplay_client \<Rightarrow> sdrplay_client) \<Rightarrow> unit play" where
  "modifyp f s = (Some (Inr ()), f (fst s), snd s)"

text \<open>A call whose result is only logged.\<close>

definition callp :: "api_call \<Rightarrow> int \<Rightarrow> unit play" where
  "callp call err s = (Some (Inr ()), fst s, snd s @ [(call, err)])"

definition checkOrThrow :: "sdrplay_api \<Rightarrow> int \<Rightarrow> string \<Rightarrow> unit play" where
  "checkOrThrow A err what =
     (if err \<noteq> kErrSuccess then
        throwp (''sdrplay_api_'' @ what @ '' failed: '' @ a_errorString A err @ '' ('' @ show_int err @ '')'')
      else returnp ())"

definition checked :: "sdrplay_api \<Rightarrow> api_call \<Rightarrow> int \<Rightarrow> string \<Rightarrow> unit play" where
  "checked A call err what = bindp (callp call err) (\<lambda>_. checkOrThrow A err what)"

section \<open>Closing\<close>

definition play_close :: "sdrplay_api \<Rightarrow> unit play" where
  "play_close A s =
     (if \<not> opened (fst s) then returnp () s
      else bindp
        (\<lambda>s. if initialized (fst s) \<and> dv_handle (pl_device (fst s)) \<noteq> None
             then bindp (callp CUninit (a_uninit A)) (\<lambda>_. modifyp (\<lambda>c. c\<lparr>initialized := False\<rparr>)) s
             else returnp () s)
        (\<lambda>_. bindp
          (\<lambda>s. if deviceSelected (fst s)
               then bindp (callp CReleaseDevice (a_release A)) (\<lambda>_. modifyp (\<lambda>c. c\<lparr>deviceSelected := False\<rparr>)) s
               else returnp () s)
          (\<lambda>_. bindp (callp CClose 0)
            (\<lambda>_. modifyp (\<lambda>c. c\<lparr>opened := False, deviceParams := None\<rparr>)))) s)"

section \<open>Configuration of the device\<close>

text \<open>A pointer to the client's structures is followed; the null pointer must not be.\<close>

definition with_params :: "(dev_params \<times> rx_params \<Rightarrow> dev_params \<times> rx_params) \<Rightarrow> unit play" where
  "with_params f s = (case deviceParams (fst s) of
       None \<Rightarrow> (Some (Inl UB), s)
     | Some p \<Rightarrow> modifyp (\<lambda>c. c\<lparr>deviceParams := Some (f p)\<rparr>) s)"

definition applyBiasTField :: "u8 \<Rightarrow> rx_params \<Rightarrow> rx_params" where
  "applyBiasTField hw rx =
     (if hw = kDeviceRsp1A \<or> hw = kDeviceRsp1B then rx\<lparr>rsp1a_biasTEnable := 1\<rparr>
      else if hw = kDeviceRsp2 then rx\<lparr>rsp2_biasTEnable := 1\<rparr>
      else if hw = kDeviceRspDuo then rx\<lparr>rspDuo_biasTEnable := 1\<rparr>
      else rx)"

definition applyAntennaField :: "sdrplay_api \<Rightarrow> u8 \<Rightarrow> int \<Rightarrow> dev_params \<times> rx_params \<Rightarrow> dev_params \<times> rx_params" where
  "applyAntennaField A hw ant p =
     (if hw = kDeviceRsp2 then (fst p, (snd p)\<lparr>rsp2_antennaSel := a_cast A ''rsp2 antennaSel'' ant\<rparr>)
      else if hw = kDeviceRspDx \<or> hw = kDeviceRspDxR2 then
        ((fst p)\<lparr>rspDx_antennaSel := a_cast A ''rspDx antennaSel'' ant\<rparr>, snd p)
      else p)"

definition initial_params :: "sdrplay_api \<Rightarrow> sdrplay_client \<Rightarrow> fp \<Rightarrow> int \<Rightarrow>
    dev_params \<times> rx_params \<Rightarrow> dev_params \<times> rx_params" where
  "initial_params A c adcSampleRateHz factor p =
     (let cfg = pl_cfg c;
          hw = hwVer (pl_device c);
          dp = (fst p)\<lparr>dp_ppm := ppm cfg, fsHz := adcSampleRateHz\<rparr>;
          rx = (snd p)\<lparr>
            bwType := a_cast A ''bwType'' (bwTypeForSampleRate (pl_sampleRateHz c)),
            ifType := a_cast A ''ifType'' kIfZero,
            loMode := a_cast A ''loMode'' kLoAuto,
            rfHz := pl_centerFrequencyHz c,
            gRdB := gainReductionDb cfg,
            LNAstate := a_cast A ''LNAstate'' (lnaState cfg),
            minGr := a_cast A ''minGr'' kMinGrNormal,
            DCenable := 1, IQenable := 1,
            dec_enable := (if 1 < factor then 1 else 0),
            dec_decimationFactor := a_cast A ''decimationFactor'' factor,
            wideBandSignal := 1,
            agc_enable := a_cast A ''agc enable'' (if agc cfg then kAgcCtrlEn else kAgcDisable),
            setPoint_dBfs := agcSetPointDbfs cfg\<rparr>;
          rx' = (if biasT cfg then applyBiasTField hw rx else rx)
      in (case antenna cfg of None \<Rightarrow> (dp, rx') | Some ant \<Rightarrow> applyAntennaField A hw ant (dp, rx')))"

definition configureInitialParams :: "sdrplay_api \<Rightarrow> unit play" where
  "configureInitialParams A s =
     (case decimationForSampleRate (pl_sampleRateHz (fst s)) of
        None \<Rightarrow> (None, s)
      | Some (Inl e) \<Rightarrow> (Some (Inl e), s)
      | Some (Inr (adcSampleRateHz, factor)) \<Rightarrow>
          with_params (initial_params A (fst s) adcSampleRateHz factor) s)"

section \<open>Connecting\<close>

fun find_serial :: "string \<Rightarrow> rsp_device list \<Rightarrow> rsp_device option" where
  "find_serial serial [] = None"
| "find_serial serial (d # ds) = (if serial = SerNo d then Some d else find_serial serial ds)"

fun comma_join :: "string list \<Rightarrow> string" where
  "comma_join [] = []"
| "comma_join [x] = x"
| "comma_join (x # xs) = x @ '', '' @ comma_join xs"

definition lockDeviceApiWithHint :: "sdrplay_api \<Rightarrow> unit play" where
  "lockDeviceApiWithHint A s = (case a_lock A of
       None \<Rightarrow> (None, s)
     | Some err \<Rightarrow> checked A CLock err ''LockDeviceApi'' s)"

definition choose_device :: "sdrplay_config \<Rightarrow> rsp_device list \<Rightarrow> rsp_device play" where
  "choose_device cfg devices =
     (if devices = [] then throwp ''no RSP devices found''
      else case serialNumber cfg of
        None \<Rightarrow> returnp (hd devices)
      | Some serial \<Rightarrow> (case find_serial serial devices of
            Some d \<Rightarrow> returnp d
          | None \<Rightarrow> throwp (''RSP with serial '' @ quoted serial @ '' not found. Available: '' @
              comma_join (map SerNo devices))))"

text \<open>An RSPduo is forced into single-tuner mode.\<close>

definition single_tuner :: "sdrplay_api \<Rightarrow> rsp_device \<Rightarrow> rsp_device" where
  "single_tuner A d =
     (if hwVer d = kDeviceRspDuo then
        d\<lparr>rspDuoMode := a_cast A ''rspDuoMode'' kRspDuoModeSingleTuner, dv_tuner := a_cast A ''tuner'' kTunerA\<rparr>
      else d)"

definition select_device :: "sdrplay_api \<Rightarrow> rsp_device \<Rightarrow> unit play" where
  "select_device A d =
     (let d1 = single_tuner A d; (err, d2) = a_select A d1 in
      bindp (modifyp (\<lambda>c. c\<lparr>pl_device := d2\<rparr>)) (\<lambda>_.
      bindp (checked A (CSelectDevice (SerNo d1)) err ''SelectDevice'') (\<lambda>_.
      modifyp (\<lambda>c. c\<lparr>deviceSelected := True\<rparr>))))"

text \<open>The statements of the \<open>try\<close> block.\<close>

definition connect_device :: "sdrplay_api \<Rightarrow> unit play" where
  "connect_device A =
     bindp (lockDeviceApiWithHint A) (\<lambda>_.
     bindp (checked A CGetDevices (fst (a_devices A)) ''GetDevices'') (\<lambda>_.
     bindp (\<lambda>s. choose_device (pl_cfg (fst s)) (snd (a_devices A)) s) (\<lambda>d.
     bindp (select_device A d) (\<lambda>_.
     bindp (checked A CUnlock (a_unlock A) ''UnlockDeviceApi'') (\<lambda>_.
     bindp (checked A CGetDeviceParams (fst (a_params A)) ''GetDeviceParams'') (\<lambda>_.
     bindp (modifyp (\<lambda>c. c\<lparr>deviceParams := snd (a_params A)\<rparr>)) (\<lambda>_.
     bindp (configureInitialParams A) (\<lambda>_.
     bindp (checked A CInit (a_init A) ''Init'') (\<lambda>_.
     modifyp (\<lambda>c. c\<lparr>initialized := True\<rparr>))))))))))"

text \<open>An exception inside the \<open>try\<close> closes the client and is thrown again.\<close>

definition play_connect :: "sdrplay_api \<Rightarrow> unit play" where
  "play_connect A =
     bindp (checked A COpen (a_open A) ''Open'') (\<lambda>_.
     bindp (modifyp (\<lambda>c. c\<lparr>opened := True\<rparr>)) (\<lambda>_ s.
     (case connect_device A s of
        (Some (Inl (Throw e)), s') \<Rightarrow> (Some (Inl (Throw e)), snd (play_close A s'))
      | r \<Rightarrow> r)))"

section \<open>Resources\<close>

text \<open>
  What a sequence of calls leaves acquired at the vendor's service: a call that reports an error has
  neither acquired nor released anything. \<open>sdrplay_api_Close\<close> reports no result.
\<close>

datatype rsp_resource = Session | ApiLock | Device | Stream

fun resource_step :: "rsp_resource set \<Rightarrow> api_call \<times> int \<Rightarrow> rsp_resource set" where
  "resource_step H (COpen, err) = (if err = kErrSuccess then insert Session H else H)"
| "resource_step H (CLock, err) = (if err = kErrSuccess then insert ApiLock H else H)"
| "resource_step H (CSelectDevice d, err) = (if err = kErrSuccess then insert Device H else H)"
| "resource_step H (CInit, err) = (if err = kErrSuccess then insert Stream H else H)"
| "resource_step H (CUnlock, err) = (if err = kErrSuccess then H - {ApiLock} else H)"
| "resource_step H (CUninit, err) = (if err = kErrSuccess then H - {Stream} else H)"
| "resource_step H (CReleaseDevice, err) = (if err = kErrSuccess then H - {Device} else H)"
| "resource_step H (CClose, err) = H - {Session}"
| "resource_step H _ = H"

definition held :: "(api_call \<times> int) list \<Rightarrow> rsp_resource set" where
  "held t = foldl resource_step {} t"

lemma held_simps [simp]: "held [] = {}" "held (t @ [x]) = resource_step (held t) x"
  by (simp_all add: held_def)

text \<open>Which calls of a trace succeeded, and how often a call was made.\<close>

definition selected :: "(api_call \<times> int) list \<Rightarrow> bool" where
  "selected t \<longleftrightarrow> (\<exists>serial. (CSelectDevice serial, kErrSuccess) \<in> set t)"

definition streaming :: "(api_call \<times> int) list \<Rightarrow> bool" where
  "streaming t \<longleftrightarrow> (CInit, kErrSuccess) \<in> set t"

definition lock_kept :: "(api_call \<times> int) list \<Rightarrow> bool" where
  "lock_kept t \<longleftrightarrow> (CLock, kErrSuccess) \<in> set t \<and> (CUnlock, kErrSuccess) \<notin> set t"

definition times_called :: "api_call \<Rightarrow> (api_call \<times> int) list \<Rightarrow> nat" where
  "times_called c t = length (filter (\<lambda>x. fst x = c) t)"

text \<open>
  What is still acquired in the end: the API lock if it was taken and not given back, and, where the
  vendor's service refused to release it, the device and the stream.
\<close>

definition left_over :: "sdrplay_api \<Rightarrow> (api_call \<times> int) list \<Rightarrow> rsp_resource set" where
  "left_over A t = (if lock_kept t then {ApiLock} else {}) \<union>
     (if selected t \<and> a_release A \<noteq> kErrSuccess then {Device} else {}) \<union>
     (if streaming t \<and> a_uninit A \<noteq> kErrSuccess then {Stream} else {})"

text \<open>Each acquired resource was given back by exactly one call, whatever that call returned.\<close>

definition released_once :: "(api_call \<times> int) list \<Rightarrow> bool" where
  "released_once t \<longleftrightarrow>
     times_called CClose t = (if (COpen, kErrSuccess) \<in> set t then 1 else 0) \<and>
     times_called CReleaseDevice t = (if selected t then 1 else 0) \<and>
     times_called CUninit t = (if streaming t then 1 else 0)"

definition not_released :: "(api_call \<times> int) list \<Rightarrow> bool" where
  "not_released t \<longleftrightarrow> times_called CClose t = 0 \<and> times_called CReleaseDevice t = 0 \<and> times_called CUninit t = 0"

lemmas trace_defs = selected_def streaming_def lock_kept_def times_called_def released_once_def
  not_released_def left_over_def

lemma no_calls [simp]: "left_over A [] = {}" "released_once []" "\<not> lock_kept []" "\<not> selected []" "\<not> streaming []"
  by (simp_all add: trace_defs)

text \<open>The flags of the client say what is acquired.\<close>

definition flags_true :: "play_state \<Rightarrow> bool" where
  "flags_true s \<longleftrightarrow> (case s of (c, t) \<Rightarrow>
     (opened c \<longleftrightarrow> Session \<in> held t) \<and> (deviceSelected c \<longleftrightarrow> Device \<in> held t) \<and>
     (initialized c \<longleftrightarrow> Stream \<in> held t) \<and> (initialized c \<longrightarrow> deviceSelected c) \<and>
     (deviceSelected c \<longrightarrow> opened c \<and> dv_handle (pl_device c) \<noteq> None))"

lemmas play_defs = returnp_def throwp_def bindp_def modifyp_def callp_def checked_def checkOrThrow_def

lemma resource_set_eqI:
  assumes "Session \<in> G \<longleftrightarrow> Session \<in> H" and "ApiLock \<in> G \<longleftrightarrow> ApiLock \<in> H"
    and "Device \<in> G \<longleftrightarrow> Device \<in> H" and "Stream \<in> G \<longleftrightarrow> Stream \<in> H"
  shows "G = H"
proof (rule set_eqI)
  fix x show "x \<in> G \<longleftrightarrow> x \<in> H" using assms by (cases x) simp_all
qed

definition released :: "sdrplay_client \<Rightarrow> sdrplay_client" where
  "released c = c\<lparr>opened := False, deviceSelected := False, initialized := False, deviceParams := None\<rparr>"

definition closing_calls :: "sdrplay_api \<Rightarrow> sdrplay_client \<Rightarrow> (api_call \<times> int) list" where
  "closing_calls A c = (if initialized c then [(CUninit, a_uninit A)] else []) @
     (if deviceSelected c then [(CReleaseDevice, a_release A)] else []) @ [(CClose, 0)]"

lemma play_close_eval:
  assumes "flags_true (c, t)" and "opened c"
  shows "play_close A (c, t) = (Some (Inr ()), released c, t @ closing_calls A c)"
proof -
  obtain cfg fc sr o1 sel ini d p where c: "c = \<lparr>pl_cfg = cfg, pl_centerFrequencyHz = fc, pl_sampleRateHz = sr,
      opened = o1, deviceSelected = sel, initialized = ini, pl_device = d, deviceParams = p\<rparr>" by (cases c)
  show ?thesis using assms
    by (cases sel; cases ini)
       (simp_all add: c play_close_def play_defs flags_true_def released_def closing_calls_def)
qed

lemma held_closed:
  assumes "flags_true (c, t)" and "opened c"
  shows "held (t @ closing_calls A c) = held t \<inter> {ApiLock} \<union>
    (if deviceSelected c \<and> a_release A \<noteq> kErrSuccess then {Device} else {}) \<union>
    (if initialized c \<and> a_uninit A \<noteq> kErrSuccess then {Stream} else {})"
proof -
  have h: "held (t @ u) = foldl resource_step (held t) u" for u by (simp add: held_def)
  show ?thesis
    by (rule resource_set_eqI) (use assms in \<open>auto simp: h closing_calls_def flags_true_def\<close>)
qed

text \<open>
  What a statement establishes when it returns (\<open>Q\<close>) and when it throws or blocks (\<open>E\<close>).
\<close>

definition ensures :: "(play_state \<Rightarrow> bool) \<Rightarrow> 'a play \<Rightarrow> ('a \<Rightarrow> play_state \<Rightarrow> bool) \<Rightarrow> (play_state \<Rightarrow> bool) \<Rightarrow> bool" where
  "ensures P m Q E \<longleftrightarrow> (\<forall>s. P s \<longrightarrow> (case m s of (Some (Inr a), s') \<Rightarrow> Q a s' | (_, s') \<Rightarrow> E s'))"

lemma ensures_bind:
  assumes "ensures P m R E" and "\<And>a. ensures (R a) (f a) Q E"
  shows "ensures P (bindp m f) Q E"
  using assms unfolding ensures_def bindp_def
  by (fastforce split: prod.splits option.splits sum.splits)

text \<open>A point of \<open>connect\<close> that is reached when the calls \<open>cs\<close> have all succeeded.\<close>

definition reached :: "api_call list \<Rightarrow> bool \<Rightarrow> bool \<Rightarrow> play_state \<Rightarrow> bool" where
  "reached cs sel ini s \<longleftrightarrow> (case s of (c, t) \<Rightarrow> t = map (\<lambda>x. (x, kErrSuccess)) cs \<and>
     opened c \<and> deviceSelected c = sel \<and> initialized c = ini \<and>
     (sel \<longrightarrow> dv_handle (pl_device c) \<noteq> None))"

text \<open>
  A point where \<open>connect\<close> gives up: the flags are true and nothing has been released, and the API lock is
  held iff it was taken and not yet given back.
\<close>

definition given_up :: "play_state \<Rightarrow> bool" where
  "given_up s \<longleftrightarrow> flags_true s \<and> opened (fst s) \<and> (ApiLock \<in> held (snd s) \<longleftrightarrow> lock_kept (snd s)) \<and>
     (deviceSelected (fst s) \<longleftrightarrow> selected (snd s)) \<and> \<not> initialized (fst s) \<and> \<not> streaming (snd s) \<and>
     (COpen, kErrSuccess) \<in> set (snd s) \<and> not_released (snd s)"

lemma checked_step:
  assumes "\<And>c. reached cs sel ini (c, map (\<lambda>x. (x, kErrSuccess)) cs) \<Longrightarrow> err \<noteq> kErrSuccess \<Longrightarrow>
      given_up (c, map (\<lambda>x. (x, kErrSuccess)) cs @ [(call, err)])"
  shows "ensures (reached cs sel ini) (checked A call err what) (\<lambda>_. reached (cs @ [call]) sel ini) given_up"
  unfolding ensures_def
proof (intro allI impI)
  fix s assume r: "reached cs sel ini s"
  obtain c t where s: "s = (c, t)" by (cases s)
  have t: "t = map (\<lambda>x. (x, kErrSuccess)) cs" using r s by (simp add: reached_def)
  show "case checked A call err what s of (Some (Inr a), s') \<Rightarrow> reached (cs @ [call]) sel ini s' | (_, s') \<Rightarrow> given_up s'"
    using assms [of c] r unfolding s t by (cases "err = kErrSuccess") (auto simp: play_defs reached_def)
qed

definition select_gives_handle :: "sdrplay_api \<Rightarrow> bool" where
  "select_gives_handle A \<longleftrightarrow>
     (\<forall>d. fst (a_select A d) = kErrSuccess \<longrightarrow> dv_handle (snd (a_select A d)) \<noteq> None)"

lemma given_up_reached:
  assumes "reached cs sel False s"
    and "held (map (\<lambda>x. (x, kErrSuccess)) cs) =
      {Session} \<union> (if sel then {Device} else {}) \<union> (if lock_kept (map (\<lambda>x. (x, kErrSuccess)) cs) then {ApiLock} else {})"
    and "COpen \<in> set cs" and "set cs \<inter> {CInit, CClose, CReleaseDevice, CUninit} = {}"
    and "sel \<longleftrightarrow> (\<exists>serial. CSelectDevice serial \<in> set cs)"
  shows "given_up s"
  using assms by (cases s) (auto simp: reached_def given_up_def flags_true_def selected_def streaming_def
      not_released_def times_called_def filter_empty_conv)

lemma ensures_ex:
  assumes "\<And>x. ensures (P x) m Q E"
  shows "ensures (\<lambda>s. \<exists>x. P x s) m Q E"
  unfolding ensures_def
proof (intro allI impI)
  fix s assume "\<exists>x. P x s"
  then obtain x where x: "P x s" ..
  show "case m s of (Some (Inr a), s') \<Rightarrow> Q a s' | (_, s') \<Rightarrow> E s'"
    using assms [of x, unfolded ensures_def, rule_format, OF x] .
qed

lemma lock_step: "ensures (reached [COpen] False False) (lockDeviceApiWithHint A)
    (\<lambda>_. reached [COpen, CLock] False False) given_up"
proof (cases "a_lock A")
  case None
  then show ?thesis
    by (auto simp: ensures_def lockDeviceApiWithHint_def held_def trace_defs intro!: given_up_reached)
next
  case (Some err)
  have "ensures (reached [COpen] False False) (checked A CLock err ''LockDeviceApi'')
      (\<lambda>_. reached ([COpen] @ [CLock]) False False) given_up"
    by (rule checked_step) (auto simp: reached_def given_up_def flags_true_def held_def trace_defs)
  then show ?thesis using Some by (simp add: ensures_def lockDeviceApiWithHint_def)
qed

lemma devices_step: "ensures (reached [COpen, CLock] False False)
    (checked A CGetDevices err what) (\<lambda>_. reached [COpen, CLock, CGetDevices] False False) given_up"
  using checked_step [of "[COpen, CLock]" False False err CGetDevices A what]
  by (auto simp: reached_def given_up_def flags_true_def held_def trace_defs)

lemma choose_step: "ensures (reached [COpen, CLock, CGetDevices] False False)
    (\<lambda>s. choose_device (pl_cfg (fst s)) ds s) (\<lambda>_. reached [COpen, CLock, CGetDevices] False False) given_up"
  unfolding ensures_def choose_device_def
  by (auto simp: play_defs held_def trace_defs split: option.splits intro!: given_up_reached)

lemma select_step:
  assumes "select_gives_handle A"
  shows "ensures (reached [COpen, CLock, CGetDevices] False False) (select_device A d)
    (\<lambda>_ s. \<exists>serial. reached [COpen, CLock, CGetDevices, CSelectDevice serial] True False s) given_up"
proof -
  obtain err d2 where d: "a_select A (single_tuner A d) = (err, d2)" by fastforce
  with assms have h: "err = kErrSuccess \<Longrightarrow> dv_handle d2 \<noteq> None"
    by (auto simp: select_gives_handle_def dest: spec [of _ "single_tuner A d"])
  show ?thesis using d h
    by (cases "err = kErrSuccess")
       (auto simp: ensures_def select_device_def play_defs reached_def given_up_def flags_true_def
          held_def trace_defs)
qed

lemma unlock_step: "ensures (reached [COpen, CLock, CGetDevices, CSelectDevice serial] True False)
    (checked A CUnlock err what)
    (\<lambda>_. reached [COpen, CLock, CGetDevices, CSelectDevice serial, CUnlock] True False) given_up"
  using checked_step [of "[COpen, CLock, CGetDevices, CSelectDevice serial]" True False err CUnlock A what]
  by (auto simp: reached_def given_up_def flags_true_def held_def trace_defs)

lemma params_step: "ensures (reached [COpen, CLock, CGetDevices, CSelectDevice serial, CUnlock] True False)
    (checked A CGetDeviceParams err what)
    (\<lambda>_. reached [COpen, CLock, CGetDevices, CSelectDevice serial, CUnlock, CGetDeviceParams] True False) given_up"
  using checked_step [of "[COpen, CLock, CGetDevices, CSelectDevice serial, CUnlock]" True False err CGetDeviceParams A what]
  by (auto simp: reached_def given_up_def flags_true_def held_def trace_defs)

lemma stream_step: "ensures
    (\<lambda>s. reached [COpen, CLock, CGetDevices, CSelectDevice serial, CUnlock, CGetDeviceParams] True False s \<and> deviceParams (fst s) \<noteq> None)
    (bindp (checked A CInit err what) (\<lambda>_. modifyp (\<lambda>c. c\<lparr>initialized := True\<rparr>)))
    (\<lambda>_ s. (\<exists>serial. reached [COpen, CLock, CGetDevices, CSelectDevice serial, CUnlock, CGetDeviceParams, CInit] True True s) \<and>
       deviceParams (fst s) \<noteq> None) given_up"
  by (cases "err = kErrSuccess")
     (auto simp: ensures_def play_defs reached_def given_up_def flags_true_def held_def trace_defs)

lemma configure_step: "ensures
    (reached [COpen, CLock, CGetDevices, CSelectDevice serial, CUnlock, CGetDeviceParams] True False)
    (configureInitialParams A)
    (\<lambda>_ s. reached [COpen, CLock, CGetDevices, CSelectDevice serial, CUnlock, CGetDeviceParams] True False s \<and>
       deviceParams (fst s) \<noteq> None) given_up"
  unfolding ensures_def configureInitialParams_def with_params_def
  by (auto simp: modifyp_def held_def trace_defs reached_def given_up_def flags_true_def
      split: option.splits sum.splits)

lemma connect_device_steps:
  assumes "select_gives_handle A"
  shows "ensures (reached [COpen] False False) (connect_device A)
    (\<lambda>_ s. (\<exists>serial. reached [COpen, CLock, CGetDevices, CSelectDevice serial, CUnlock, CGetDeviceParams, CInit] True True s) \<and>
       deviceParams (fst s) \<noteq> None) given_up"
proof -
  let ?p = "\<lambda>serial. reached [COpen, CLock, CGetDevices, CSelectDevice serial, CUnlock, CGetDeviceParams] True False"
  have m: "ensures (?p serial) (modifyp (\<lambda>c. c\<lparr>deviceParams := ps\<rparr>)) (\<lambda>_. ?p serial) given_up" for serial ps
    by (auto simp: ensures_def modifyp_def reached_def)
  show ?thesis unfolding connect_device_def
    by (intro ensures_bind [OF lock_step] ensures_bind [OF devices_step] ensures_bind [OF choose_step]
        ensures_bind [OF select_step [OF assms]] ensures_ex ensures_bind [OF unlock_step]
        ensures_bind [OF params_step] ensures_bind [OF m] ensures_bind [OF configure_step] stream_step)
qed

lemma given_up_close:
  assumes "given_up (c, t)"
  shows "play_close A (c, t) = (Some (Inr ()), released c, t @ closing_calls A c)"
    and "held (t @ closing_calls A c) = left_over A (t @ closing_calls A c)"
    and "released_once (t @ closing_calls A c)"
proof -
  have g: "flags_true (c, t)" "opened c" "ApiLock \<in> held t \<longleftrightarrow> lock_kept t" "deviceSelected c \<longleftrightarrow> selected t"
    "\<not> initialized c" "\<not> streaming t" "(COpen, kErrSuccess) \<in> set t" "not_released t"
    using assms by (simp_all add: given_up_def)
  show "play_close A (c, t) = (Some (Inr ()), released c, t @ closing_calls A c)"
    by (rule play_close_eval [OF g(1,2)])
  have k: "lock_kept (t @ closing_calls A c) = lock_kept t" "selected (t @ closing_calls A c) = selected t"
    "streaming (t @ closing_calls A c) = streaming t"
    by (auto simp: lock_kept_def selected_def streaming_def closing_calls_def)
  show "held (t @ closing_calls A c) = left_over A (t @ closing_calls A c)"
    using held_closed [OF g(1,2)] g(3-6) by (auto simp: left_over_def k)
  show "released_once (t @ closing_calls A c)"
    unfolding released_once_def k using g(4-8) by (auto simp: not_released_def times_called_def closing_calls_def)
qed

lemma reached_all_held:
  assumes "reached [COpen, CLock, CGetDevices, CSelectDevice serial, CUnlock, CGetDeviceParams, CInit] True True (c, t)"
  shows "flags_true (c, t)" and "opened c" and "held t = {Session, Device, Stream}"
    and "closing_calls A c = [(CUninit, a_uninit A), (CReleaseDevice, a_release A), (CClose, 0)]"
    and "held (t @ closing_calls A c) = left_over A (t @ closing_calls A c)"
    and "released_once (t @ closing_calls A c)" and "\<not> lock_kept (t @ closing_calls A c)"
    and "selected t" and "streaming t"
proof -
  show h: "held t = {Session, Device, Stream}" using assms by (auto simp: reached_def held_def)
  then show f: "flags_true (c, t)" "opened c" using assms by (simp_all add: reached_def flags_true_def)
  show cl: "closing_calls A c = [(CUninit, a_uninit A), (CReleaseDevice, a_release A), (CClose, 0)]"
    using assms by (simp add: reached_def closing_calls_def)
  have t: "t = map (\<lambda>x. (x, kErrSuccess)) [COpen, CLock, CGetDevices, CSelectDevice serial, CUnlock, CGetDeviceParams, CInit]"
    "deviceSelected c" "initialized c"
    using assms by (simp_all add: reached_def)
  show k: "selected t" "streaming t" by (auto simp: t(1) selected_def streaming_def)
  show l: "\<not> lock_kept (t @ closing_calls A c)" by (simp add: lock_kept_def t(1))
  have "selected (t @ closing_calls A c)" "streaming (t @ closing_calls A c)"
    using k by (auto simp: selected_def streaming_def)
  then show "held (t @ closing_calls A c) = left_over A (t @ closing_calls A c)"
    using held_closed [OF f, of A] h l t(2,3) by (auto simp: left_over_def)
  show "released_once (t @ closing_calls A c)"
    unfolding cl by (auto simp: t(1) released_once_def selected_def streaming_def times_called_def)
qed

lemma play_connect_outcome:
  assumes "select_gives_handle A" and "\<not> opened c" and "\<not> deviceSelected c" and "\<not> initialized c"
  shows "case play_connect A (c, []) of
      (Some (Inr _), c', t) \<Rightarrow> (\<exists>serial. reached [COpen, CLock, CGetDevices, CSelectDevice serial, CUnlock, CGetDeviceParams, CInit] True True (c', t)) \<and>
        deviceParams c' \<noteq> None
    | (Some (Inl (Throw e)), c', t) \<Rightarrow> held t = left_over A t \<and> released_once t \<and> \<not> streaming t \<and>
        \<not> opened c' \<and> \<not> deviceSelected c' \<and> \<not> initialized c'
    | (_, c', t) \<Rightarrow> given_up (c', t)"
proof (cases "a_open A = kErrSuccess")
  case False
  then show ?thesis using assms(2-4)
    by (auto simp: play_connect_def play_defs held_def trace_defs)
next
  case True
  define c1 where "c1 = c\<lparr>opened := True\<rparr>"
  have r: "reached [COpen] False False (c1, [(COpen, kErrSuccess)])"
    using assms(3,4) by (simp add: reached_def c1_def)
  obtain r c' t where d: "connect_device A (c1, [(COpen, kErrSuccess)]) = (r, c', t)" by (rule prod_cases3)
  have e: "play_connect A (c, []) = (case r of Some (Inl (Throw e)) \<Rightarrow>
      (Some (Inl (Throw e)), snd (play_close A (c', t))) | _ \<Rightarrow> (r, c', t))"
    using True d by (auto simp: play_connect_def play_defs c1_def split: option.splits sum.splits fault.splits)
  from connect_device_steps [OF assms(1)] r d have
    o: "case (r, c', t) of (Some (Inr a), s') \<Rightarrow>
        (\<exists>serial. reached [COpen, CLock, CGetDevices, CSelectDevice serial, CUnlock, CGetDeviceParams, CInit] True True s') \<and>
        deviceParams (fst s') \<noteq> None | (_, s') \<Rightarrow> given_up s'"
    unfolding ensures_def by fastforce
  show ?thesis
  proof (cases "\<exists>x. r = Some (Inl (Throw x))")
    case True
    with o have g: "given_up (c', t)" by auto
    then have "\<not> streaming (t @ closing_calls A c')" by (auto simp: given_up_def streaming_def closing_calls_def)
    with given_up_close [OF g, of A] True show ?thesis by (auto simp: e released_def)
  next
    case False
    with o show ?thesis by (auto simp: e split: option.splits sum.splits fault.splits)
  qed
qed

text \<open>
  Property C22: when \<open>connect\<close> returns, the session, the device and the stream are acquired and the API lock
  is not; \<open>close\<close> then makes the three releasing calls, once each, forgets all three even where a call
  failed, and leaves acquired exactly what the vendor's service refused to release. When \<open>connect\<close>
  throws, what it had acquired has been given back by one call each and the client is as before, but the API lock
  is still held exactly when the failure came after it was taken and before it was given back, and a
  selected device when the service refused to release it.
\<close>

theorem play_connect_resources:
  assumes "select_gives_handle A" and "\<not> opened c" and "\<not> deviceSelected c" and "\<not> initialized c"
  shows "case play_connect A (c, []) of
      (Some (Inr _), c', t) \<Rightarrow> held t = {Session, Device, Stream} \<and> deviceParams c' \<noteq> None \<and>
        (\<exists>c''. let t' = t @ [(CUninit, a_uninit A), (CReleaseDevice, a_release A), (CClose, 0)] in
           play_close A (c', t) = (Some (Inr ()), c'', t') \<and> released_once t' \<and>
           held t' = (if a_release A = kErrSuccess then {} else {Device}) \<union> (if a_uninit A = kErrSuccess then {} else {Stream}) \<and>
           \<not> opened c'' \<and> \<not> deviceSelected c'' \<and> \<not> initialized c'' \<and> play_close A (c'', t') = (Some (Inr ()), c'', t'))
    | (Some (Inl (Throw e)), c', t) \<Rightarrow> released_once t \<and>
        held t = (if lock_kept t then {ApiLock} else {}) \<union>
          (if selected t \<and> a_release A \<noteq> kErrSuccess then {Device} else {}) \<and>
        \<not> opened c' \<and> \<not> deviceSelected c' \<and> \<not> initialized c'
    | _ \<Rightarrow> True"
proof -
  obtain r c' t where p: "play_connect A (c, []) = (r, c', t)" by (rule prod_cases3)
  note o = play_connect_outcome [OF assms, unfolded p]
  show ?thesis
  proof (cases "\<exists>x. r = Some (Inr x)")
    case True
    with o obtain serial where
      "reached [COpen, CLock, CGetDevices, CSelectDevice serial, CUnlock, CGetDeviceParams, CInit] True True (c', t)"
      and dp: "deviceParams c' \<noteq> None" by auto
    note h = reached_all_held(1-3) [OF this(1)] reached_all_held(4-7) [OF this(1), of A]
      reached_all_held(8,9) [OF this(1)]
    let ?t = "t @ [(CUninit, a_uninit A), (CReleaseDevice, a_release A), (CClose, 0)]"
    have c: "play_close A (c', t) = (Some (Inr ()), released c', ?t)" using play_close_eval [OF h(1,2), of A] h(4) by simp
    have k: "selected ?t" "streaming ?t" using h(8,9) by (auto simp: selected_def streaming_def)
    have "held ?t = (if a_release A = kErrSuccess then {} else {Device}) \<union> (if a_uninit A = kErrSuccess then {} else {Stream})"
      using h(5,7) k unfolding h(4) by (auto simp: left_over_def)
    moreover have "play_close A (released c', ?t) = (Some (Inr ()), released c', ?t)"
      by (simp add: play_close_def play_defs released_def)
    ultimately show ?thesis using True c dp h(3,6) unfolding p h(4)
      by (auto simp: Let_def released_def)
  next
    case False
    with o show ?thesis unfolding p
      by (auto simp: left_over_def split: option.splits sum.splits fault.splits)
  qed
qed

text \<open>An API with one device; selecting it fails with the given code.\<close>

definition demo_api :: "int \<Rightarrow> sdrplay_api" where
  "demo_api sel_err = \<lparr>a_open = 0, a_lock = Some 0,
     a_devices = (0, [\<lparr>SerNo = ''A1'', hwVer = kDeviceRspDx, dv_tuner = 0, rspDuoMode = 0, dv_handle = None\<rparr>]),
     a_select = (\<lambda>d. (sel_err, d\<lparr>dv_handle := Some 7\<rparr>)), a_unlock = 0,
     a_params = (0, Some (\<lparr>dp_ppm = Fin 0, fsHz = Fin 0, rspDx_biasTEnable = 0, rspDx_antennaSel = 0\<rparr>,
       \<lparr>bwType = 0, ifType = 0, loMode = 0, rfHz = Fin 0, gRdB = 0, LNAstate = 0, minGr = 0, DCenable = 0,
        IQenable = 0, dec_enable = 0, dec_decimationFactor = 0, wideBandSignal = 0, agc_enable = 0,
        setPoint_dBfs = 0, rsp1a_biasTEnable = 0, rsp2_biasTEnable = 0, rsp2_antennaSel = 0,
        rspDuo_biasTEnable = 0\<rparr>)),
     a_init = 0, a_uninit = 0, a_release = 0, a_update = (\<lambda>_ _. 0), a_errorString = (\<lambda>_. []),
     a_cast = (\<lambda>_ i. i)\<rparr>"

theorem play_connect_resources_witness:
  "(\<exists>e c' t. play_connect (demo_api 5) (new_sdrplay_client default_sdrplay_config (Fin 100) (Fin 2000000), []) =
      (Some (Inl (Throw e)), c', t) \<and> held t = {ApiLock}) \<and>
   (\<exists>c' t c'' t'. play_connect ((demo_api 0)\<lparr>a_uninit := 3\<rparr>)
        (new_sdrplay_client default_sdrplay_config (Fin 100) (Fin 2000000), []) = (Some (Inr ()), c', t) \<and>
      held t = {Session, Device, Stream} \<and>
      play_close ((demo_api 0)\<lparr>a_uninit := 3\<rparr>) (c', t) = (Some (Inr ()), c'', t') \<and> held t' = {Stream} \<and> \<not> initialized c'')"
proof -
  let ?c = "new_sdrplay_client default_sdrplay_config (Fin 100) (Fin 2000000)"
  let ?A = "(demo_api 0)\<lparr>a_uninit := 3\<rparr>"
  have h: "select_gives_handle (demo_api 5)" "select_gives_handle ?A" by (simp_all add: select_gives_handle_def demo_api_def)
  have f: "\<not> opened ?c" "\<not> deviceSelected ?c" "\<not> initialized ?c" by (simp_all add: new_sdrplay_client_def)
  have d: "decimationForSampleRate (Fin 2000000) = Some (Inr (Fin 2000000, 1))"
    unfolding decimationForSampleRate_def by (subst decimation_loop.simps) simp
  obtain e c1 t1 where r1: "play_connect (demo_api 5) (?c, []) = (Some (Inl (Throw e)), c1, t1)"
    "t1 = [(COpen, 0), (CLock, 0), (CGetDevices, 0), (CSelectDevice ''A1'', 5), (CClose, 0)]"
    by (simp add: play_connect_def connect_device_def lockDeviceApiWithHint_def choose_device_def
        select_device_def single_tuner_def play_close_def play_defs demo_api_def new_sdrplay_client_def
        default_sdrplay_config_def rsp_consts)
  have "lock_kept t1" "\<not> selected t1" by (simp_all add: r1(2) lock_kept_def selected_def rsp_consts)
  with play_connect_resources [OF h(1) f] r1(1) have a: "held t1 = {ApiLock}" by simp
  obtain c2 t2 where r2: "play_connect ?A (?c, []) = (Some (Inr ()), c2, t2)"
    using d by (simp add: play_connect_def connect_device_def lockDeviceApiWithHint_def choose_device_def
        select_device_def single_tuner_def configureInitialParams_def with_params_def play_defs
        demo_api_def new_sdrplay_client_def default_sdrplay_config_def rsp_consts)
  have u: "a_uninit ?A = 3" "a_release ?A = kErrSuccess" by (simp_all add: demo_api_def rsp_consts)
  from play_connect_resources [OF h(2) f] r2 obtain c3 t3 where "held t2 = {Session, Device, Stream}"
    "play_close ?A (c2, t2) = (Some (Inr ()), c3, t3)" "held t3 = {Stream}" "\<not> initialized c3"
    unfolding u by (auto simp: Let_def rsp_consts)
  with a r1(1) r2 show ?thesis by blast
qed

section \<open>What the device is configured to\<close>

lemma applyBiasTField_simps [simp]:
  "bwType (applyBiasTField hw rx) = bwType rx"
  "ifType (applyBiasTField hw rx) = ifType rx"
  "loMode (applyBiasTField hw rx) = loMode rx"
  "rfHz (applyBiasTField hw rx) = rfHz rx"
  "gRdB (applyBiasTField hw rx) = gRdB rx"
  "LNAstate (applyBiasTField hw rx) = LNAstate rx"
  "minGr (applyBiasTField hw rx) = minGr rx"
  "DCenable (applyBiasTField hw rx) = DCenable rx"
  "IQenable (applyBiasTField hw rx) = IQenable rx"
  "dec_enable (applyBiasTField hw rx) = dec_enable rx"
  "dec_decimationFactor (applyBiasTField hw rx) = dec_decimationFactor rx"
  "wideBandSignal (applyBiasTField hw rx) = wideBandSignal rx"
  "agc_enable (applyBiasTField hw rx) = agc_enable rx"
  "setPoint_dBfs (applyBiasTField hw rx) = setPoint_dBfs rx"
  by (simp_all add: applyBiasTField_def)

lemma applyAntennaField_simps [simp]:
  "fsHz (fst (applyAntennaField A hw ant p)) = fsHz (fst p)"
  "dp_ppm (fst (applyAntennaField A hw ant p)) = dp_ppm (fst p)"
  "rspDx_biasTEnable (fst (applyAntennaField A hw ant p)) = rspDx_biasTEnable (fst p)"
  "bwType (snd (applyAntennaField A hw ant p)) = bwType (snd p)"
  "ifType (snd (applyAntennaField A hw ant p)) = ifType (snd p)"
  "loMode (snd (applyAntennaField A hw ant p)) = loMode (snd p)"
  "rfHz (snd (applyAntennaField A hw ant p)) = rfHz (snd p)"
  "gRdB (snd (applyAntennaField A hw ant p)) = gRdB (snd p)"
  "LNAstate (snd (applyAntennaField A hw ant p)) = LNAstate (snd p)"
  "minGr (snd (applyAntennaField A hw ant p)) = minGr (snd p)"
  "DCenable (snd (applyAntennaField A hw ant p)) = DCenable (snd p)"
  "IQenable (snd (applyAntennaField A hw ant p)) = IQenable (snd p)"
  "dec_enable (snd (applyAntennaField A hw ant p)) = dec_enable (snd p)"
  "dec_decimationFactor (snd (applyAntennaField A hw ant p)) = dec_decimationFactor (snd p)"
  "wideBandSignal (snd (applyAntennaField A hw ant p)) = wideBandSignal (snd p)"
  "agc_enable (snd (applyAntennaField A hw ant p)) = agc_enable (snd p)"
  "setPoint_dBfs (snd (applyAntennaField A hw ant p)) = setPoint_dBfs (snd p)"
  "rsp1a_biasTEnable (snd (applyAntennaField A hw ant p)) = rsp1a_biasTEnable (snd p)"
  "rsp2_biasTEnable (snd (applyAntennaField A hw ant p)) = rsp2_biasTEnable (snd p)"
  "rspDuo_biasTEnable (snd (applyAntennaField A hw ant p)) = rspDuo_biasTEnable (snd p)"
  by (simp_all add: applyAntennaField_def)

lemma initial_params_constants:
  assumes "initial_params A c adc factor (dp, rx) = (dp', rx')"
  shows "bwType rx' = a_cast A ''bwType'' (bwTypeForSampleRate (pl_sampleRateHz c))"
    and "loMode rx' = a_cast A ''loMode'' kLoAuto" and "minGr rx' = a_cast A ''minGr'' kMinGrNormal"
    and "DCenable rx' = 1 \<and> IQenable rx' = 1 \<and> wideBandSignal rx' = 1"
proof -
  have d: "rx' = snd (initial_params A c adc factor (dp, rx))" by (simp add: assms)
  show "bwType rx' = a_cast A ''bwType'' (bwTypeForSampleRate (pl_sampleRateHz c))"
    and "loMode rx' = a_cast A ''loMode'' kLoAuto" and "minGr rx' = a_cast A ''minGr'' kMinGrNormal"
    and "DCenable rx' = 1 \<and> IQenable rx' = 1 \<and> wideBandSignal rx' = 1"
    unfolding d by (cases "antenna (pl_cfg c)"; cases "biasT (pl_cfg c)"; simp add: initial_params_def Let_def)+
qed

lemma applyBiasTField_antenna [simp]: "rsp2_antennaSel (applyBiasTField hw rx) = rsp2_antennaSel rx"
  by (simp add: applyBiasTField_def)

text \<open>The antenna is written where the model has one to select, and only when one is configured.\<close>

lemma initial_params_antenna:
  assumes "initial_params A c adc factor (dp, rx) = (dp', rx')"
  shows "rsp2_antennaSel rx' = (case antenna (pl_cfg c) of
        Some ant \<Rightarrow> if hwVer (pl_device c) = kDeviceRsp2 then a_cast A ''rsp2 antennaSel'' ant else rsp2_antennaSel rx
      | None \<Rightarrow> rsp2_antennaSel rx)"
    and "rspDx_antennaSel dp' = (case antenna (pl_cfg c) of
        Some ant \<Rightarrow> if hwVer (pl_device c) \<in> {kDeviceRspDx, kDeviceRspDxR2} then a_cast A ''rspDx antennaSel'' ant
          else rspDx_antennaSel dp
      | None \<Rightarrow> rspDx_antennaSel dp)"
proof -
  have d: "dp' = fst (initial_params A c adc factor (dp, rx))" "rx' = snd (initial_params A c adc factor (dp, rx))"
    by (simp_all add: assms)
  show "rsp2_antennaSel rx' = (case antenna (pl_cfg c) of
        Some ant \<Rightarrow> if hwVer (pl_device c) = kDeviceRsp2 then a_cast A ''rsp2 antennaSel'' ant else rsp2_antennaSel rx
      | None \<Rightarrow> rsp2_antennaSel rx)"
    unfolding d by (cases "antenna (pl_cfg c)"; cases "biasT (pl_cfg c)";
        simp add: initial_params_def Let_def applyAntennaField_def)
  show "rspDx_antennaSel dp' = (case antenna (pl_cfg c) of
        Some ant \<Rightarrow> if hwVer (pl_device c) \<in> {kDeviceRspDx, kDeviceRspDxR2} then a_cast A ''rspDx antennaSel'' ant
          else rspDx_antennaSel dp
      | None \<Rightarrow> rspDx_antennaSel dp)"
    unfolding d by (cases "antenna (pl_cfg c)"; cases "biasT (pl_cfg c)";
        simp add: initial_params_def Let_def applyAntennaField_def rsp_consts)
qed

lemma initial_params_fields:
  assumes "initial_params A c adc factor (dp, rx) = (dp', rx')"
  shows "fsHz dp' = adc" and "dp_ppm dp' = ppm (pl_cfg c)" and "rspDx_biasTEnable dp' = rspDx_biasTEnable dp"
    and "dec_decimationFactor rx' = a_cast A ''decimationFactor'' factor"
    and "dec_enable rx' = (if 1 < factor then 1 else 0)" and "rfHz rx' = pl_centerFrequencyHz c"
    and "ifType rx' = a_cast A ''ifType'' kIfZero" and "gRdB rx' = gainReductionDb (pl_cfg c)"
    and "LNAstate rx' = a_cast A ''LNAstate'' (lnaState (pl_cfg c))"
    and "setPoint_dBfs rx' = agcSetPointDbfs (pl_cfg c)"
    and "agc_enable rx' = a_cast A ''agc enable'' (if agc (pl_cfg c) then kAgcCtrlEn else kAgcDisable)"
    and "rsp1a_biasTEnable rx' = (if biasT (pl_cfg c) then rsp1a_biasTEnable (applyBiasTField (hwVer (pl_device c)) rx)
      else rsp1a_biasTEnable rx)"
    and "rsp2_biasTEnable rx' = (if biasT (pl_cfg c) then rsp2_biasTEnable (applyBiasTField (hwVer (pl_device c)) rx)
      else rsp2_biasTEnable rx)"
    and "rspDuo_biasTEnable rx' = (if biasT (pl_cfg c) then rspDuo_biasTEnable (applyBiasTField (hwVer (pl_device c)) rx)
      else rspDuo_biasTEnable rx)"
proof -
  have d: "dp' = fst (initial_params A c adc factor (dp, rx))" "rx' = snd (initial_params A c adc factor (dp, rx))"
    by (simp_all add: assms)
  show "fsHz dp' = adc" and "dp_ppm dp' = ppm (pl_cfg c)" and "rspDx_biasTEnable dp' = rspDx_biasTEnable dp"
    and "dec_decimationFactor rx' = a_cast A ''decimationFactor'' factor"
    and "dec_enable rx' = (if 1 < factor then 1 else 0)" and "rfHz rx' = pl_centerFrequencyHz c"
    and "ifType rx' = a_cast A ''ifType'' kIfZero" and "gRdB rx' = gainReductionDb (pl_cfg c)"
    and "LNAstate rx' = a_cast A ''LNAstate'' (lnaState (pl_cfg c))"
    and "setPoint_dBfs rx' = agcSetPointDbfs (pl_cfg c)"
    and "agc_enable rx' = a_cast A ''agc enable'' (if agc (pl_cfg c) then kAgcCtrlEn else kAgcDisable)"
    unfolding d by (cases "antenna (pl_cfg c)"; cases "biasT (pl_cfg c)"; simp add: initial_params_def Let_def)+
  show "rsp1a_biasTEnable rx' = (if biasT (pl_cfg c) then rsp1a_biasTEnable (applyBiasTField (hwVer (pl_device c)) rx)
      else rsp1a_biasTEnable rx)"
    and "rsp2_biasTEnable rx' = (if biasT (pl_cfg c) then rsp2_biasTEnable (applyBiasTField (hwVer (pl_device c)) rx)
      else rsp2_biasTEnable rx)"
    and "rspDuo_biasTEnable rx' = (if biasT (pl_cfg c) then rspDuo_biasTEnable (applyBiasTField (hwVer (pl_device c)) rx)
      else rspDuo_biasTEnable rx)"
    unfolding d by (cases "antenna (pl_cfg c)"; simp add: initial_params_def Let_def applyBiasTField_def)+
qed

text \<open>
  Property C25: the configuration written before the stream starts: the ADC runs at the configured rate
  times a power of two, at 2 MHz or more, with the hardware decimation that undoes it; centre, gain,
  LNA, AGC and zero IF are the configured ones, the bandwidth the one for the rate, DC and IQ correction
  are on; bias-T is switched on in the structure of the selected model and in no other, which leaves it
  off on the RSPdx models whatever the configuration says; a configured antenna is selected in the
  structure of an RSP2 or of the RSPdx models, and on other models, or when none is configured, both
  selections stay as they were.
\<close>

theorem configured_device:
  assumes "pl_sampleRateHz c = Fin s" and "representable binary64 s" and "2000000 \<le> s * 2 ^ 30"
    and "deviceParams c = Some (dp, rx)"
  shows "\<exists>n dp' rx'. configureInitialParams A (c, t) = (Some (Inr ()), c\<lparr>deviceParams := Some (dp', rx')\<rparr>, t) \<and>
    2000000 \<le> s * 2 ^ n \<and> fsHz dp' = Fin (s * 2 ^ n) \<and>
    dec_decimationFactor rx' = a_cast A ''decimationFactor'' (2 ^ n) \<and> dec_enable rx' = (if n = 0 then 0 else 1) \<and>
    rfHz rx' = pl_centerFrequencyHz c \<and> ifType rx' = a_cast A ''ifType'' 0 \<and> dp_ppm dp' = ppm (pl_cfg c) \<and>
    gRdB rx' = gainReductionDb (pl_cfg c) \<and> LNAstate rx' = a_cast A ''LNAstate'' (lnaState (pl_cfg c)) \<and>
    setPoint_dBfs rx' = agcSetPointDbfs (pl_cfg c) \<and>
    agc_enable rx' = a_cast A ''agc enable'' (if agc (pl_cfg c) then 4 else 0) \<and>
    rsp1a_biasTEnable rx' = (if biasT (pl_cfg c) \<and> hwVer (pl_device c) \<in> {kDeviceRsp1A, kDeviceRsp1B}
      then 1 else rsp1a_biasTEnable rx) \<and>
    rsp2_biasTEnable rx' = (if biasT (pl_cfg c) \<and> hwVer (pl_device c) = kDeviceRsp2
      then 1 else rsp2_biasTEnable rx) \<and>
    rspDuo_biasTEnable rx' = (if biasT (pl_cfg c) \<and> hwVer (pl_device c) = kDeviceRspDuo
      then 1 else rspDuo_biasTEnable rx) \<and>
    rspDx_biasTEnable dp' = rspDx_biasTEnable dp \<and>
    rsp2_antennaSel rx' = (case antenna (pl_cfg c) of
        Some ant \<Rightarrow> if hwVer (pl_device c) = kDeviceRsp2 then a_cast A ''rsp2 antennaSel'' ant else rsp2_antennaSel rx
      | None \<Rightarrow> rsp2_antennaSel rx) \<and>
    rspDx_antennaSel dp' = (case antenna (pl_cfg c) of
        Some ant \<Rightarrow> if hwVer (pl_device c) \<in> {kDeviceRspDx, kDeviceRspDxR2} then a_cast A ''rspDx antennaSel'' ant
          else rspDx_antennaSel dp
      | None \<Rightarrow> rspDx_antennaSel dp) \<and>
    bwType rx' = a_cast A ''bwType'' (bwTypeForSampleRate (pl_sampleRateHz c)) \<and>
    loMode rx' = a_cast A ''loMode'' kLoAuto \<and> minGr rx' = a_cast A ''minGr'' kMinGrNormal \<and>
    DCenable rx' = 1 \<and> IQenable rx' = 1 \<and> wideBandSignal rx' = 1"
proof -
  from decimation_rate [OF assms(2)] assms(3) obtain n where
    n: "decimationForSampleRate (Fin s) = Some (Inr (Fin (s * 2 ^ n), 2 ^ n))" "2000000 \<le> s * 2 ^ n" by auto
  obtain dp' rx' where p: "initial_params A c (Fin (s * 2 ^ n)) (2 ^ n) (dp, rx) = (dp', rx')" by fastforce
  have one: "1 < (2 :: int) ^ n \<longleftrightarrow> n \<noteq> 0" using one_less_power [of "2 :: int" n] by (cases "n = 0") auto
  have "configureInitialParams A (c, t) = (Some (Inr ()), c\<lparr>deviceParams := Some (dp', rx')\<rparr>, t)"
    using n(1) assms(1,4) p by (simp add: configureInitialParams_def with_params_def modifyp_def)
  moreover note n(2)
  moreover note f = initial_params_fields [OF p]
  moreover have "rsp1a_biasTEnable rx' = (if biasT (pl_cfg c) \<and> hwVer (pl_device c) \<in> {kDeviceRsp1A, kDeviceRsp1B}
      then 1 else rsp1a_biasTEnable rx)"
    "rsp2_biasTEnable rx' = (if biasT (pl_cfg c) \<and> hwVer (pl_device c) = kDeviceRsp2 then 1 else rsp2_biasTEnable rx)"
    "rspDuo_biasTEnable rx' = (if biasT (pl_cfg c) \<and> hwVer (pl_device c) = kDeviceRspDuo then 1 else rspDuo_biasTEnable rx)"
    unfolding f(12-14) applyBiasTField_def by (auto simp: rsp_consts)
  moreover note initial_params_antenna [OF p]
  moreover note initial_params_constants [OF p]
  ultimately show ?thesis
    by (intro exI [of _ n] exI [of _ dp'] exI [of _ rx']) (simp add: one kIfZero_def kAgcCtrlEn_def kAgcDisable_def)
qed

text \<open>An RSPdx whose configuration asks for bias-T and for antenna 2.\<close>

definition demo_rspdx :: sdrplay_client where
  "demo_rspdx = (new_sdrplay_client (default_sdrplay_config\<lparr>biasT := True, antenna := Some 2\<rparr>) (Fin 100) (Fin 500000))\<lparr>
     deviceSelected := True, pl_device := \<lparr>SerNo = [], hwVer = kDeviceRspDx, dv_tuner = 0, rspDuoMode = 0, dv_handle = Some 7\<rparr>,
     deviceParams := snd (a_params (demo_api 0))\<rparr>"

theorem configured_device_witness:
  "\<exists>c' dp' rx'. configureInitialParams (demo_api 0) (demo_rspdx, []) = (Some (Inr ()), c', []) \<and>
    deviceParams c' = Some (dp', rx') \<and> rspDx_biasTEnable dp' = 0 \<and> rsp1a_biasTEnable rx' = 0 \<and>
    rsp2_biasTEnable rx' = 0 \<and> rspDuo_biasTEnable rx' = 0 \<and> biasT (pl_cfg demo_rspdx) \<and>
    rspDx_antennaSel dp' = 2 \<and> rsp2_antennaSel rx' = 0"
proof -
  have r: "representable binary64 (of_int 500000)" by (rule b64.representable_int) (simp_all add: binary64_def)
  obtain dp rx where p: "deviceParams demo_rspdx = Some (dp, rx)" "rspDx_biasTEnable dp = 0"
    "rsp1a_biasTEnable rx = 0" "rsp2_biasTEnable rx = 0" "rspDuo_biasTEnable rx = 0" "rsp2_antennaSel rx = 0"
    by (simp add: demo_rspdx_def demo_api_def)
  have c: "pl_sampleRateHz demo_rspdx = Fin (of_int 500000)" "hwVer (pl_device demo_rspdx) = kDeviceRspDx"
    "biasT (pl_cfg demo_rspdx)" "antenna (pl_cfg demo_rspdx) = Some 2" "a_cast (demo_api 0) = (\<lambda>_ i. i)"
    by (simp_all add: demo_rspdx_def new_sdrplay_client_def demo_api_def)
  show ?thesis
    using configured_device [OF c(1) r _ p(1), of "demo_api 0" "[]"] p(2-) c(2-)
    by (auto simp: rsp_consts)
qed

section \<open>Changing settings while streaming\<close>

definition play_update :: "sdrplay_api \<Rightarrow> u32 \<Rightarrow> u32 \<Rightarrow> unit play" where
  "play_update A reason ext s =
     (if \<not> deviceSelected (fst s) then returnp () s
      else callp (CUpdate (dv_handle (pl_device (fst s))) (dv_tuner (pl_device (fst s))) reason ext)
             (a_update A reason ext) s)"

definition with_rx :: "(rx_params \<Rightarrow> rx_params) \<Rightarrow> unit play" where
  "with_rx f = with_params (\<lambda>p. (fst p, f (snd p)))"

definition play_retune :: "sdrplay_api \<Rightarrow> fp \<Rightarrow> unit play" where
  "play_retune A freqHz =
     bindp (with_rx (\<lambda>rx. rx\<lparr>rfHz := freqHz\<rparr>)) (\<lambda>_. play_update A kUpdateTunerFrf kUpdateExt1None)"

definition setGainReduction :: "sdrplay_api \<Rightarrow> int \<Rightarrow> unit play" where
  "setGainReduction A g =
     bindp (with_rx (\<lambda>rx. rx\<lparr>gRdB := g\<rparr>)) (\<lambda>_. play_update A kUpdateTunerGr kUpdateExt1None)"

definition setLnaState :: "sdrplay_api \<Rightarrow> int \<Rightarrow> unit play" where
  "setLnaState A st =
     bindp (with_rx (\<lambda>rx. rx\<lparr>LNAstate := a_cast A ''LNAstate'' st\<rparr>))
       (\<lambda>_. play_update A kUpdateTunerGr kUpdateExt1None)"

definition setAgc :: "sdrplay_api \<Rightarrow> bool \<Rightarrow> int option \<Rightarrow> unit play" where
  "setAgc A on setPointDbfs =
     bindp (with_rx (\<lambda>rx. rx\<lparr>agc_enable := a_cast A ''agc enable'' (if on then kAgcCtrlEn else kAgcDisable),
         setPoint_dBfs := (case setPointDbfs of None \<Rightarrow> setPoint_dBfs rx | Some v \<Rightarrow> v)\<rparr>))
       (\<lambda>_. play_update A kUpdateCtrlAgc kUpdateExt1None)"

definition setBiasTee :: "sdrplay_api \<Rightarrow> bool \<Rightarrow> unit play" where
  "setBiasTee A on s =
     (let hw = hwVer (pl_device (fst s)); v = (if on then 1 else 0) in
      if hw = kDeviceRspDx \<or> hw = kDeviceRspDxR2 then
        bindp (with_params (\<lambda>p. ((fst p)\<lparr>rspDx_biasTEnable := v\<rparr>, snd p)))
          (\<lambda>_. play_update A kUpdateNone kUpdateExt1RspDxBiasTControl) s
      else if hw = kDeviceRsp1A \<or> hw = kDeviceRsp1B then
        bindp (with_rx (\<lambda>rx. rx\<lparr>rsp1a_biasTEnable := v\<rparr>))
          (\<lambda>_. play_update A kUpdateRsp1aBiasTControl kUpdateExt1None) s
      else if hw = kDeviceRsp2 then
        bindp (with_rx (\<lambda>rx. rx\<lparr>rsp2_biasTEnable := v\<rparr>))
          (\<lambda>_. play_update A kUpdateRsp2BiasTControl kUpdateExt1None) s
      else if hw = kDeviceRspDuo then
        bindp (with_rx (\<lambda>rx. rx\<lparr>rspDuo_biasTEnable := v\<rparr>))
          (\<lambda>_. play_update A kUpdateRspDuoBiasTControl kUpdateExt1None) s
      else with_rx (\<lambda>rx. rx) s)"

section \<open>The stream and the events\<close>

text \<open>
  The loop of \<open>handleStream\<close> over the driver's buffers; \<open>None\<close> is a read or write outside a buffer.
\<close>

fun stream_loop :: "int list \<Rightarrow> int list \<Rightarrow> nat list \<Rightarrow> fp list \<Rightarrow> fp list option" where
  "stream_loop xi xq [] buf = Some buf"
| "stream_loop xi xq (i # is) buf =
     (if i < length xi \<and> i < length xq \<and> i * 2 + 1 < length buf then
        stream_loop xi xq is (buf[i * 2 := normalise16 (xi ! i), i * 2 + 1 := normalise16 (xq ! i)])
      else None)"

text \<open>
  \<open>handleStream\<close>: the scratch buffer afterwards, and the chunk given to the callback: the first
  \<open>2 * numSamples\<close> floats of the buffer, and the number of samples.
\<close>

definition handleStream :: "fp list \<Rightarrow> int list \<Rightarrow> int list \<Rightarrow> nat \<Rightarrow> (fp list \<times> (fp list \<times> nat)) option" where
  "handleStream sampleBuf xi xq numSamples =
     (let needed = numSamples * 2;
          buf = (if length sampleBuf < needed then sampleBuf @ replicate (needed - length sampleBuf) (Fin 0)
                 else sampleBuf)
      in map_option (\<lambda>buf'. (buf', take needed buf', numSamples)) (stream_loop xi xq [0..<numSamples] buf))"

datatype rsp_event = OverloadChanged bool | DeviceRemoved | DeviceFailed

text \<open>\<open>handleEvent\<close>: what it logs. The change type is only read for an overload event.\<close>

definition handleEvent :: "int \<Rightarrow> int \<Rightarrow> rsp_event option" where
  "handleEvent eventId changeType =
     (if eventId = kEventPowerOverloadChange then Some (OverloadChanged (changeType = kPowerOverloadDetected))
      else if eventId = kEventDeviceRemoved then Some DeviceRemoved
      else if eventId = kEventDeviceFailure then Some DeviceFailed
      else None)"

lemma length_stream_loop: "stream_loop xi xq is buf = Some b \<Longrightarrow> length b = length buf"
  by (induction xi xq "is" buf rule: stream_loop.induct) (auto split: if_splits)

lemma stream_loop_snoc: "stream_loop xi xq (is @ [i]) buf =
    (case stream_loop xi xq is buf of None \<Rightarrow> None | Some b \<Rightarrow> stream_loop xi xq [i] b)"
  by (induction xi xq "is" buf rule: stream_loop.induct) (auto split: option.splits)

lemma interleave16_snoc: "interleave16 (xs @ [(i, q)]) = interleave16 xs @ [normalise16 i, normalise16 q]"
  by (induction xs rule: interleave16.induct) simp_all

lemma stream_loop_prefix:
  assumes "k \<le> length xi" and "length xq = length xi" and "2 * k \<le> length buf"
  shows "\<exists>b. stream_loop xi xq [0..<k] buf = Some b \<and> take (2 * k) b = interleave16 (take k (zip xi xq))"
  using assms
proof (induction k)
  case (Suc k)
  then obtain b where b: "stream_loop xi xq [0..<k] buf = Some b" "take (2 * k) b = interleave16 (take k (zip xi xq))"
    by auto
  have l: "length b = length buf" by (rule length_stream_loop [OF b(1)])
  let ?b = "b[2 * k := normalise16 (xi ! k), 2 * k + 1 := normalise16 (xq ! k)]"
  have "stream_loop xi xq [0..<Suc k] buf = Some ?b"
    using Suc.prems b(1) l by (simp add: stream_loop_snoc mult.commute)
  moreover have "take (2 * Suc k) ?b = take (2 * k) b @ [normalise16 (xi ! k), normalise16 (xq ! k)]"
  proof -
    have "take (2 * Suc k) ?b = take (2 * k) ?b @ [?b ! (2 * k), ?b ! (2 * k + 1)]"
      using Suc.prems(3) l by (simp add: take_Suc_conv_app_nth)
    then show ?thesis using Suc.prems(3) l by (simp add: take_update_cancel)
  qed
  moreover have "take (Suc k) (zip xi xq) = take k (zip xi xq) @ [(xi ! k, xq ! k)]"
    using Suc.prems(1,2) by (simp add: take_Suc_conv_app_nth)
  ultimately show ?case using b(2) by (simp add: interleave16_snoc)
qed simp

definition driver_samples :: "int list \<times> int list \<Rightarrow> (int \<times> int) list" where
  "driver_samples m = zip (fst m) (snd m)"

definition driver_buffers :: "int list \<times> int list \<Rightarrow> bool" where
  "driver_buffers m \<longleftrightarrow> length (snd m) = length (fst m) \<and> (\<forall>s \<in> set (driver_samples m). raw16 s)"

lemma handleStream_chunk:
  assumes "driver_buffers m"
  shows "\<exists>buf'. handleStream buf (fst m) (snd m) (length (fst m)) =
    Some (buf', interleave16 (driver_samples m), length (driver_samples m))"
proof -
  let ?n = "length (fst m)"
  let ?buf = "if length buf < ?n * 2 then buf @ replicate (?n * 2 - length buf) (Fin 0) else buf"
  have l: "length (snd m) = ?n" using assms by (simp add: driver_buffers_def)
  have "2 * ?n \<le> length ?buf" by simp
  from stream_loop_prefix [OF le_refl l this] show ?thesis using l
    by (auto simp: handleStream_def driver_samples_def Let_def mult.commute)
qed

text \<open>The second source of the interface: whatever the scratch buffer holds, the chunk is that of the samples.\<close>

interpretation play: iq_source "\<lambda>m. map_option snd (handleStream buf (fst m) (snd m) (length (fst m)))"
    driver_samples driver_buffers for buf
proof unfold_locales
  fix m assume v: "driver_buffers m"
  obtain buf' where h: "handleStream buf (fst m) (snd m) (length (fst m)) =
      Some (buf', interleave16 (driver_samples m), length (driver_samples m))"
    using handleStream_chunk [OF v] by blast
  show "map_option snd (handleStream buf (fst m) (snd m) (length (fst m))) =
      Some (interleave16 (driver_samples m), length (driver_samples m))" by (simp add: h)
  show "driver_samples m = [] \<Longrightarrow> map_option snd (handleStream buf (fst m) (snd m) (length (fst m))) = None \<or>
      map_option snd (handleStream buf (fst m) (snd m) (length (fst m))) = Some ([], 0)" by (simp add: h)
  show "\<forall>s \<in> set (driver_samples m). raw16 s" using v by (simp add: driver_buffers_def)
qed

text \<open>
  The two backends are interchangeable: a block of samples from the driver's buffers and the
  same block received as an SDRconnect message give the receivers the same chunk, whatever the
  scratch buffer held before and whatever incomplete sample the message ends with.
\<close>

theorem backends_agree:
  assumes "length xq = length xi" and "\<forall>s \<in> set (zip xi xq). raw16 s" and "xi \<noteq> []" and "length tail < 4"
  shows "\<exists>buf' chunk. handleStream buf xi xq (length xi) = Some (buf', chunk) \<and>
    handleBinaryMessage (encode_iq (zip xi xq) @ tail) = Some chunk"
proof -
  have v: "driver_buffers (xi, xq)" using assms(1,2) by (simp add: driver_buffers_def driver_samples_def)
  have "zip xi xq \<noteq> []" using assms(1,3) by (cases xi; cases xq) auto
  from handleBinaryMessage_encoded [OF assms(2,4) this] handleStream_chunk [OF v, of buf] show ?thesis
    by (auto simp: driver_samples_def)
qed

theorem backends_agree_witness:
  "\<exists>buf' chunk. handleStream [] [1, -2] [3, 4] 2 = Some (buf', chunk) \<and>
    handleBinaryMessage (encode_iq [(1, 3), (-2, 4)] @ [9]) = Some chunk"
  using backends_agree [of "[3, 4]" "[1, -2]" "[9]" "[]"] by (simp add: raw16_def numeral_2_eq_2)

text \<open>
  Every setting made while a device is streaming changes its own field only and makes one \<open>Update\<close> call
  with the reason of that field; before \<open>connect\<close> and after \<open>close\<close> it would follow the null pointer.
\<close>

lemma settings_streaming:
  fixes A :: sdrplay_api and t :: "(api_call \<times> int) list"
  assumes "deviceSelected c" and "deviceParams c = Some (dp, rx)"
  defines "upd r reason ext \<equiv> (Some (Inr ()), c\<lparr>deviceParams := Some (dp, r)\<rparr>,
      t @ [(CUpdate (dv_handle (pl_device c)) (dv_tuner (pl_device c)) reason ext, a_update A reason ext)])"
  shows "play_retune A f (c, t) = upd (rx\<lparr>rfHz := f\<rparr>) kUpdateTunerFrf kUpdateExt1None"
    and "setGainReduction A g (c, t) = upd (rx\<lparr>gRdB := g\<rparr>) kUpdateTunerGr kUpdateExt1None"
    and "setLnaState A n (c, t) = upd (rx\<lparr>LNAstate := a_cast A ''LNAstate'' n\<rparr>) kUpdateTunerGr kUpdateExt1None"
    and "hwVer (pl_device c) = kDeviceRsp2 \<Longrightarrow> setBiasTee A on (c, t) =
      upd (rx\<lparr>rsp2_biasTEnable := (if on then 1 else 0)\<rparr>) kUpdateRsp2BiasTControl kUpdateExt1None"
    and "hwVer (pl_device c) = kDeviceRspDuo \<Longrightarrow> setBiasTee A on (c, t) =
      upd (rx\<lparr>rspDuo_biasTEnable := (if on then 1 else 0)\<rparr>) kUpdateRspDuoBiasTControl kUpdateExt1None"
  using assms(1,2)
  by (simp_all add: upd_def play_retune_def setGainReduction_def setLnaState_def setBiasTee_def with_rx_def
      with_params_def play_update_def play_defs Let_def kDeviceRsp2_def kDeviceRspDx_def kDeviceRspDxR2_def
      kDeviceRsp1A_def kDeviceRsp1B_def kDeviceRspDuo_def)

lemma settings_null_pointer:
  assumes "deviceParams c = None"
  shows "play_retune A f (c, t) = (Some (Inl UB), c, t)" and "setGainReduction A g (c, t) = (Some (Inl UB), c, t)"
    and "setLnaState A n (c, t) = (Some (Inl UB), c, t)" and "setAgc A on sp (c, t) = (Some (Inl UB), c, t)"
    and "setBiasTee A on (c, t) = (Some (Inl UB), c, t)"
  using assms
  by (simp_all add: play_retune_def setGainReduction_def setLnaState_def setAgc_def setBiasTee_def with_rx_def
      with_params_def bindp_def Let_def)

end
