(* ===== verification/MainProgram.thy ===== *)
theory MainProgram
  imports RtlTcp SpyServer SdrPlayClient "HOL-Library.Multiset"
begin

text \<open>
  \<open>src/main.cpp\<close>: the order in which the program loads its configuration, builds its receivers, starts its
  servers and its source, and takes them down again; the fan-out of each wideband chunk to the
  receivers; and the program as a whole, from the bytes of an SDRconnect connection to the bytes
  handed to the servers.
\<close>

section \<open>The fan-out\<close>

text \<open>The IQ callback \<open>main\<close> installs: every receiver, in order, gets the chunk.\<close>

fun fan_out :: "libm \<Rightarrow> vrx list \<Rightarrow> fp list \<Rightarrow> nat \<Rightarrow> ((callback \<times> bytes) list list \<times> vrx list) option" where
  "fan_out L [] iq n = Some ([], [])"
| "fan_out L (v # vs) iq n =
     (case processWidebandChunk L v iq n of
        None \<Rightarrow> None
      | Some (outs, v') \<Rightarrow>
          (case fan_out L vs iq n of
             None \<Rightarrow> None
           | Some (rest, vs') \<Rightarrow> Some (outs # rest, v' # vs')))"

text \<open>The callback as the sources see it, over the receivers and what they have handed out so far.\<close>

definition on_iq :: "libm \<Rightarrow> vrx list \<times> (callback \<times> bytes) list list list \<Rightarrow> fp list \<Rightarrow> nat \<Rightarrow>
    (vrx list \<times> (callback \<times> bytes) list list list) \<times> fault option" where
  "on_iq L st iq n = (case fan_out L (fst st) iq n of
       None \<Rightarrow> (st, Some UB)
     | Some (outs, vs') \<Rightarrow> ((vs', snd st @ [outs]), None))"

text \<open>What one receiver hands out for a chunk of \<open>n\<close> samples.\<close>

definition round_ok :: "vrx \<Rightarrow> nat \<Rightarrow> (callback \<times> bytes) list \<Rightarrow> bool" where
  "round_ok v n outs \<longleftrightarrow> (\<exists>bs. outs = (if bs = [] then [] else map (\<lambda>cb. (cb, bs)) (callbacks v)) \<and>
     length bs = 2 * (n div nat (decimationFactor v)) \<and> (\<forall>b \<in> set bs. 1 \<le> unat b))"

text \<open>What of a receiver the samples never change.\<close>

definition kept :: "vrx \<Rightarrow> callback list \<times> int \<times> fp" where
  "kept v = (callbacks v, decimationFactor v, vr_centerFrequencyHz v)"

lemma processWidebandChunk_factor:
  "processWidebandChunk L v iq n = Some (outs, v') \<Longrightarrow> decimationFactor v' = decimationFactor v"
  by (auto simp: processWidebandChunk_def Let_def split: if_splits option.splits)

lemma fan_out_total:
  assumes "\<forall>v \<in> set vs. vrx_inv v" and "length iq = 2 * n"
  shows "\<exists>outs vs'. fan_out L vs iq n = Some (outs, vs') \<and> (\<forall>v \<in> set vs'. vrx_inv v) \<and>
    map kept vs' = map kept vs \<and> list_all2 (\<lambda>v o1. round_ok v n o1) vs outs"
  using assms(1)
proof (induction vs)
  case (Cons v vs)
  then obtain outs vs' where r: "fan_out L vs iq n = Some (outs, vs')" "\<forall>v \<in> set vs'. vrx_inv v"
    "map kept vs' = map kept vs" "list_all2 (\<lambda>v o1. round_ok v n o1) vs outs" by auto
  have "vrx_inv v" using Cons.prems by simp
  from processWidebandChunk_total [OF this assms(2), of L] obtain bs v' where
    p: "processWidebandChunk L v iq n = Some (if bs = [] then [] else map (\<lambda>cb. (cb, bs)) (callbacks v), v')"
      "length bs = 2 * (n div nat (decimationFactor v))" "\<forall>b \<in> set bs. 1 \<le> unat b"
      "vrx_inv v'" "vr_centerFrequencyHz v' = vr_centerFrequencyHz v" "callbacks v' = callbacks v" by blast
  have o: "round_ok v n (if bs = [] then [] else map (\<lambda>cb. (cb, bs)) (callbacks v))"
    unfolding round_ok_def using p(2,3) by blast
  have "kept v' = kept v" using p(5,6) processWidebandChunk_factor [OF p(1)] by (simp add: kept_def)
  with r p(1,4) o show ?case by simp
qed simp

lemma round_ok_kept: "kept v = kept w \<Longrightarrow> round_ok v = round_ok w"
  by (intro ext) (simp add: round_ok_def kept_def)

section \<open>From the network to the clients\<close>

text \<open>The rounds of a whole stream: one per block, each with one entry per receiver.\<close>

definition rounds_ok :: "vrx list \<Rightarrow> nat list \<Rightarrow> (callback \<times> bytes) list list list \<Rightarrow> bool" where
  "rounds_ok vs ns rounds \<longleftrightarrow>
     list_all2 (\<lambda>n outs. list_all2 (\<lambda>v o1. round_ok v n o1) vs outs) ns rounds"

lemma rounds_ok_snoc: "rounds_ok vs ns rs \<Longrightarrow> list_all2 (\<lambda>v o1. round_ok v n o1) vs r \<Longrightarrow>
    rounds_ok vs (ns @ [n]) (rs @ [r])"
  by (auto simp: rounds_ok_def intro: list_all2_appendI)

lemma list_all2_round_kept:
  assumes "map kept vs = map kept ws"
  shows "list_all2 (\<lambda>v o1. round_ok v n o1) vs outs \<longleftrightarrow> list_all2 (\<lambda>v o1. round_ok v n o1) ws outs"
proof -
  have k: "length vs = length ws" using map_eq_imp_length_eq [OF assms] .
  then have "round_ok (vs ! i) = round_ok (ws ! i)" if "i < length ws" for i
    using that assms round_ok_kept by (metis nth_map)
  with k show ?thesis by (auto simp: list_all2_conv_all_nth)
qed

text \<open>The state of the callback after some blocks of a stream.\<close>

definition fan_inv :: "vrx list \<Rightarrow> vrx list \<times> (callback \<times> bytes) list list list \<Rightarrow> bool" where
  "fan_inv vs st \<longleftrightarrow> (\<forall>v \<in> set (fst st). vrx_inv v) \<and> map kept (fst st) = map kept vs"

lemma on_iq_total:
  assumes "fan_inv vs st" and "length iq = 2 * n"
  shows "\<exists>vs' outs. on_iq L st iq n = ((vs', snd st @ [outs]), None) \<and> fan_inv vs (vs', snd st @ [outs]) \<and>
    list_all2 (\<lambda>v o1. round_ok v n o1) vs outs"
proof -
  from fan_out_total [of "fst st" iq n L] assms obtain outs vs' where
    "fan_out L (fst st) iq n = Some (outs, vs')" "\<forall>v \<in> set vs'. vrx_inv v"
    "map kept vs' = map kept (fst st)" "list_all2 (\<lambda>v o1. round_ok v n o1) (fst st) outs"
    by (auto simp: fan_inv_def)
  moreover from this(4) have "list_all2 (\<lambda>v o1. round_ok v n o1) vs outs"
    using assms(1) list_all2_round_kept [of "fst st" vs] by (simp add: fan_inv_def)
  ultimately show ?thesis using assms(1) by (simp add: on_iq_def fan_inv_def)
qed

lemma blocks_rounds:
  assumes "fan_inv vs st"
  shows "\<exists>vs' rounds. foldl (\<lambda>a b. fst (on_iq L a (interleave16 (fst b)) (length (fst b)))) st blocks =
      (vs', snd st @ rounds) \<and> fan_inv vs (vs', snd st @ rounds) \<and>
      rounds_ok vs (map (\<lambda>b. length (fst b)) blocks) rounds"
proof (induction blocks rule: rev_induct)
  case Nil
  then show ?case using assms by (intro exI [of _ "fst st"] exI [of _ "[]"]) (simp add: rounds_ok_def)
next
  case (snoc b bs)
  then obtain vs1 rounds where r: "foldl (\<lambda>a b. fst (on_iq L a (interleave16 (fst b)) (length (fst b)))) st bs =
      (vs1, snd st @ rounds)" "fan_inv vs (vs1, snd st @ rounds)"
    "rounds_ok vs (map (\<lambda>b. length (fst b)) bs) rounds" by blast
  have "length (interleave16 (fst b)) = 2 * length (fst b)" by simp
  from on_iq_total [OF r(2) this, of L] obtain vs2 outs where
    o: "on_iq L (vs1, snd st @ rounds) (interleave16 (fst b)) (length (fst b)) = ((vs2, (snd st @ rounds) @ [outs]), None)"
      "fan_inv vs (vs2, (snd st @ rounds) @ [outs])" "list_all2 (\<lambda>v o1. round_ok v (length (fst b)) o1) vs outs"
    by auto
  show ?case
    using r(1,3) o by (intro exI [of _ vs2] exI [of _ "rounds @ [outs]"]) (simp add: rounds_ok_snoc)
qed

text \<open>
  Property C2: end to end on the network backend. While an SDRconnect server streams blocks of samples, in
  any fragmentation and chunking and with control frames in between, the read thread never throws
  and never reads or writes outside a buffer; every receiver hands every block, in order, to each of
  its endpoints once, as \<open>2 * (n div D)\<close> non-zero bytes, and keeps its tuning, callbacks and invariant.
\<close>

theorem network_to_endpoints:
  assumes "\<forall>v \<in> set vs. vrx_inv v" and "\<forall>b \<in> set blocks. block_message b"
    and "\<forall>g \<in> set fs. valid_ws None g \<and> fr_opcode g \<noteq> 8"
    and "filter is_data fs = concat (map (\<lambda>b. msg_frames 2 (snd b)) blocks)"
    and "concat (chunk # chunks) = concat (map enc_ws fs)" and "pendingBytes c = []"
  shows "\<exists>r vs' rounds. fst (runReadLoop (sdr_callbacks Y (Some (on_iq L))) ([], vs, []) c (chunk # chunks)) = (r, [], None) \<and>
    rd_app r = ([], vs', rounds) \<and> rounds_ok vs (map (\<lambda>b. length (fst b)) blocks) rounds \<and>
    (\<forall>v \<in> set vs'. vrx_inv v) \<and> map kept vs' = map kept vs"
proof -
  have i: "fan_inv vs (vs, [])" using assms(1) by (simp add: fan_inv_def)
  have step: "\<exists>a'. on_iq L a (interleave16 (fst b)) (length (fst b)) = (a', None) \<and> fan_inv vs a'"
    if "fan_inv vs a" "b \<in> set blocks" for a b
    using on_iq_total [OF that(1), of "interleave16 (fst b)" "length (fst b)" L] by auto
  from blocks_delivered [where f = "on_iq L" and I = "fan_inv vs" and Y = Y, OF assms(2) step i assms(3-6)] obtain r where
    r: "fst (runReadLoop (sdr_callbacks Y (Some (on_iq L))) ([], vs, []) c (chunk # chunks)) = (r, [], None)"
      "rd_app r = ([], foldl (\<lambda>a b. fst (on_iq L a (interleave16 (fst b)) (length (fst b)))) (vs, []) blocks)"
    by auto
  from blocks_rounds [OF i, of L blocks] obtain vs' rounds where
    "foldl (\<lambda>a b. fst (on_iq L a (interleave16 (fst b)) (length (fst b)))) (vs, []) blocks = (vs', rounds)"
    "fan_inv vs (vs', rounds)" "rounds_ok vs (map (\<lambda>b. length (fst b)) blocks) rounds" by auto
  with r show ?thesis by (auto simp: fan_inv_def)
qed

lemma length_encode_iq: "length (encode_iq xs) = 2 + 4 * length xs"
  by (induction xs) (auto simp: encode_iq_def le16_def Let_def)

theorem network_to_endpoints_witness:
  "\<exists>r vs' rounds. fst (runReadLoop (sdr_callbacks (tree_yaml (YMap [])) (Some (on_iq demo_libm)))
      ([], [demo_vrx], []) \<lparr>ws_fd = 5, pendingBytes = []\<rparr>
      [enc_ws \<lparr>fr_fin = True, fr_opcode = 2, fr_payload = encode_iq (replicate 5 (3, -4))\<rparr>]) = (r, [], None) \<and>
    rd_app r = ([], vs', rounds) \<and> rounds_ok [demo_vrx] [5] rounds"
proof -
  let ?xs = "replicate 5 (3, -4) :: (int \<times> int) list"
  let ?b = "(?xs, [encode_iq ?xs])" and ?f = "\<lparr>fr_fin = True, fr_opcode = 2, fr_payload = encode_iq ?xs\<rparr>"
  have l: "length (encode_iq ?xs) = 22" by (simp add: length_encode_iq)
  have v: "\<forall>v \<in> set [demo_vrx]. vrx_inv v" by (simp add: demo_vrx_inv)
  have b: "\<forall>b \<in> set [?b]. block_message b" by (auto simp: block_message_def raw16_def)
  have g: "\<forall>g \<in> set [?f]. valid_ws None g \<and> fr_opcode g \<noteq> 8" using l by (simp add: max_vector_def)
  have d: "filter is_data [?f] = concat (map (\<lambda>b. msg_frames 2 (snd b)) [?b])" by (simp add: is_data_def)
  have c: "concat [enc_ws ?f] = concat (map enc_ws [?f])" by simp
  have p: "pendingBytes \<lparr>ws_fd = 5, pendingBytes = []\<rparr> = []" by simp
  from network_to_endpoints [OF v b g d c p, of "tree_yaml (YMap [])" demo_libm] show ?thesis by auto
qed

section \<open>Starting and stopping the servers\<close>

text \<open>What the program does to the outside, in order.\<close>

datatype main_event =
    ServerSocket int            \<comment> \<open>a server's \<open>socket()\<close> returned this descriptor\<close>
  | ServerOp sock_op
  | ApiCall api_call int
  | NetSent bytes
  | SourceOp sock_op

text \<open>
  Starting the servers of a list of receivers one after the other; \<open>has\<close> tells which ports get a server.
  The first that throws ends the loop; the others stay as they were built.
\<close>

type_synonym starter = "listen_os \<Rightarrow> u16 \<Rightarrow> listener \<Rightarrow> vrx \<Rightarrow> exn option \<times> sock_op list \<times> listener \<times> vrx"

fun start_servers :: "starter \<Rightarrow> (u16 \<Rightarrow> bool) \<Rightarrow> (nat \<Rightarrow> listen_os) \<Rightarrow> nat \<Rightarrow> (u16 \<times> vrx) list \<Rightarrow>
    exn option \<times> main_event list \<times> listener list \<times> vrx list" where
  "start_servers st has os i [] = (None, [], [], [])"
| "start_servers st has os i ((p, v) # rest) =
     (if \<not> has p then (case start_servers st has os i rest of (e, evs, ls, vs) \<Rightarrow> (e, evs, ls, v # vs))
      else
        let opened_fd = (if 0 \<le> os_socket (os i) then [ServerSocket (os_socket (os i))] else []) in
        case st (os i) p new_listener v of
          (Some e, ops, l, v') \<Rightarrow> (Some e, opened_fd @ map ServerOp ops,
             l # map (\<lambda>_. new_listener) (filter (\<lambda>pv. has (fst pv)) rest), v' # map snd rest)
        | (None, ops, l, v') \<Rightarrow>
            (case start_servers st has os (Suc i) rest of
               (e, evs, ls, vs) \<Rightarrow> (e, opened_fd @ map ServerOp ops @ evs, l # ls, v' # vs)))"

text \<open>\<open>for (auto& server : servers) server->stop()\<close>, with the clients registered at that moment.\<close>

fun stop_servers :: "(nat \<Rightarrow> int list) \<Rightarrow> nat \<Rightarrow> listener list \<Rightarrow> main_event list \<times> listener list" where
  "stop_servers cs i [] = ([], [])"
| "stop_servers cs i (l # ls) =
     (case stop_listener (cs i) l of (ops, l') \<Rightarrow>
       case stop_servers cs (Suc i) ls of (evs, ls') \<Rightarrow> (map ServerOp ops @ evs, l' # ls'))"

section \<open>The source\<close>

text \<open>The backend the configuration selects; for the network one, whether its read thread was started.\<close>

datatype source = ApiSource sdrplay_client | NetSource sdrconnect_client ws_conn bool

record 'n main_env =
  e_yaml :: "'n yaml"
  e_libm :: libm
  e_rtl_os :: "nat \<Rightarrow> listen_os"
  e_spy_os :: "nat \<Rightarrow> listen_os"
  e_rtl_clients :: "nat \<Rightarrow> int list"
  e_spy_clients :: "nat \<Rightarrow> int list"
  e_api :: sdrplay_api
  e_ws :: connect_os
  e_ws_sends :: "(bytes \<times> int list) list"
  e_close_mask :: bytes
  e_close_results :: "int list"
  e_signalled :: bool

definition make_source :: "app_config \<Rightarrow> source outcome" where
  "make_source cfg = (case connection cfg of
       Api \<Rightarrow> Inr (ApiSource (new_sdrplay_client (sdrplay cfg) (centerFrequencyHz cfg) (sampleRateHz cfg)))
     | SdrConnect \<Rightarrow> (case sdrconnect cfg of
           None \<Rightarrow> Inl UB
         | Some conn \<Rightarrow> Inr (NetSource \<lparr>sc_centerFrequencyHz = centerFrequencyHz cfg, sc_sampleRateHz = sampleRateHz cfg,
             sc_deviceCfg = sdrplay cfg, sc_connCfg = conn\<rparr> \<lparr>ws_fd = -1, pendingBytes = []\<rparr> False)))"

definition api_events :: "(api_call \<times> int) list \<Rightarrow> main_event list" where
  "api_events t = map (\<lambda>(call, err). ApiCall call err) t"

fun source_connect :: "'n main_env \<Rightarrow> source \<Rightarrow> unit outcome option \<times> main_event list \<times> source" where
  "source_connect E (ApiSource c) =
     (case play_connect (e_api E) (c, []) of (r, c', t) \<Rightarrow> (r, api_events t, ApiSource c'))"
| "source_connect E (NetSource c ws thr) =
     (case sdr_connect (e_ws E) (e_ws_sends E) c ws of
        (r, sent, ws') \<Rightarrow> (r, [NetSent sent], NetSource c ws' (r = Some (Inr ()))))"

text \<open>
  \<open>close\<close>: the network client shuts its socket down, and its read thread, which owns the descriptor, closes
  it before it is joined.
\<close>

fun source_close :: "'n main_env \<Rightarrow> source \<Rightarrow> main_event list \<times> source" where
  "source_close E (ApiSource c) =
     (case play_close (e_api E) (c, []) of (_, c', t) \<Rightarrow> (api_events t, ApiSource c'))"
| "source_close E (NetSource c ws thr) =
     (case ws_close (e_close_mask E) (e_close_results E) ws of
        (sent, ops) \<Rightarrow>
          ([NetSent sent] @ map SourceOp ops @ (if thr \<and> 0 \<le> ws_fd ws then [SourceOp (Close (ws_fd ws))] else []),
           NetSource c (if thr then ws\<lparr>ws_fd := -1\<rparr> else ws) False))"

text \<open>The destructor of the source: \<open>close\<close>, then the destructor of the WebSocket.\<close>

definition source_destroy :: "'n main_env \<Rightarrow> source \<Rightarrow> main_event list" where
  "source_destroy E src = (case source_close E src of
       (evs, NetSource c ws thr) \<Rightarrow> evs @ (if 0 \<le> ws_fd ws then [SourceOp (Close (ws_fd ws))] else [])
     | (evs, _) \<Rightarrow> evs)"

section \<open>\<open>main\<close>\<close>

datatype ending = ExitCode int | Uncaught exn | Undefined | Blocked | StillRunning

text \<open>The statements of the second \<open>try\<close> block.\<close>

definition start_all :: "'n main_env \<Rightarrow> app_config \<Rightarrow> source \<Rightarrow> vrx list \<Rightarrow>
    unit outcome option \<times> main_event list \<times> listener list \<times> listener list \<times> vrx list \<times> source" where
  "start_all E cfg src vrxs =
     (case start_servers rtl_start (\<lambda>_. True) (e_rtl_os E) 0 (zip (map tcpPort (virtualReceivers cfg)) vrxs) of
        (Some e, evs, ls, vs) \<Rightarrow> (Some (Inl (Throw e)), evs, ls,
           map (\<lambda>_. new_listener) (filter (\<lambda>p. p \<noteq> 0) (map spyserverPort (virtualReceivers cfg))), vs, src)
      | (None, evs, ls, vs) \<Rightarrow>
          (case start_servers spy_start (\<lambda>p. p \<noteq> 0) (e_spy_os E) 0 (zip (map spyserverPort (virtualReceivers cfg)) vs) of
             (Some e, evs', sls, vs') \<Rightarrow> (Some (Inl (Throw e)), evs @ evs', ls, sls, vs', src)
           | (None, evs', sls, vs') \<Rightarrow>
               (case source_connect E src of (r, evs'', src') \<Rightarrow> (r, evs @ evs' @ evs'', ls, sls, vs', src'))))"

text \<open>
  The end of \<open>main\<close>: the servers are stopped in order, the source is closed (on a normal end only), and the
  destructors run in the reverse order of the declarations, each server's \<open>stop\<close> once more.
\<close>

definition shut_down :: "'n main_env \<Rightarrow> bool \<Rightarrow> listener list \<Rightarrow> listener list \<Rightarrow> source \<Rightarrow> main_event list" where
  "shut_down E normal ls sls src =
     (case stop_servers (e_rtl_clients E) 0 ls of (evs1, ls1) \<Rightarrow>
      case stop_servers (e_spy_clients E) 0 sls of (evs2, sls1) \<Rightarrow>
      case (if normal then source_close E src else ([], src)) of (evs3, src1) \<Rightarrow>
        evs1 @ evs2 @ evs3 @ fst (stop_servers (e_spy_clients E) 0 sls1) @
        fst (stop_servers (e_rtl_clients E) 0 ls1) @ source_destroy E src1)"

definition main_program :: "'n main_env \<Rightarrow> string option \<Rightarrow> ending \<times> main_event list" where
  "main_program E arg =
     (case loadConfig (e_yaml E) (case arg of None \<Rightarrow> ''config.yaml'' | Some path \<Rightarrow> path) of
        Inl (Throw e) \<Rightarrow> (ExitCode 1, [])
      | Inl UB \<Rightarrow> (Undefined, [])
      | Inr cfg \<Rightarrow>
          (case make_source cfg of
             Inl _ \<Rightarrow> (Undefined, [])
           | Inr src \<Rightarrow>
               (case mapr (\<lambda>vc. mk_vrx (e_libm E) vc (centerFrequencyHz cfg) (sampleRateHz cfg)) (virtualReceivers cfg) of
                  Inl (Throw e) \<Rightarrow> (Uncaught e, [])
                | Inl UB \<Rightarrow> (Undefined, [])
                | Inr vrxs \<Rightarrow>
                    (case start_all E cfg src vrxs of
                       (None, evs, _) \<Rightarrow> (Blocked, evs)
                     | (Some (Inl (Throw e)), evs, ls, sls, _, src') \<Rightarrow> (ExitCode 1, evs @ shut_down E False ls sls src')
                     | (Some (Inl UB), evs, _) \<Rightarrow> (Undefined, evs)
                     | (Some (Inr _), evs, ls, sls, _, src') \<Rightarrow>
                         if e_signalled E then (ExitCode 0, evs @ shut_down E True ls sls src')
                         else (StillRunning, evs)))))"

section \<open>What is opened is closed\<close>

definition opened_sockets :: "main_event list \<Rightarrow> int list" where
  "opened_sockets evs = concat (map (\<lambda>e. case e of ServerSocket fd \<Rightarrow> [fd] | _ \<Rightarrow> []) evs)"

definition closed_sockets :: "main_event list \<Rightarrow> int list" where
  "closed_sockets evs = concat (map (\<lambda>e. case e of ServerOp (Close fd) \<Rightarrow> [fd] | _ \<Rightarrow> []) evs)"

definition api_trace :: "main_event list \<Rightarrow> (api_call \<times> int) list" where
  "api_trace evs = concat (map (\<lambda>e. case e of ApiCall call err \<Rightarrow> [(call, err)] | _ \<Rightarrow> []) evs)"

lemma event_lists [simp]:
  "opened_sockets (xs @ ys) = opened_sockets xs @ opened_sockets ys"
  "closed_sockets (xs @ ys) = closed_sockets xs @ closed_sockets ys"
  "api_trace (xs @ ys) = api_trace xs @ api_trace ys"
  "opened_sockets [] = []" "closed_sockets [] = []" "api_trace [] = []"
  "opened_sockets (map ServerOp ops) = []" "api_trace (map ServerOp ops) = []"
  "opened_sockets (api_events t) = []" "closed_sockets (api_events t) = []" "api_trace (api_events t) = t"
  "opened_sockets (ServerSocket fd # evs) = fd # opened_sockets evs"
  "closed_sockets (ServerSocket fd # evs) = closed_sockets evs" "api_trace (ServerSocket fd # evs) = api_trace evs"
  "opened_sockets (NetSent bs # evs) = opened_sockets evs" "closed_sockets (NetSent bs # evs) = closed_sockets evs"
  "api_trace (NetSent bs # evs) = api_trace evs"
  "opened_sockets (SourceOp x # evs) = opened_sockets evs" "closed_sockets (SourceOp x # evs) = closed_sockets evs"
  "api_trace (SourceOp x # evs) = api_trace evs"
  "opened_sockets (map SourceOp ops) = []" "closed_sockets (map SourceOp ops) = []" "api_trace (map SourceOp ops) = []"
  by (simp_all add: opened_sockets_def closed_sockets_def api_trace_def api_events_def comp_def split_def)

lemma closed_server_ops: "closed_sockets (map ServerOp ops) = concat (map (\<lambda>x. case x of Close fd \<Rightarrow> [fd] | _ \<Rightarrow> []) ops)"
  by (simp add: closed_sockets_def comp_def)

text \<open>The two kinds of server start alike: they differ in the callback they register.\<close>

locale startable =
  fixes st :: starter and cb :: callback
  assumes starts: "st os p l v = (case start_listener os p l of
      (Some e, ops, l') \<Rightarrow> (Some e, ops, l', v) | (None, ops, l') \<Rightarrow> (None, ops, l', addIqCallback v cb))"
begin

lemma start_servers_balance:
  assumes "start_servers st has os i pvs = (e, evs, ls, vs)"
  shows "mset (opened_sockets evs) = mset (closed_sockets evs) + mset (map listenFd (filter running ls)) \<and>
    (\<forall>l \<in> set ls. running l \<longrightarrow> 0 \<le> listenFd l) \<and> api_trace evs = [] \<and> length vs = length pvs"
  using assms
proof (induction pvs arbitrary: i e evs ls vs)
  case (Cons pv rest)
  obtain p v where pv: "pv = (p, v)" by fastforce
  show ?case
  proof (cases "has p")
    case False
    obtain e1 evs1 ls1 vs1 where r: "start_servers st has os i rest = (e1, evs1, ls1, vs1)" by (rule prod_cases4)
    from Cons.IH [OF r] Cons.prems False r show ?thesis by (auto simp: pv)
  next
    case True
    obtain e1 ops l where a: "start_listener (os i) p new_listener = (e1, ops, l)" by (rule prod_cases3)
    show ?thesis
    proof (cases e1)
      case None
      obtain e2 evs1 ls1 vs1 where r: "start_servers st has os (Suc i) rest = (e2, evs1, ls1, vs1)" by (rule prod_cases4)
      have "ops = []" "running l" "listenFd l = os_socket (os i)" "0 \<le> os_socket (os i)"
        using a None by (auto simp: start_listener_def Let_def split: if_splits)
      with Cons.IH [OF r] Cons.prems True r a None show ?thesis by (auto simp: pv starts [of "os i" p] Let_def)
    next
      case (Some x)
      have "\<not> running l" "ops = (if 0 \<le> os_socket (os i) then [Close (os_socket (os i))] else [])"
        using a Some by (auto simp: start_listener_def Let_def new_listener_def split: if_splits)
      moreover have "\<not> running new_listener" by (simp add: new_listener_def)
      ultimately show ?thesis using Cons.prems True a Some
        by (auto simp: pv starts [of "os i" p] Let_def closed_server_ops filter_empty_conv)
    qed
  qed
qed simp

text \<open>When all start, every receiver that gets a server has its callback registered after the others.\<close>

lemma start_servers_callbacks:
  "start_servers st has os i pvs = (None, evs, ls, vs) \<Longrightarrow>
    vs = map (\<lambda>(p, v). if has p then addIqCallback v cb else v) pvs"
proof (induction pvs arbitrary: i evs ls vs)
  case (Cons pv rest)
  obtain p v where pv: "pv = (p, v)" by fastforce
  obtain e1 ops l where a: "start_listener (os i) p new_listener = (e1, ops, l)" by (rule prod_cases3)
  show ?case using Cons.prems Cons.IH a
    by (cases e1) (auto simp: pv starts [of "os i" p] Let_def split: if_splits prod.splits)
qed simp

end

interpretation rtl_start: startable rtl_start RtlTcpBroadcast
  by unfold_locales (simp add: rtl_start_def)

interpretation spy_start: startable spy_start SpyServerBroadcast
  by unfold_locales (simp add: spy_start_def)

lemma stop_servers_closes:
  assumes "stop_servers cs i ls = (evs, ls')" and "\<forall>l \<in> set ls. running l \<longrightarrow> 0 \<le> listenFd l"
  shows "opened_sockets evs = [] \<and> closed_sockets evs = map listenFd (filter running ls) \<and>
    api_trace evs = [] \<and> (\<forall>l \<in> set ls'. \<not> running l)"
  using assms
proof (induction ls arbitrary: i evs ls')
  case (Cons l ls)
  obtain ops l1 where a: "stop_listener (cs i) l = (ops, l1)" by fastforce
  obtain evs1 ls1 where b: "stop_servers cs (Suc i) ls = (evs1, ls1)" by fastforce
  have "\<not> running l1 \<and> concat (map (\<lambda>x. case x of Close fd \<Rightarrow> [fd] | _ \<Rightarrow> []) ops) = (if running l then [listenFd l] else [])"
    using a Cons.prems(2) by (auto simp: stop_listener_def Let_def comp_def split: if_splits)
  with a b Cons show ?case by (auto simp: closed_server_ops)
qed simp

lemma stop_servers_stopped: "\<forall>l \<in> set ls. \<not> running l \<Longrightarrow> stop_servers cs i ls = ([], ls)"
  by (induction ls arbitrary: i) (simp_all add: stop_listener_def)

text \<open>The source opens and closes no server socket.\<close>

lemma source_events:
  "opened_sockets (fst (snd (source_connect E src))) = []" "closed_sockets (fst (snd (source_connect E src))) = []"
  "opened_sockets (fst (source_close E src)) = []" "closed_sockets (fst (source_close E src)) = []"
  "opened_sockets (source_destroy E src) = []" "closed_sockets (source_destroy E src) = []"
  by (cases src; auto simp: source_destroy_def split: prod.split source.split)+

lemma play_close_trace: "play_close A (c, t) =
    (case play_close A (c, []) of (r, c', u) \<Rightarrow> (r, c', t @ u))"
  by (auto simp: play_close_def play_defs)

lemma play_close_closed: "\<not> opened c \<Longrightarrow> play_close A (c, t) = (Some (Inr ()), c, t)"
  by (simp add: play_close_def play_defs)

text \<open>What the calls to the vendor's API leave acquired, for a source built by \<open>make_source\<close>.\<close>

fun fresh_source :: "source \<Rightarrow> bool" where
  "fresh_source (ApiSource c) \<longleftrightarrow> \<not> opened c \<and> \<not> deviceSelected c \<and> \<not> initialized c"
| "fresh_source (NetSource c ws thr) \<longleftrightarrow> True"

lemma make_source_fresh: "make_source cfg = Inr src \<Longrightarrow> fresh_source src"
  by (auto simp: make_source_def new_sdrplay_client_def split: connection_mode.splits option.splits)

lemma fresh_source_destroy: "fresh_source src \<Longrightarrow> api_trace (source_destroy E src) = []"
  by (cases src) (auto simp: source_destroy_def play_close_closed split: prod.split)

text \<open>
  A trace of calls in which each acquired resource was given back by one call: what is still acquired is the API
  lock, if it was never given back, and what the service refused to release.
\<close>

definition settled :: "sdrplay_api \<Rightarrow> (api_call \<times> int) list \<Rightarrow> bool" where
  "settled A t \<longleftrightarrow> held t = left_over A t \<and> released_once t"

lemma settled_none [simp]: "settled A []"
  by (simp add: settled_def)

lemma source_api:
  assumes "select_gives_handle (e_api E)" and "fresh_source src" and "source_connect E src = (r, evs, src')"
  shows "(r = Some (Inl (Throw e)) \<longrightarrow> fresh_source src' \<and> settled (e_api E) (api_trace evs)) \<and>
    (r = Some (Inr ()) \<longrightarrow> fresh_source (snd (source_close E src')) \<and>
       settled (e_api E) (api_trace (evs @ fst (source_close E src'))) \<and>
       \<not> lock_kept (api_trace (evs @ fst (source_close E src'))))"
proof (cases src)
  case (NetSource c ws thr)
  then show ?thesis using assms(3) by (auto split: prod.splits if_splits)
next
  case (ApiSource c)
  then obtain c' t where p: "play_connect (e_api E) (c, []) = (r, c', t)" "evs = api_events t" "src' = ApiSource c'"
    using assms(3) by (auto split: prod.splits)
  have f: "\<not> opened c" "\<not> deviceSelected c" "\<not> initialized c" using assms(2) ApiSource by simp_all
  note o = play_connect_outcome [OF assms(1) f]
  have "fresh_source src' \<and> settled (e_api E) (api_trace evs)" if "r = Some (Inl (Throw e))"
    using o p that by (auto simp: settled_def)
  moreover have "fresh_source (snd (source_close E src')) \<and>
      settled (e_api E) (api_trace (evs @ fst (source_close E src'))) \<and>
      \<not> lock_kept (api_trace (evs @ fst (source_close E src')))"
    if "r = Some (Inr ())"
  proof -
    from o p that obtain serial where
      "reached [COpen, CLock, CGetDevices, CSelectDevice serial, CUnlock, CGetDeviceParams, CInit] True True (c', t)" by auto
    note h = reached_all_held(1,2) [OF this] reached_all_held(5-7) [OF this, of "e_api E"]
    have "play_close (e_api E) (c', []) = (Some (Inr ()), released c', closing_calls (e_api E) c')"
      using play_close_eval [OF h(1,2), of "e_api E"] play_close_trace [of "e_api E" c' t]
      by (auto split: prod.splits)
    then show ?thesis using h p by (simp add: released_def settled_def)
  qed
  ultimately show ?thesis by blast
qed

lemma start_all_balance:
  assumes "select_gives_handle (e_api E)" and "fresh_source src"
    and "start_all E cfg src vrxs = (r, evs, ls, sls, vs, src')"
  shows "mset (opened_sockets evs) = mset (closed_sockets evs) + mset (map listenFd (filter running (ls @ sls))) \<and>
    (\<forall>l \<in> set (ls @ sls). running l \<longrightarrow> 0 \<le> listenFd l) \<and>
    (r = Some (Inl (Throw e)) \<longrightarrow> fresh_source src' \<and> settled (e_api E) (api_trace evs)) \<and>
    (r = Some (Inr ()) \<longrightarrow> fresh_source (snd (source_close E src')) \<and>
       settled (e_api E) (api_trace (evs @ fst (source_close E src'))) \<and>
       \<not> lock_kept (api_trace (evs @ fst (source_close E src'))))"
proof -
  obtain e1 evs1 ls1 vs1 where a: "start_servers rtl_start (\<lambda>_. True) (e_rtl_os E) 0
      (zip (map tcpPort (virtualReceivers cfg)) vrxs) = (e1, evs1, ls1, vs1)" by (rule prod_cases4)
  note b = rtl_start.start_servers_balance [OF a]
  show ?thesis
  proof (cases e1)
    case (Some x)
    then show ?thesis using assms(2,3) a b by (auto simp: start_all_def new_listener_def filter_empty_conv)
  next
    case None
    obtain e2 evs2 ls2 vs2 where a2: "start_servers spy_start (\<lambda>p. p \<noteq> 0) (e_spy_os E) 0
        (zip (map spyserverPort (virtualReceivers cfg)) vs1) = (e2, evs2, ls2, vs2)" by (rule prod_cases4)
    note b2 = spy_start.start_servers_balance [OF a2]
    obtain r3 evs3 src3 where c: "source_connect E src = (r3, evs3, src3)" by (rule prod_cases3)
    from source_events(1,2) [of E src] c have "opened_sockets evs3 = []" "closed_sockets evs3 = []" by simp_all
    with source_api [OF assms(1,2) c, of e] assms(2,3) a None b a2 b2 c show ?thesis
      by (cases e2) (auto simp: start_all_def)
  qed
qed

lemma shut_down_releases:
  assumes "\<forall>l \<in> set (ls @ sls). running l \<longrightarrow> 0 \<le> listenFd l"
    and "fresh_source (if normal then snd (source_close E src) else src)"
  shows "opened_sockets (shut_down E normal ls sls src) = [] \<and>
    closed_sockets (shut_down E normal ls sls src) = map listenFd (filter running (ls @ sls)) \<and>
    api_trace (shut_down E normal ls sls src) = (if normal then api_trace (fst (source_close E src)) else [])"
proof -
  obtain evs1 ls1 where a: "stop_servers (e_rtl_clients E) 0 ls = (evs1, ls1)" by fastforce
  obtain evs2 ls2 where b: "stop_servers (e_spy_clients E) 0 sls = (evs2, ls2)" by fastforce
  obtain evs3 src1 where c: "(if normal then source_close E src else ([], src)) = (evs3, src1)" by fastforce
  have s: "opened_sockets evs3 = []" "closed_sockets evs3 = []" "fresh_source src1"
    "api_trace evs3 = (if normal then api_trace (fst (source_close E src)) else [])"
    using c source_events(3,4) [of E src] assms(2) by (auto split: if_splits)
  from stop_servers_closes [OF a] stop_servers_closes [OF b] assms(1) have
    d: "opened_sockets evs1 = []" "closed_sockets evs1 = map listenFd (filter running ls)" "api_trace evs1 = []"
      "\<forall>l \<in> set ls1. \<not> running l" "opened_sockets evs2 = []"
      "closed_sockets evs2 = map listenFd (filter running sls)" "api_trace evs2 = []" "\<forall>l \<in> set ls2. \<not> running l"
    by auto
  show ?thesis using s d fresh_source_destroy [OF s(3), of E] source_events(5,6) [of E src1]
    by (simp add: shut_down_def a b c stop_servers_stopped)
qed

text \<open>
  Property C8: whichever way \<open>main\<close> returns, its exit code is 0 or 1 and every listening socket any of its
  servers created has been closed exactly once, and no other. Of the vendor's API every session, device and stream
  that was acquired has been given back by exactly one call; what stays acquired all the same is the device or
  the stream if the service refused to release it and, after a failed start, the device lock if it was taken and
  never given back; after a normal end the lock is free.
\<close>

theorem main_releases:
  assumes "select_gives_handle (e_api E)" and "main_program E arg = (ExitCode k, evs)"
  shows "(k = 0 \<or> k = 1) \<and> mset (opened_sockets evs) = mset (closed_sockets evs) \<and>
    released_once (api_trace evs) \<and>
    held (api_trace evs) = (if lock_kept (api_trace evs) then {ApiLock} else {}) \<union>
      (if selected (api_trace evs) \<and> a_release (e_api E) \<noteq> kErrSuccess then {Device} else {}) \<union>
      (if streaming (api_trace evs) \<and> a_uninit (e_api E) \<noteq> kErrSuccess then {Stream} else {}) \<and>
    (k = 0 \<longrightarrow> \<not> lock_kept (api_trace evs))"
proof (cases "evs = [] \<and> k = 1")
  case False
  then obtain cfg src vrxs where m: "make_source cfg = Inr src"
    "(case start_all E cfg src vrxs of
        (None, evs, _) \<Rightarrow> (Blocked, evs)
      | (Some (Inl (Throw e)), evs, ls, sls, _, src') \<Rightarrow> (ExitCode 1, evs @ shut_down E False ls sls src')
      | (Some (Inl UB), evs, _) \<Rightarrow> (Undefined, evs)
      | (Some (Inr _), evs, ls, sls, _, src') \<Rightarrow>
          if e_signalled E then (ExitCode 0, evs @ shut_down E True ls sls src') else (StillRunning, evs)) = (ExitCode k, evs)"
    using assms(2) by (auto simp: main_program_def split: sum.splits fault.splits)
  note f = make_source_fresh [OF m(1)]
  obtain r evs1 ls sls vs src' where a: "start_all E cfg src vrxs = (r, evs1, ls, sls, vs, src')" by (rule prod_cases6)
  note b = start_all_balance [OF assms(1) f a]
  consider e where "r = Some (Inl (Throw e))" | "r = Some (Inr ())"
    using m(2) a by (auto split: option.splits sum.splits fault.splits)
  then show ?thesis
  proof cases
    case 1
    then show ?thesis using m(2) a b [of e] shut_down_releases [of ls sls False E src']
      by (auto simp: settled_def left_over_def)
  next
    case 2
    then show ?thesis using m(2) a b [of undefined] shut_down_releases [of ls sls True E src']
      by (auto simp: settled_def left_over_def split: if_splits)
  qed
qed simp

section \<open>The receivers are built outside the \<open>try\<close> blocks\<close>

text \<open>A receiver whose rates are whole Hertz, the wideband rate the \<open>D\<close>-fold of its own.\<close>

definition whole_hertz :: "int \<Rightarrow> int \<Rightarrow> vrx_config \<Rightarrow> bool" where
  "whole_hertz c s vc \<longleftrightarrow> (\<exists>r D f. vc_sampleRateHz vc = Fin (of_int r) \<and> vc_centerFrequencyHz vc = Fin f \<and>
     1 \<le> r \<and> 1 \<le> D \<and> D < 2 ^ 31 \<and> s = D * r \<and> \<bar>c\<bar> + s \<le> 2 ^ 51)"

definition outside_span :: "int \<Rightarrow> int \<Rightarrow> vrx_config \<Rightarrow> bool" where
  "outside_span c s vc \<longleftrightarrow> (\<exists>f. vc_centerFrequencyHz vc = Fin f \<and> of_int s < 2 * \<bar>f - of_int c\<bar>)"

lemma mk_vrx_outside:
  assumes "whole_hertz c s vc"
  shows "if outside_span c s vc then \<exists>m. mk_vrx L vc (Fin (of_int c)) (Fin (of_int s)) = Inl (Throw (OutOfRange m))
    else \<exists>v. mk_vrx L vc (Fin (of_int c)) (Fin (of_int s)) = Inr v"
proof -
  obtain r D f where w: "vc_sampleRateHz vc = Fin (of_int r)" "vc_centerFrequencyHz vc = Fin f"
    "1 \<le> r" "1 \<le> D" "D < 2 ^ 31" "s = D * r" "\<bar>c\<bar> + D * r \<le> 2 ^ 51"
    using assms unfolding whole_hertz_def by blast
  have "outside_span c s vc \<longleftrightarrow> \<not> 2 * \<bar>f - of_int c\<bar> \<le> of_int (D * r)"
    unfolding outside_span_def w(2) w(6) by auto
  with mk_vrx_whole_hertz [OF w(1-5) w(7), of L] show ?thesis
    unfolding w(6) by (simp split: if_splits)
qed

lemma mapr_vrx:
  "list_all (whole_hertz c s) vcs \<Longrightarrow>
    if list_ex (outside_span c s) vcs
    then \<exists>m. mapr (\<lambda>vc. mk_vrx L vc (Fin (of_int c)) (Fin (of_int s))) vcs = Inl (Throw (OutOfRange m))
    else \<exists>vs. mapr (\<lambda>vc. mk_vrx L vc (Fin (of_int c)) (Fin (of_int s))) vcs = Inr vs"
proof (induction vcs)
  case (Cons vc vcs)
  with mk_vrx_outside [of c s vc L] show ?case by (auto simp: bindr_def split: if_splits)
qed simp

lemma main_past_config:
  assumes "loadConfig (e_yaml E) path = Inr cfg" and "path = (case arg of None \<Rightarrow> ''config.yaml'' | Some p \<Rightarrow> p)"
    and "make_source cfg = Inr src"
    and "mapr (\<lambda>vc. mk_vrx (e_libm E) vc (centerFrequencyHz cfg) (sampleRateHz cfg)) (virtualReceivers cfg) = r"
  shows "main_program E arg = (case r of Inl (Throw e) \<Rightarrow> (Uncaught e, []) | Inl UB \<Rightarrow> (Undefined, [])
    | Inr vrxs \<Rightarrow> (case start_all E cfg src vrxs of
         (None, evs, _) \<Rightarrow> (Blocked, evs)
       | (Some (Inl (Throw e)), evs, ls, sls, _, src') \<Rightarrow> (ExitCode 1, evs @ shut_down E False ls sls src')
       | (Some (Inl UB), evs, _) \<Rightarrow> (Undefined, evs)
       | (Some (Inr _), evs, ls, sls, _, src') \<Rightarrow>
           if e_signalled E then (ExitCode 0, evs @ shut_down E True ls sls src') else (StillRunning, evs)))"
  using assms by (simp add: main_program_def)

lemma make_source_ok: "config_ok cfg \<Longrightarrow> \<exists>src. make_source cfg = Inr src"
  by (auto simp: make_source_def config_ok_def split: connection_mode.split option.split)


text \<open>
  A run on the repository's configuration whose first server cannot bind its port, and the same run with a
  receiver at 170 MHz, outside the capture around 159.35 MHz.
\<close>

definition demo_env :: "ytree \<Rightarrow> ytree main_env" where
  "demo_env doc = \<lparr>e_yaml = tree_yaml doc, e_libm = demo_libm,
     e_rtl_os = (\<lambda>_. \<lparr>os_socket = 3, os_bind = -1, os_listen = 0, os_error = ''in use''\<rparr>),
     e_spy_os = (\<lambda>_. \<lparr>os_socket = 4, os_bind = 0, os_listen = 0, os_error = []\<rparr>),
     e_rtl_clients = (\<lambda>_. []), e_spy_clients = (\<lambda>_. []), e_api = demo_api 0,
     e_ws = \<lparr>c_gai = None, c_dials = [], c_key = [], c_sends = [], c_recvs = [], c_strerror = []\<rparr>, e_ws_sends = [],
     e_close_mask = [], e_close_results = [], e_signalled = True\<rparr>"

definition far_doc :: ytree where
  "far_doc = YMap [(''connection'', YStr ''api''), (''center_frequency_hz'', YInt 159350000),
     (''sample_rate_hz'', YInt 9216000), (''sdrplay'', YMap []), (''virtual_receivers'', YSeq [
        YMap [(''name'', YStr ''far''), (''tcp_port'', YInt 1235),
          (''center_frequency_hz'', YInt 170000000), (''sample_rate_hz'', YInt 512000)]])]"

definition far_config :: app_config where
  "far_config = \<lparr>connection = Api, centerFrequencyHz = Fin 159350000, sampleRateHz = Fin 9216000,
     sdrplay = default_sdrplay_config, sdrconnect = None,
     virtualReceivers = [\<lparr>vc_name = ''far'', tcpPort = 1235, spyserverPort = 0,
         vc_centerFrequencyHz = Fin 170000000, vc_sampleRateHz = Fin 512000\<rparr>]\<rparr>"

lemma load_far: "loadConfig (tree_yaml far_doc) ''config.yaml'' = Inr far_config"
  by (simp add: loadConfig_def load_doc_def tree_yaml_def far_doc_def requireField_def
      parse_connection_def parse_sdrplay_section_def parseSdrplayConfig_def optField_def
      parse_sdrconnect_section_def parse_receivers_def parseVirtualReceiverConfig_def Let_def
      default_app_config_def default_sdrplay_config_def default_vrx_config_def far_config_def
      feq_def rtrunc_def)

lemma whole_hertz_rates:
  "whole_hertz 159350000 9216000 \<lparr>vc_name = n, tcpPort = p, spyserverPort = q,
     vc_centerFrequencyHz = Fin f, vc_sampleRateHz = Fin 512000\<rparr>"
  "whole_hertz 159350000 9216000 \<lparr>vc_name = n, tcpPort = p, spyserverPort = q,
     vc_centerFrequencyHz = Fin f, vc_sampleRateHz = Fin 288000\<rparr>"
  unfolding whole_hertz_def
  by (intro exI [of _ 512000] exI [of _ 18] exI [of _ f], simp)
    (intro exI [of _ 288000] exI [of _ 32] exI [of _ f], simp)

lemma example_whole_hertz: "list_all (whole_hertz 159350000 9216000) (virtualReceivers example_config)"
  by (simp add: example_config_def whole_hertz_rates)

lemma example_inside: "\<not> list_ex (outside_span 159350000 9216000) (virtualReceivers example_config)"
  by (simp add: example_config_def outside_span_def)

lemma example_run: "main_program (demo_env example_doc) None = (ExitCode 1, [ServerSocket 3, ServerOp (Close 3)])"
proof -
  let ?E = "demo_env example_doc"
  have e: "e_yaml ?E = tree_yaml example_doc" "e_libm ?E = demo_libm" by (simp_all add: demo_env_def)
  have load: "loadConfig (e_yaml ?E) ''config.yaml'' = Inr example_config" by (simp add: e load_example)
  have cs: "centerFrequencyHz example_config = Fin (of_int 159350000)" "sampleRateHz example_config = Fin (of_int 9216000)"
    by (simp_all add: example_config_def)
  from mapr_vrx [OF example_whole_hertz, of demo_libm] example_inside obtain vs where
    vs: "mapr (\<lambda>vc. mk_vrx (e_libm ?E) vc (centerFrequencyHz example_config) (sampleRateHz example_config))
      (virtualReceivers example_config) = Inr vs" by (auto simp: cs e)
  from mapr_Inr_length [OF this] obtain v1 v2 where v: "vs = [v1, v2]"
    by (auto simp: example_config_def length_Suc_conv)
  obtain src where src: "make_source example_config = Inr src"
    "src = ApiSource (new_sdrplay_client (sdrplay example_config) (centerFrequencyHz example_config) (sampleRateHz example_config))"
    by (simp add: make_source_def example_config_def)
  show ?thesis
    unfolding main_past_config [OF load _ src(1) vs, of None, simplified]
    by (simp add: v start_all_def shut_down_def source_destroy_def play_close_closed src(2) new_sdrplay_client_def
        rtl_start_def start_listener_def stop_listener_def new_listener_def demo_env_def example_config_def
        api_events_def Let_def)
qed

theorem main_releases_witness:
  "main_program (demo_env example_doc) None = (ExitCode 1, [ServerSocket 3, ServerOp (Close 3)]) \<and>
   mset (opened_sockets [ServerSocket 3, ServerOp (Close 3)]) = mset (closed_sockets [ServerSocket 3, ServerOp (Close 3)])"
proof -
  have "select_gives_handle (e_api (demo_env example_doc))"
    by (simp add: demo_env_def select_gives_handle_def demo_api_def)
  from main_releases [OF this example_run] example_run show ?thesis by blast
qed


end
