(* ===== verification/SharedReceiver.thy ===== *)
theory SharedReceiver
  imports RtlThreads SpyThreads
begin

text \<open>
  A receiver and its two endpoints (\<open>src/rtltcp/server.cpp\<close>, \<open>src/spyserver/server.cpp\<close>): the servers touch
  nothing of it but its tuning (the locale \<open>receiver_view\<close>), so the chunks the streaming thread carries
  through the signal path are invisible to them, and all they do to it are retunes to whole Hertz.
\<close>

section \<open>A server sees the tuning of its receiver\<close>

text \<open>A server with the receiver in another state.\<close>

definition rtl_with :: "vrx \<Rightarrow> rtl_state \<Rightarrow> rtl_state" where
  "rtl_with v s = s\<lparr>srv_vrx := v\<rparr>"

definition ctx_with :: "vrx \<Rightarrow> spy_ctx \<Rightarrow> spy_ctx" where
  "ctx_with v c = c\<lparr>sp_vrx := v\<rparr>"

definition spy_with :: "vrx \<Rightarrow> spy_server \<Rightarrow> spy_server" where
  "spy_with v s = s\<lparr>ss_ctx := ctx_with v (ss_ctx s)\<rparr>"

lemma rtl_with_simps [simp]:
  "srv_vrx (rtl_with v s) = v" "clientFds (rtl_with v s) = clientFds s" "rtl_open_fds (rtl_with v s) = rtl_open_fds s"
  "rtl_with v (rtl_with w s) = rtl_with v s" "rtl_with (srv_vrx s) s = s"
  "rtl_deliver res data (rtl_with v s) = rtl_with v (rtl_deliver res data s)" "srv_vrx (rtl_deliver res data s) = srv_vrx s"
  "srv_running (rtl_with v s) = srv_running s" "srv_accept (rtl_with v s) = srv_accept s" "srv_stop (rtl_with v s) = srv_stop s" "srv_shut (rtl_with v s) = srv_shut s" "srv_readers (rtl_with v s) = srv_readers s" "srv_wire (rtl_with v s) = srv_wire s" "srv_sent (rtl_with v s) = srv_sent s"
  by (simp_all add: rtl_with_def rtl_open_fds_def rtl_deliver_def)

lemma rtl_with_updates:
  "(rtl_with v s)\<lparr>srv_vrx := w\<rparr> = rtl_with w s"
  "(rtl_with v s)\<lparr>clientFds := fds\<rparr> = rtl_with v (s\<lparr>clientFds := fds\<rparr>)"
  "(rtl_with v s)\<lparr>srv_running := x0\<rparr> = rtl_with v (s\<lparr>srv_running := x0\<rparr>)"
  "(rtl_with v s)\<lparr>srv_accept := x1\<rparr> = rtl_with v (s\<lparr>srv_accept := x1\<rparr>)"
  "(rtl_with v s)\<lparr>srv_stop := x2\<rparr> = rtl_with v (s\<lparr>srv_stop := x2\<rparr>)"
  "(rtl_with v s)\<lparr>srv_shut := x3\<rparr> = rtl_with v (s\<lparr>srv_shut := x3\<rparr>)"
  "(rtl_with v s)\<lparr>srv_readers := x4\<rparr> = rtl_with v (s\<lparr>srv_readers := x4\<rparr>)"
  "(rtl_with v s)\<lparr>srv_wire := x5\<rparr> = rtl_with v (s\<lparr>srv_wire := x5\<rparr>)"
  "(rtl_with v s)\<lparr>srv_sent := x6\<rparr> = rtl_with v (s\<lparr>srv_sent := x6\<rparr>)"
  "rtl_with w (s\<lparr>srv_vrx := u\<rparr>) = rtl_with w s"
  "rtl_with w (s\<lparr>srv_vrx := u, clientFds := fds, srv_readers := rs\<rparr>) = rtl_with w (s\<lparr>clientFds := fds, srv_readers := rs\<rparr>)"
  by (simp_all add: rtl_with_def)

lemma ctx_with_simps [simp]:
  "clients (ctx_with v c) = clients c" "sp_vrx (ctx_with v c) = v" "sp_out (ctx_with v c) = sp_out c"
  "sp_net (ctx_with v c) = sp_net c"
  "ctx_with v (ctx_with w c) = ctx_with v c" "ctx_with (sp_vrx c) c = c"
  by (simp_all add: ctx_with_def)

lemma spy_with_simps [simp]:
  "ss_ctx (spy_with v s) = ctx_with v (ss_ctx s)" "spy_open_fds (spy_with v s) = spy_open_fds s"
  "ss_lock (spy_with v s) = ss_lock s" "ss_running (spy_with v s) = ss_running s" "ss_accept (spy_with v s) = ss_accept s"
  "ss_readers (spy_with v s) = ss_readers s" "ss_stop (spy_with v s) = ss_stop s" "ss_shut (spy_with v s) = ss_shut s"
  "spy_with v (spy_with w s) = spy_with v s" "spy_with (sp_vrx (ss_ctx s)) s = s"
  by (simp_all add: spy_with_def spy_open_fds_def)

lemma spy_with_updates:
  "(spy_with v s)\<lparr>ss_ctx := ctx_with w c\<rparr> = spy_with w (s\<lparr>ss_ctx := c\<rparr>)"
  "(spy_with v s)\<lparr>ss_lock := x0\<rparr> = spy_with v (s\<lparr>ss_lock := x0\<rparr>)"
  "(spy_with v s)\<lparr>ss_running := x1\<rparr> = spy_with v (s\<lparr>ss_running := x1\<rparr>)"
  "(spy_with v s)\<lparr>ss_accept := x2\<rparr> = spy_with v (s\<lparr>ss_accept := x2\<rparr>)"
  "(spy_with v s)\<lparr>ss_readers := x3\<rparr> = spy_with v (s\<lparr>ss_readers := x3\<rparr>)"
  "(spy_with v s)\<lparr>ss_stop := x4\<rparr> = spy_with v (s\<lparr>ss_stop := x4\<rparr>)"
  "(spy_with v s)\<lparr>ss_shut := x5\<rparr> = spy_with v (s\<lparr>ss_shut := x5\<rparr>)"
  by (simp_all add: spy_with_def)

text \<open>
  The endpoints read and write nothing of a receiver but its tuning, so a step of a server is a step on any
  view of the receiver that keeps the tuning.
\<close>

locale receiver_view =
  fixes L :: libm and g :: "vrx \<Rightarrow> vrx"
  assumes retune_view: "g (try_retune (retune L) v f) = try_retune (retune L) (g v) f"
    and task_view: "task_op fd (g v) t = task_op fd v t"
begin

lemma rtl_reader_view:
  assumes "rtl_reader L fd (v, fds, pc) (v', fds', pc')"
  shows "rtl_reader L fd (g v, fds, pc) (g v', fds', pc')"
  using assms
proof (cases rule: rtl_reader.cases)
  case (rtl_command b c)
  have "g (fst (handleCommand L v (pc_cmd c) (pc_param c))) = fst (handleCommand L (g v) (pc_cmd c) (pc_param c))"
    by (simp add: handleCommand_try_retune retune_view)
  with rtl_command show ?thesis by (simp add: rtl_reader.rtl_command)
qed (auto intro: rtl_reader.intros)

lemma rtl_view: "rtl_step L a s s' \<Longrightarrow> rtl_step L a (rtl_with (g (srv_vrx s)) s) (rtl_with (g (srv_vrx s')) s')"
proof (induction rule: rtl_step.induct)
  case (rtl_accept s fd)
  then show ?case using rtl_step.rtl_accept [of "rtl_with (g (srv_vrx s)) s" fd L] by (simp add: rtl_with_updates)
next
  case (rtl_greet s fd r)
  then show ?case using rtl_step.rtl_greet [of "rtl_with (g (srv_vrx s)) s" fd L r] by (simp add: rtl_with_updates)
next
  case (rtl_register s fd)
  then show ?case using rtl_step.rtl_register [of "rtl_with (g (srv_vrx s)) s" fd L] by (simp add: rtl_with_updates)
next
  case (rtl_spawn s fd)
  then show ?case using rtl_step.rtl_spawn [of "rtl_with (g (srv_vrx s)) s" fd L] by (simp add: rtl_with_updates)
next
  case (rtl_reads s us fd pc ws v' fds' pc')
  then show ?case using rtl_step.rtl_reads [of "rtl_with (g (srv_vrx s)) s" us fd pc ws L "g v'" fds' pc'] rtl_reader_view
    by (simp add: rtl_with_updates)
next
  case (rtl_broadcast data s res)
  then show ?case using rtl_step.rtl_broadcast [of data L "rtl_with (g (srv_vrx s)) s" res] by simp
next
  case (rtl_other_retune s f)
  then show ?case using rtl_step.rtl_other_retune [of L "rtl_with (g (srv_vrx s)) s" f]
    by (simp add: retune_view rtl_with_updates)
next
  case (rtl_snapshot s)
  then show ?case using rtl_step.rtl_snapshot [of "rtl_with (g (srv_vrx s)) s" L] by (simp add: rtl_with_updates)
next
  case (rtl_shutdown s fd fds)
  then show ?case using rtl_step.rtl_shutdown [of "rtl_with (g (srv_vrx s)) s" fd fds L] by (simp add: rtl_with_updates)
next
  case (rtl_check s)
  then show ?case using rtl_step.rtl_check [of "rtl_with (g (srv_vrx s)) s" L]
    by (cases "srv_running s") (simp_all add: rtl_with_updates)
qed (simp_all add: rtl_step.intros flip: rtl_with_updates)

lemma exec_view: "spy_exec L (ctx_with (g (sp_vrx c)) c) op = ctx_with (g (sp_vrx (spy_exec L c op))) (spy_exec L c op)"
  by (cases op) (auto simp: ctx_with_def modify_client_def sendMessage_def Let_def spyBroadcastIq_def spyRemoveClient_def
      spyAddClient_def retune_view split: option.split prod.split)

lemma reader_view:
  assumes "reader_step L fd (c, lk, pc) (c', lk', pc')"
  shows "reader_step L fd (ctx_with (g (sp_vrx c)) c, lk, pc) (ctx_with (g (sp_vrx c')) c', lk', pc')"
  using assms
proof (cases rule: reader_step.cases)
  case (run_section t op ts b)
  then show ?thesis using reader_step.run_section [of fd "ctx_with (g (sp_vrx c)) c" t op lk L ts b]
    by (simp add: task_view exec_view)
next
  case (send_start t op ts b)
  then show ?thesis using reader_step.send_start [of fd "ctx_with (g (sp_vrx c)) c" t op L ts b]
    by (simp add: task_view exec_view)
next
  case remove_client
  then show ?thesis using reader_step.remove_client [of L fd "ctx_with (g (sp_vrx c)) c"] by (simp only: exec_view)
qed (auto intro: reader_step.intros simp: task_view)

lemma spy_view: "spy_step L a s s' \<Longrightarrow>
    spy_step L a (spy_with (g (sp_vrx (ss_ctx s))) s) (spy_with (g (sp_vrx (ss_ctx s'))) s')"
proof (induction rule: spy_step.induct)
  case (check_running s)
  then show ?case using spy_step.check_running [of "spy_with (g (sp_vrx (ss_ctx s))) s" L]
    by (cases "ss_running s") (simp_all add: spy_with_updates)
next
  case (accept_client s fd)
  then show ?case using spy_step.accept_client [of "spy_with (g (sp_vrx (ss_ctx s))) s" fd L] by (simp add: spy_with_updates)
next
  case (register_client s fd)
  then show ?case using spy_step.register_client [of "spy_with (g (sp_vrx (ss_ctx s))) s" fd L]
    by (simp add: spy_with_updates exec_view del: spy_exec.simps)
next
  case (spawn_reader s fd)
  then show ?case using spy_step.spawn_reader [of "spy_with (g (sp_vrx (ss_ctx s))) s" fd L] by (simp add: spy_with_updates)
next
  case (reader s us fd pc ws c' lk' pc')
  from spy_step.reader [of "spy_with (g (sp_vrx (ss_ctx s))) s" us fd pc ws L "ctx_with (g (sp_vrx c')) c'" lk' pc'] reader_view [OF reader(2)]
  show ?case using reader(1) by (simp add: spy_with_updates)
next
  case (broadcast s data)
  then show ?case using spy_step.broadcast [of "spy_with (g (sp_vrx (ss_ctx s))) s" L data]
    by (simp add: spy_with_updates exec_view del: spy_exec.simps)
next
  case (other_retune s f)
  then show ?case using spy_step.other_retune [of L "spy_with (g (sp_vrx (ss_ctx s))) s" f]
    by (simp add: spy_with_updates exec_view del: spy_exec.simps)
next
  case (stop_snapshot s)
  then show ?case using spy_step.stop_snapshot [of "spy_with (g (sp_vrx (ss_ctx s))) s" L] by (simp add: spy_with_updates)
next
  case (stop_shutdown s fd fds)
  then show ?case using spy_step.stop_shutdown [of "spy_with (g (sp_vrx (ss_ctx s))) s" fd fds L] by (simp add: spy_with_updates)
qed (simp_all add: spy_step.intros flip: spy_with_updates)

end

text \<open>The view that leaves the signal path where it was in \<open>v0\<close>: the oscillator's phase and the filter's history.\<close>

definition frozen :: "vrx \<Rightarrow> vrx \<Rightarrow> vrx" where
  "frozen v0 v = v\<lparr>vr_nco := (vr_nco v)\<lparr>phaseRe := phaseRe (vr_nco v0), phaseIm := phaseIm (vr_nco v0)\<rparr>,
     vr_decimator := vr_decimator v0\<rparr>"

lemma frozen_self [simp]: "frozen v v = v"
  by (simp add: frozen_def)

lemma frozen_span: "span_lo (frozen v0 v) = span_lo v" "span_hi (frozen v0 v) = span_hi v"
  by (simp_all add: frozen_def span_lo_def span_hi_def)

interpretation frz: receiver_view L "frozen v0" for L v0
proof unfold_locales
  fix v f fd t
  show "frozen v0 (try_retune (retune L) v f) = try_retune (retune L) (frozen v0 v) f"
    by (simp add: try_retune_def retune_def assertWithinSpan_def frozen_span)
      (simp add: frozen_def setOffsetHz_def Let_def)
  show "task_op fd (frozen v0 v) t = task_op fd v t"
    by (cases t) (simp_all add: frozen_def hello_device_info_def hello_client_sync_def getSampleRateHz_def
        lo_lo_def lo_hi_def)
qed

lemma frozen_chunk: "processWidebandChunk L v iq n = Some (outs, v') \<Longrightarrow> frozen v0 v' = frozen v0 v"
  by (auto simp: processWidebandChunk_def mixInPlace_def Let_def frozen_def split: if_splits option.splits prod.splits)

text \<open>All a server does to the receiver is to retune it, to whole Hertz.\<close>

definition hertz_retuned :: "libm \<Rightarrow> vrx \<Rightarrow> vrx \<Rightarrow> bool" where
  "hertz_retuned L v v' \<longleftrightarrow> v' = v \<or> (\<exists>f :: u32. v' = try_retune (retune L) v (f64_of_int (uint f)))"

lemma rtl_step_retunes: "rtl_step L a s s' \<Longrightarrow> hertz_retuned L (srv_vrx s) (srv_vrx s')"
proof (induction rule: rtl_step.induct)
  case (rtl_reads s us fd pc ws v' fds' pc')
  from rtl_reads(2) show ?case
    by (cases rule: rtl_reader.cases) (auto simp: hertz_retuned_def handleCommand_try_retune)
qed (auto simp: hertz_retuned_def rtl_deliver_def)

lemma exec_retunes: "hertz_retuned L (sp_vrx c) (sp_vrx (spy_exec L c op))"
  by (cases op) (auto simp: hertz_retuned_def modify_client_def sendMessage_def Let_def spyBroadcastIq_def spyRemoveClient_def
      spyAddClient_def split: option.split prod.split)

lemma spy_step_retunes: "spy_step L a s s' \<Longrightarrow> hertz_retuned L (sp_vrx (ss_ctx s)) (sp_vrx (ss_ctx s'))"
  by (drule spy_step_section) (auto intro: exec_retunes simp: hertz_retuned_def [of L v v for v] simp del: spy_exec.simps)

lemma retuned_kept:
  assumes "hertz_retuned L v v'" and "vrx_inv v"
  shows "vrx_inv v' \<and> callbacks v' = callbacks v \<and> decimationFactor v' = decimationFactor v"
proof -
  have p: "vrx_params v' = vrx_params v" using assms(1) by (auto simp: hertz_retuned_def)
  have "within_span v' (vr_centerFrequencyHz v')"
    using assms by (auto simp: hertz_retuned_def vrx_inv_def vt.try_retune_centre)
  then show ?thesis using p assms(2) by (simp add: vrx_params_def vrx_inv_def)
qed

section \<open>The IQ messages of a SpyServer client\<close>

definition is_iq :: "bytes \<Rightarrow> bool" where
  "is_iq m \<longleftrightarrow> (case dec_header m of Some h \<Rightarrow> messageType h = kMsgTypeUint8Iq | None \<Rightarrow> False)"

text \<open>The bodies of the IQ messages passed to \<open>send\<close> for \<open>fd\<close>.\<close>

definition iq_chunks :: "int \<Rightarrow> spy_ctx \<Rightarrow> bytes list" where
  "iq_chunks fd c = map (drop 20) (filter is_iq (sent_to fd c))"

lemma message_iq [simp]: "is_iq (message_bytes mt st n body) \<longleftrightarrow> mt = kMsgTypeUint8Iq"
  "drop 20 (message_bytes mt st n body) = body"
  by (simp_all add: is_iq_def message_bytes_def wire_simps)

lemma broadcast_iq:
  assumes "tsorted (clients c)"
  shows "\<exists>ds. iq_chunks fd (spyBroadcastIq data c) = iq_chunks fd c @ ds \<and> (ds = [] \<or> ds = [data])"
  using broadcast_one(1) [OF assms, of fd data] by (auto simp: iq_chunks_def split: option.splits)

lemma reachable_sorted:
  assumes "spy_reachable L v s"
  shows "tsorted (clients (ss_ctx s))"
proof -
  from reachable_explained [OF assms] obtain ops where
    "ss_ctx s = foldl (spy_exec L) (fresh_ctx (sp_net (ss_ctx s)) v) ops" unfolding explained_def by blast
  moreover have "tsorted (clients (foldl (spy_exec L) (fresh_ctx (sp_net (ss_ctx s)) v) ops))"
    by (rule sorted_run) simp
  ultimately show ?thesis by metis
qed

text \<open>Read threads send other messages only.\<close>

fun sends_iq :: "spy_op \<Rightarrow> bool" where
  "sends_iq (OpSend fd mt st body) \<longleftrightarrow> mt = kMsgTypeUint8Iq"
| "sends_iq (OpBroadcast data) \<longleftrightarrow> True"
| "sends_iq _ \<longleftrightarrow> False"

lemma exec_iq: "\<not> sends_iq op \<Longrightarrow> iq_chunks fd (spy_exec L c op) = iq_chunks fd c"
  by (cases op) (auto simp: iq_chunks_def sent_to_sendMessage, auto simp: sent_to_def modify_client_def
      spyAddClient_def spyRemoveClient_def split: option.splits)

lemma task_iq: "task_op fd v t = Some op \<Longrightarrow> \<not> sends_iq op"
  by (cases t) (auto simp: kMsgTypeUint8Iq_def kMsgTypeDeviceInfo_def kMsgTypeClientSync_def kMsgTypePong_def)

lemma reader_iq: "reader_step L fd' (c, lk, pc) (c', lk', pc') \<Longrightarrow> iq_chunks fd c' = iq_chunks fd c"
  by (cases rule: reader_step.cases) (auto dest: task_iq intro: exec_iq simp del: spy_exec.simps task_op.simps)

lemma spy_step_iq: "spy_step L a s s' \<Longrightarrow> a \<noteq> StreamThread \<Longrightarrow> iq_chunks fd (ss_ctx s') = iq_chunks fd (ss_ctx s)"
proof (induction rule: spy_step.induct)
  case (reader s us fd' pc ws c' lk' pc')
  then show ?case using reader_iq [OF reader(2)] by simp
qed (simp_all add: exec_iq del: spy_exec.simps)

lemma iq_with [simp]: "iq_chunks fd (ctx_with v c) = iq_chunks fd c"
  "sent_to fd (ctx_with v c) = sent_to fd c" "taken_to fd (ctx_with v c) = taken_to fd c"
  by (simp_all add: iq_chunks_def sent_to_def taken_to_def)

end
