(* ===== verification/ProgramThreads.thy ===== *)
theory ProgramThreads
  imports MainProgram SharedReceiver "HOL-Library.Sublist"
begin

text \<open>
  The running program: every receiver with its rtl_tcp and its SpyServer endpoint, and the streaming thread
  that carries each wideband chunk through all of them (\<open>src/main.cpp\<close>, \<open>src/dsp/virtual_receiver.cpp\<close> and the two
  \<open>server.cpp\<close>), with the threads of all servers interleaved. The servers alone are the step relations of
  \<open>RtlThreads\<close> and \<open>SpyThreads\<close>; here they share their receiver, the descriptors of the process and the
  streaming thread.
\<close>

section \<open>The program\<close>

text \<open>
  \<open>rt_vrx\<close> is the receiver both endpoints share; the copies inside the endpoints' states are those of their last
  steps. \<open>rt_handed\<close> is what \<open>processWidebandChunk\<close> handed to the callbacks so far and \<open>rt_done\<close> what they have
  taken.
\<close>

record receiver_threads =
  rt_vrx :: vrx
  rt_rtl :: rtl_state
  rt_spy :: "spy_server option"
  rt_handed :: "(callback \<times> bytes) list"
  rt_done :: "(callback \<times> bytes) list"

text \<open>What the streaming thread has left to do of the current chunk.\<close>

datatype stream_task = Process nat | RunCallback nat callback bytes

record program =
  pg_receivers :: "receiver_threads list"
  pg_iq :: "fp list \<times> nat"
  pg_todo :: "stream_task list"
  pg_fault :: bool

definition receiver_fds :: "receiver_threads \<Rightarrow> int list" where
  "receiver_fds r = rtl_open_fds (rt_rtl r) @ (case rt_spy r of None \<Rightarrow> [] | Some s \<Rightarrow> spy_open_fds s)"

definition program_fds :: "program \<Rightarrow> int list" where
  "program_fds p = concat (map receiver_fds (pg_receivers p))"

definition set_receiver :: "nat \<Rightarrow> receiver_threads \<Rightarrow> program \<Rightarrow> program" where
  "set_receiver i r p = p\<lparr>pg_receivers := (pg_receivers p)[i := r]\<rparr>"

text \<open>Whose step it is; \<open>Upstream n\<close> is the arrival of a chunk of \<open>n\<close> samples from the source.\<close>

datatype program_actor = Upstream nat | Streaming | RtlThread nat server_actor | SpyThread nat server_actor

text \<open>
  The source calls back with the next chunk when the last one has been carried through every receiver. The
  callbacks of a receiver run in the order of their registration, that of its SpyServer under
  \<open>clientsMutex_\<close>. The operating system gives no descriptor twice in the process.
\<close>

inductive program_step :: "libm \<Rightarrow> program_actor \<Rightarrow> program \<Rightarrow> program \<Rightarrow> bool" for L where
  chunk_arrives: "pg_todo p = [] \<Longrightarrow> length iq = 2 * n \<Longrightarrow>
     program_step L (Upstream n) p (p\<lparr>pg_iq := (iq, n), pg_todo := map Process [0..<length (pg_receivers p)]\<rparr>)"
| chunk_processed: "pg_todo p = Process i # ts \<Longrightarrow> r = pg_receivers p ! i \<Longrightarrow>
     processWidebandChunk L (rt_vrx r) (fst (pg_iq p)) (snd (pg_iq p)) = Some (outs, v') \<Longrightarrow>
     program_step L Streaming p (set_receiver i (r\<lparr>rt_vrx := v', rt_handed := rt_handed r @ outs\<rparr>)
       (p\<lparr>pg_todo := map (\<lambda>(cb, data). RunCallback i cb data) outs @ ts\<rparr>))"
| chunk_faults: "pg_todo p = Process i # ts \<Longrightarrow>
     processWidebandChunk L (rt_vrx (pg_receivers p ! i)) (fst (pg_iq p)) (snd (pg_iq p)) = None \<Longrightarrow>
     program_step L Streaming p (p\<lparr>pg_fault := True\<rparr>)"
| rtl_callback: "pg_todo p = RunCallback i RtlTcpBroadcast data # ts \<Longrightarrow> r = pg_receivers p ! i \<Longrightarrow>
     program_step L Streaming p (set_receiver i
       (r\<lparr>rt_rtl := rtl_deliver res data (rt_rtl r), rt_done := rt_done r @ [(RtlTcpBroadcast, data)]\<rparr>)
       (p\<lparr>pg_todo := ts\<rparr>))"
| spy_callback: "pg_todo p = RunCallback i SpyServerBroadcast data # ts \<Longrightarrow> r = pg_receivers p ! i \<Longrightarrow>
     rt_spy r = Some s \<Longrightarrow> ss_lock s = None \<Longrightarrow>
     program_step L Streaming p (set_receiver i
       (r\<lparr>rt_spy := Some (s\<lparr>ss_ctx := spyBroadcastIq data (ss_ctx s)\<rparr>), rt_done := rt_done r @ [(SpyServerBroadcast, data)]\<rparr>)
       (p\<lparr>pg_todo := ts\<rparr>))"
| rtl_thread: "i < length (pg_receivers p) \<Longrightarrow> r = pg_receivers p ! i \<Longrightarrow> a \<notin> {StreamThread, OtherEndpoint} \<Longrightarrow>
     rtl_step L a (rtl_with (rt_vrx r) (rt_rtl r)) s' \<Longrightarrow>
     (set (rtl_open_fds s') - set (rtl_open_fds (rt_rtl r))) \<inter> set (program_fds p) = {} \<Longrightarrow>
     program_step L (RtlThread i a) p (set_receiver i (r\<lparr>rt_vrx := srv_vrx s', rt_rtl := s'\<rparr>) p)"
| spy_thread: "i < length (pg_receivers p) \<Longrightarrow> r = pg_receivers p ! i \<Longrightarrow> rt_spy r = Some s \<Longrightarrow>
     a \<notin> {StreamThread, OtherEndpoint} \<Longrightarrow> spy_step L a (spy_with (rt_vrx r) s) s' \<Longrightarrow>
     (set (spy_open_fds s') - set (spy_open_fds s)) \<inter> set (program_fds p) = {} \<Longrightarrow>
     program_step L (SpyThread i a) p (set_receiver i (r\<lparr>rt_vrx := sp_vrx (ss_ctx s'), rt_spy := Some s'\<rparr>) p)"

text \<open>
  The program once every server has started, before the first chunk; \<open>nets i\<close> gives the results that the
  calls of \<open>send\<close> of the SpyServer of receiver \<open>i\<close> will have.
\<close>

definition started_receiver :: "(nat \<Rightarrow> send_result) \<Rightarrow> vrx \<Rightarrow> receiver_threads" where
  "started_receiver net v = \<lparr>rt_vrx = v, rt_rtl = rtl_initial v,
     rt_spy = (if SpyServerBroadcast \<in> set (callbacks v) then Some (spy_started net v) else None),
     rt_handed = [], rt_done = []\<rparr>"

definition program_started :: "(nat \<Rightarrow> nat \<Rightarrow> send_result) \<Rightarrow> vrx list \<Rightarrow> program" where
  "program_started nets vs = \<lparr>pg_receivers = map (\<lambda>i. started_receiver (nets i) (vs ! i)) [0..<length vs], pg_iq = ([], 0), pg_todo = [], pg_fault = False\<rparr>"

inductive program_reachable :: "libm \<Rightarrow> vrx list \<Rightarrow> program \<Rightarrow> bool" for L vs where
  program_start: "program_reachable L vs (program_started nets vs)"
| program_next: "program_reachable L vs p \<Longrightarrow> program_step L a p p' \<Longrightarrow> program_reachable L vs p'"

section \<open>One receiver\<close>

text \<open>A receiver the way \<open>main\<close> leaves it when all servers have started.\<close>

definition ready :: "vrx \<Rightarrow> bool" where
  "ready v \<longleftrightarrow> vrx_inv v \<and> callbacks v \<in> {[RtlTcpBroadcast], [RtlTcpBroadcast, SpyServerBroadcast]}"

definition chunks_for :: "callback \<Rightarrow> (callback \<times> bytes) list \<Rightarrow> bytes list" where
  "chunks_for cb outs = map snd (filter (\<lambda>x. fst x = cb) outs)"

lemma chunks_for_simps [simp]: "chunks_for cb [] = []"
  "chunks_for cb (x # xs) = (if fst x = cb then snd x # chunks_for cb xs else chunks_for cb xs)"
  "chunks_for cb (xs @ ys) = chunks_for cb xs @ chunks_for cb ys"
  by (simp_all add: chunks_for_def)

text \<open>Every chunk went to every callback, in the order of their registration: whole I/Q pairs, no zero byte.\<close>

definition whole_rounds :: "callback list \<Rightarrow> (callback \<times> bytes) list \<Rightarrow> bool" where
  "whole_rounds cbs outs \<longleftrightarrow> (\<exists>ds. outs = concat (map (\<lambda>d. map (\<lambda>cb. (cb, d)) cbs) ds) \<and>
     (\<forall>d \<in> set ds. even (length d) \<and> (\<forall>b \<in> set d. 1 \<le> unat b)))"

lemma whole_rounds_none: "whole_rounds cbs []"
  unfolding whole_rounds_def by (rule exI [of _ "[]"]) simp

lemma whole_rounds_more:
  assumes "whole_rounds cbs outs" and "even (length d)" and "\<forall>b \<in> set d. 1 \<le> unat b"
  shows "whole_rounds cbs (outs @ (if d = [] then [] else map (\<lambda>cb. (cb, d)) cbs))"
proof (cases "d = []")
  case False
  from assms(1) obtain ds where "outs = concat (map (\<lambda>d. map (\<lambda>cb. (cb, d)) cbs) ds)"
    "\<forall>d \<in> set ds. even (length d) \<and> (\<forall>b \<in> set d. 1 \<le> unat b)" by (auto simp: whole_rounds_def)
  then show ?thesis using assms(2,3) False unfolding whole_rounds_def by (intro exI [of _ "ds @ [d]"]) auto
qed (use assms(1) in simp)

text \<open>
  What holds of a receiver built as \<open>v\<close>: its own invariant, and that each endpoint, on the receiver with its
  signal path frozen, is in a state that it reaches alone.
\<close>

definition receiver_ok :: "libm \<Rightarrow> vrx \<Rightarrow> receiver_threads \<Rightarrow> bool" where
  "receiver_ok L v r \<longleftrightarrow> vrx_inv (rt_vrx r) \<and> callbacks (rt_vrx r) = callbacks v \<and>
     decimationFactor (rt_vrx r) = decimationFactor v \<and>
     (rt_spy r = None \<longleftrightarrow> SpyServerBroadcast \<notin> set (callbacks v)) \<and>
     rtl_reachable L v (rtl_with (frozen v (rt_vrx r)) (rt_rtl r)) \<and>
     (\<forall>s. rt_spy r = Some s \<longrightarrow> spy_reachable L v (spy_with (frozen v (rt_vrx r)) s)) \<and>
     srv_sent (rt_rtl r) = chunks_for RtlTcpBroadcast (rt_done r) \<and> whole_rounds (callbacks v) (rt_handed r) \<and>
     (\<forall>s fd. rt_spy r = Some s \<longrightarrow> subseq (iq_chunks fd (ss_ctx s)) (chunks_for SpyServerBroadcast (rt_done r)))"

lemma receiver_started:
  assumes "ready v"
  shows "receiver_ok L v (started_receiver net v)"
proof -
  have "rtl_with v (rtl_initial v) = rtl_initial v" "spy_with v (spy_started net v) = spy_started net v"
    by (simp_all add: rtl_with_def rtl_initial_def spy_with_def ctx_with_def spy_started_def)
  moreover have "srv_sent (rtl_initial v) = []" "iq_chunks fd (ss_ctx (spy_started net v)) = []" for fd
    by (simp_all add: rtl_initial_def spy_started_def iq_chunks_def sent_to_def)
  ultimately show ?thesis
    using assms rtl_reachable_start [of L v] spy_start [of L v net]
    by (simp add: receiver_ok_def started_receiver_def ready_def whole_rounds_none)
qed

lemma receiver_chunk:
  assumes "receiver_ok L v r" and "length iq = 2 * n"
    and "processWidebandChunk L (rt_vrx r) iq n = Some (outs, v')"
  shows "receiver_ok L v (r\<lparr>rt_vrx := v', rt_handed := rt_handed r @ outs\<rparr>) \<and>
    (\<exists>bs. outs = (if bs = [] then [] else map (\<lambda>cb. (cb, bs)) (callbacks v)) \<and>
       length bs = 2 * (n div nat (decimationFactor v)))"
proof -
  have i: "vrx_inv (rt_vrx r)" "callbacks (rt_vrx r) = callbacks v" "decimationFactor (rt_vrx r) = decimationFactor v"
    using assms(1) by (simp_all add: receiver_ok_def)
  from processWidebandChunk_total [OF i(1) assms(2), of L, unfolded i(2,3)] assms(3) obtain bs where
    o: "outs = (if bs = [] then [] else map (\<lambda>cb. (cb, bs)) (callbacks v))"
      "length bs = 2 * (n div nat (decimationFactor v))" "\<forall>b \<in> set bs. 1 \<le> unat b"
      "vrx_inv v'" "callbacks v' = callbacks v" by auto
  have "whole_rounds (callbacks v) (rt_handed r @ outs)"
    unfolding o(1) using assms(1) o(2,3) by (intro whole_rounds_more) (simp_all add: receiver_ok_def)
  then have "receiver_ok L v (r\<lparr>rt_vrx := v', rt_handed := rt_handed r @ outs\<rparr>)"
    using assms(1) o(4,5) processWidebandChunk_factor [OF assms(3)] frozen_chunk [OF assms(3), of v]
    by (simp add: receiver_ok_def)
  with o(1,2) show ?thesis by blast
qed

lemma receiver_rtl_callback:
  assumes "receiver_ok L v r" and "even (length data)"
  shows "receiver_ok L v (r\<lparr>rt_rtl := rtl_deliver res data (rt_rtl r), rt_done := rt_done r @ [(RtlTcpBroadcast, data)]\<rparr>)"
proof -
  have "rtl_step L StreamThread (rtl_with (frozen v (rt_vrx r)) (rt_rtl r))
      (rtl_deliver res data (rtl_with (frozen v (rt_vrx r)) (rt_rtl r)))"
    by (rule rtl_broadcast [OF assms(2)])
  then have "rtl_reachable L v (rtl_with (frozen v (rt_vrx r)) (rtl_deliver res data (rt_rtl r)))"
    using assms(1) rtl_reachable_step by (fastforce simp: receiver_ok_def)
  moreover have "srv_sent (rtl_deliver res data (rt_rtl r)) = srv_sent (rt_rtl r) @ [data]"
    by (simp add: rtl_deliver_def)
  ultimately show ?thesis using assms(1) by (simp add: receiver_ok_def)
qed

lemma broadcast_with: "spyBroadcastIq data (ctx_with v c) = ctx_with v (spyBroadcastIq data c)"
  by (simp add: spyBroadcastIq_def ctx_with_def split: prod.split)

lemma receiver_spy_callback:
  assumes "receiver_ok L v r" and "rt_spy r = Some s" and "ss_lock s = None"
  shows "receiver_ok L v (r\<lparr>rt_spy := Some (s\<lparr>ss_ctx := spyBroadcastIq data (ss_ctx s)\<rparr>),
    rt_done := rt_done r @ [(SpyServerBroadcast, data)]\<rparr>)"
proof -
  let ?w = "frozen v (rt_vrx r)"
  have "spy_step L StreamThread (spy_with ?w s) (spy_with ?w (s\<lparr>ss_ctx := spyBroadcastIq data (ss_ctx s)\<rparr>))"
    using broadcast [of "spy_with ?w s" L data] assms(3) by (simp add: broadcast_with spy_with_updates)
  then have "spy_reachable L v (spy_with ?w (s\<lparr>ss_ctx := spyBroadcastIq data (ss_ctx s)\<rparr>))"
    using assms(1,2) spy_next by (fastforce simp: receiver_ok_def)
  moreover have "subseq (iq_chunks fd (spyBroadcastIq data (ss_ctx s))) (chunks_for SpyServerBroadcast (rt_done r) @ [data])" for fd
  proof -
    have "tsorted (clients (ss_ctx s))"
      using reachable_sorted [of L v "spy_with ?w s"] assms(1,2) by (simp add: receiver_ok_def)
    from broadcast_iq [OF this, of fd data] obtain ds where
      "iq_chunks fd (spyBroadcastIq data (ss_ctx s)) = iq_chunks fd (ss_ctx s) @ ds" "ds = [] \<or> ds = [data]" by blast
    moreover have "subseq (iq_chunks fd (ss_ctx s)) (chunks_for SpyServerBroadcast (rt_done r))"
      using assms(1,2) by (simp add: receiver_ok_def)
    ultimately show ?thesis by (auto intro: list_emb_append_mono)
  qed
  ultimately show ?thesis using assms(1,2) by (auto simp: receiver_ok_def)
qed

text \<open>A retune by one endpoint is a step of the other endpoint's environment.\<close>

lemma rtl_other:
  assumes "rtl_reachable L v (rtl_with (frozen v w) s)" and "hertz_retuned L w w'"
  shows "rtl_reachable L v (rtl_with (frozen v w') s)"
proof (cases "w' = w")
  case False
  then obtain f :: u32 where "w' = try_retune (retune L) w (f64_of_int (uint f))"
    using assms(2) by (auto simp: hertz_retuned_def)
  then have "rtl_step L OtherEndpoint (rtl_with (frozen v w) s) (rtl_with (frozen v w') s)"
    using rtl_other_retune [of L "rtl_with (frozen v w) s" f] by (simp add: frz.retune_view rtl_with_updates)
  with assms(1) show ?thesis by (rule rtl_reachable_step)
qed (use assms(1) in simp)

lemma spy_other:
  assumes "spy_reachable L v (spy_with (frozen v w) s)" and "hertz_retuned L w w'"
  shows "spy_reachable L v (spy_with (frozen v w') s)"
proof (cases "w' = w")
  case False
  then obtain f :: u32 where "w' = try_retune (retune L) w (f64_of_int (uint f))"
    using assms(2) by (auto simp: hertz_retuned_def)
  then have "spy_step L OtherEndpoint (spy_with (frozen v w) s) (spy_with (frozen v w') s)"
    using other_retune [of L "spy_with (frozen v w) s" f]
    by (simp add: frz.retune_view) (simp add: spy_with_def ctx_with_def)
  with assms(1) show ?thesis by (rule spy_next)
qed (use assms(1) in simp)

lemma rtl_step_sent: "rtl_step L a s s' \<Longrightarrow> a \<noteq> StreamThread \<Longrightarrow> srv_sent s' = srv_sent s"
  by (induction rule: rtl_step.induct) simp_all

lemma receiver_rtl_thread:
  assumes "receiver_ok L v r" and "rtl_step L a (rtl_with (rt_vrx r) (rt_rtl r)) s'" and "a \<noteq> StreamThread"
  shows "receiver_ok L v (r\<lparr>rt_vrx := srv_vrx s', rt_rtl := s'\<rparr>)"
proof -
  have t: "hertz_retuned L (rt_vrx r) (srv_vrx s')" using rtl_step_retunes [OF assms(2)] by simp
  have "rtl_step L a (rtl_with (frozen v (rt_vrx r)) (rt_rtl r)) (rtl_with (frozen v (srv_vrx s')) s')"
    using frz.rtl_view [OF assms(2), of v] by simp
  then have "rtl_reachable L v (rtl_with (frozen v (srv_vrx s')) s')"
    using assms(1) rtl_reachable_step by (fastforce simp: receiver_ok_def)
  moreover have "spy_reachable L v (spy_with (frozen v (srv_vrx s')) s)" if "rt_spy r = Some s" for s
    using assms(1) that spy_other [OF _ t] by (simp add: receiver_ok_def)
  moreover have "srv_sent s' = srv_sent (rt_rtl r)" using rtl_step_sent [OF assms(2,3)] by simp
  ultimately show ?thesis using assms(1) retuned_kept [OF t] by (simp add: receiver_ok_def)
qed

lemma receiver_spy_thread:
  assumes "receiver_ok L v r" and "rt_spy r = Some s" and "spy_step L a (spy_with (rt_vrx r) s) s'"
    and "a \<noteq> StreamThread"
  shows "receiver_ok L v (r\<lparr>rt_vrx := sp_vrx (ss_ctx s'), rt_spy := Some s'\<rparr>)"
proof -
  have t: "hertz_retuned L (rt_vrx r) (sp_vrx (ss_ctx s'))" using spy_step_retunes [OF assms(3)] by simp
  have "spy_step L a (spy_with (frozen v (rt_vrx r)) s) (spy_with (frozen v (sp_vrx (ss_ctx s'))) s')"
    using frz.spy_view [OF assms(3), of v] by simp
  then have "spy_reachable L v (spy_with (frozen v (sp_vrx (ss_ctx s'))) s')"
    using assms(1,2) spy_next by (fastforce simp: receiver_ok_def)
  moreover have "rtl_reachable L v (rtl_with (frozen v (sp_vrx (ss_ctx s'))) (rt_rtl r))"
    using assms(1) rtl_other [OF _ t] by (simp add: receiver_ok_def)
  moreover have "iq_chunks fd (ss_ctx s') = iq_chunks fd (ss_ctx s)" for fd
    using spy_step_iq [OF assms(3,4)] by simp
  ultimately show ?thesis using assms(1,2) retuned_kept [OF t] by (simp add: receiver_ok_def)
qed

lemma receiver_rtl_distinct: "receiver_ok L v r \<Longrightarrow> distinct (rtl_open_fds (rt_rtl r))"
  using rtl_open_distinct [of L v "rtl_with (frozen v (rt_vrx r)) (rt_rtl r)"] by (simp add: receiver_ok_def)

lemma receiver_spy_distinct: "receiver_ok L v r \<Longrightarrow> rt_spy r = Some s \<Longrightarrow> distinct (spy_open_fds s)"
  using spy_open_distinct [of L v "spy_with (frozen v (rt_vrx r)) s"] by (simp add: receiver_ok_def)

section \<open>The invariant of the program\<close>

fun pending :: "nat \<Rightarrow> stream_task list \<Rightarrow> (callback \<times> bytes) list" where
  "pending i [] = []"
| "pending i (Process j # ts) = pending i ts"
| "pending i (RunCallback j cb data # ts) = (if i = j then [(cb, data)] else []) @ pending i ts"

lemma pending_append [simp]: "pending i (ts @ us) = pending i ts @ pending i us"
  by (induction i ts rule: pending.induct) auto

lemma pending_process [simp]: "pending i (map Process js) = []"
  by (induction js) simp_all

lemma pending_callbacks [simp]:
  "pending i (map (\<lambda>(cb, data). RunCallback j cb data) cs) = (if i = j then cs else [])"
  by (induction cs) auto

text \<open>The callbacks of one receiver that are still to run, then the receivers that have not had the chunk.\<close>

definition todo_ok :: "program \<Rightarrow> bool" where
  "todo_ok p \<longleftrightarrow> (\<exists>j cs k. pg_todo p = map (\<lambda>(cb, data). RunCallback j cb data) cs @ map Process [k..<length (pg_receivers p)] \<and>
     (cs \<noteq> [] \<longrightarrow> j < length (pg_receivers p)) \<and>
     (\<forall>(cb, data) \<in> set cs. even (length data) \<and>
        (cb = SpyServerBroadcast \<longrightarrow> rt_spy (pg_receivers p ! j) \<noteq> None)))"

definition program_inv :: "libm \<Rightarrow> vrx list \<Rightarrow> program \<Rightarrow> bool" where
  "program_inv L vs p \<longleftrightarrow> \<not> pg_fault p \<and> length (pg_receivers p) = length vs \<and>
     length (fst (pg_iq p)) = 2 * snd (pg_iq p) \<and> distinct (program_fds p) \<and> todo_ok p \<and>
     (\<forall>i < length vs. receiver_ok L (vs ! i) (pg_receivers p ! i) \<and>
        rt_handed (pg_receivers p ! i) = rt_done (pg_receivers p ! i) @ pending i (pg_todo p))"

lemma program_inv_started:
  assumes "\<forall>v \<in> set vs. ready v"
  shows "program_inv L vs (program_started nets vs)"
proof -
  have "receiver_fds (started_receiver net v) = []" for net v
    by (simp add: receiver_fds_def started_receiver_def rtl_open_fds_def rtl_initial_def spy_open_fds_def spy_started_def)
  then have "program_fds (program_started nets vs) = []" by (simp add: program_fds_def program_started_def)
  moreover have "todo_ok (program_started nets vs)"
    unfolding todo_ok_def by (intro exI [of _ 0] exI [of _ "[]"] exI [of _ "length vs"]) (simp add: program_started_def)
  moreover have "rt_handed (started_receiver net v) = []" "rt_done (started_receiver net v) = []" for net v
    by (simp_all add: started_receiver_def)
  ultimately show ?thesis
    using assms receiver_started by (simp add: program_inv_def program_started_def)
qed

lemma set_receiver_simps [simp]:
  "pg_receivers (set_receiver i r p) = (pg_receivers p)[i := r]" "pg_iq (set_receiver i r p) = pg_iq p"
  "pg_todo (set_receiver i r p) = pg_todo p" "pg_fault (set_receiver i r p) = pg_fault p"
  by (simp_all add: set_receiver_def)

lemma distinct_concat_update:
  assumes "distinct (concat (map f xs))" and "distinct (f y)" and "(set (f y) - set (f (xs ! i))) \<inter> set (concat (map f xs)) = {}"
  shows "distinct (concat (map f (xs[i := y])))"
proof (cases "i < length xs")
  case True
  then have "xs = take i xs @ xs ! i # drop (Suc i) xs" by (rule id_take_nth_drop)
  then have c: "concat (map f xs) = concat (map f (take i xs)) @ f (xs ! i) @ concat (map f (drop (Suc i) xs))"
    by (metis concat_append list.simps(9) map_append concat.simps(2))
  have "concat (map f (xs[i := y])) = concat (map f (take i xs)) @ f y @ concat (map f (drop (Suc i) xs))"
    using True by (simp add: upd_conv_take_nth_drop)
  then show ?thesis using assms(1,2,3) unfolding c by (auto simp del: set_concat)
qed (use assms(1) in \<open>simp add: list_update_beyond\<close>)

lemma inv_update:
  assumes "program_inv L vs p" and "i < length vs" and "receiver_ok L (vs ! i) r"
    and "rt_handed r = rt_done r @ pending i ts" and "\<And>j. j \<noteq> i \<Longrightarrow> pending j ts = pending j (pg_todo p)"
    and "distinct (receiver_fds r)"
    and "(set (receiver_fds r) - set (receiver_fds (pg_receivers p ! i))) \<inter> set (program_fds p) = {}"
    and "todo_ok (set_receiver i r (p\<lparr>pg_todo := ts\<rparr>))"
  shows "program_inv L vs (set_receiver i r (p\<lparr>pg_todo := ts\<rparr>))"
proof -
  have "distinct (program_fds (set_receiver i r (p\<lparr>pg_todo := ts\<rparr>)))"
    using assms(1) distinct_concat_update [OF _ assms(6) assms(7) [unfolded program_fds_def]]
    by (simp add: program_inv_def program_fds_def)
  then show ?thesis
    using assms(1-5,8) by (auto simp: program_inv_def nth_list_update)
qed

lemma todo_process:
  assumes "todo_ok p" and "pg_todo p = Process i # ts"
  shows "i < length (pg_receivers p) \<and> ts = map Process [Suc i..<length (pg_receivers p)]"
proof -
  obtain j cs k where s: "pg_todo p = map (\<lambda>(cb, data). RunCallback j cb data) cs @ map Process [k..<length (pg_receivers p)]"
    using assms(1) unfolding todo_ok_def by blast
  have "cs = []" using s assms(2) by (cases cs) auto
  with s assms(2) show ?thesis by (auto simp: upt_eq_Cons_conv)
qed

lemma todo_callback:
  assumes "todo_ok p" and "pg_todo p = RunCallback i cb data # ts"
  shows "\<exists>cs k. ts = map (\<lambda>(cb, data). RunCallback i cb data) cs @ map Process [k..<length (pg_receivers p)] \<and>
    i < length (pg_receivers p) \<and> even (length data) \<and>
    (cb = SpyServerBroadcast \<longrightarrow> rt_spy (pg_receivers p ! i) \<noteq> None) \<and>
    (\<forall>(cb, data) \<in> set cs. even (length data) \<and>
       (cb = SpyServerBroadcast \<longrightarrow> rt_spy (pg_receivers p ! i) \<noteq> None))"
proof -
  obtain j cs k where s: "pg_todo p = map (\<lambda>(cb, data). RunCallback j cb data) cs @ map Process [k..<length (pg_receivers p)]"
    "cs \<noteq> [] \<longrightarrow> j < length (pg_receivers p)"
    "\<forall>(cb, data) \<in> set cs. even (length data) \<and> (cb = SpyServerBroadcast \<longrightarrow> rt_spy (pg_receivers p ! j) \<noteq> None)"
    using assms(1) unfolding todo_ok_def by blast
  then obtain c cs' where c: "cs = c # cs'" using assms(2) by (cases cs; cases "k < length (pg_receivers p)") (auto simp: upt_rec)
  with s assms(2) show ?thesis by (intro exI [of _ cs'] exI [of _ k]) (cases c; auto)
qed

text \<open>A list of tasks stays in order when a receiver keeps its SpyServer.\<close>

lemma todo_receiver:
  assumes "todo_ok p" and "rt_spy r = None \<longleftrightarrow> rt_spy (pg_receivers p ! i) = None"
  shows "todo_ok (set_receiver i r p)"
proof -
  have "rt_spy (pg_receivers (set_receiver i r p) ! j) = None \<longleftrightarrow> rt_spy (pg_receivers p ! j) = None" for j
    using assms(2) by (cases "i < length (pg_receivers p)") (auto simp: nth_list_update list_update_beyond)
  then show ?thesis using assms(1) by (simp add: todo_ok_def)
qed

lemma todo_rest:
  assumes "todo_ok p" and "pg_todo p = RunCallback i cb data # ts"
  shows "todo_ok (p\<lparr>pg_todo := ts\<rparr>)"
  using todo_callback [OF assms] unfolding todo_ok_def by fastforce

lemma pending_rest: "pg_todo p = RunCallback i cb data # ts \<Longrightarrow> j \<noteq> i \<Longrightarrow> pending j ts = pending j (pg_todo p)"
  by simp

lemma inv_receiver:
  assumes "program_inv L vs p" and "i < length vs"
  shows "receiver_ok L (vs ! i) (pg_receivers p ! i)"
    and "rt_handed (pg_receivers p ! i) = rt_done (pg_receivers p ! i) @ pending i (pg_todo p)"
    and "distinct (receiver_fds (pg_receivers p ! i))"
    and "set (receiver_fds (pg_receivers p ! i)) \<subseteq> set (program_fds p)"
proof -
  have m: "pg_receivers p ! i \<in> set (pg_receivers p)" using assms by (simp add: program_inv_def)
  then show "set (receiver_fds (pg_receivers p ! i)) \<subseteq> set (program_fds p)" by (auto simp: program_fds_def)
  from m show "distinct (receiver_fds (pg_receivers p ! i))"
    using assms(1) by (auto simp: program_inv_def program_fds_def distinct_concat_iff)
qed (use assms in \<open>simp_all add: program_inv_def\<close>)

text \<open>The chunk goes through a receiver.\<close>

lemma inv_chunk:
  assumes "program_inv L vs p" and "pg_todo p = Process i # ts" and "r = pg_receivers p ! i"
    and "processWidebandChunk L (rt_vrx r) (fst (pg_iq p)) (snd (pg_iq p)) = Some (outs, v')"
  shows "program_inv L vs (set_receiver i (r\<lparr>rt_vrx := v', rt_handed := rt_handed r @ outs\<rparr>)
    (p\<lparr>pg_todo := map (\<lambda>(cb, data). RunCallback i cb data) outs @ ts\<rparr>))" (is "program_inv L vs (set_receiver i ?r (p\<lparr>pg_todo := ?ts\<rparr>))")
proof -
  have inv: "length (pg_receivers p) = length vs" "todo_ok p" "length (fst (pg_iq p)) = 2 * snd (pg_iq p)"
    using assms(1) by (simp_all add: program_inv_def)
  note t = todo_process [OF inv(2) assms(2)]
  then have i: "i < length vs" using inv(1) by simp
  note r = inv_receiver [OF assms(1) i, folded assms(3)]
  obtain bs where k: "receiver_ok L (vs ! i) ?r"
    and o: "outs = (if bs = [] then [] else map (\<lambda>cb. (cb, bs)) (callbacks (vs ! i)))"
      "length bs = 2 * (snd (pg_iq p) div nat (decimationFactor (vs ! i)))"
    using receiver_chunk [OF r(1) inv(3) assms(4)] by auto
  have "\<forall>(cb, data) \<in> set outs. even (length data) \<and> (cb = SpyServerBroadcast \<longrightarrow> rt_spy r \<noteq> None)"
    using r(1) o by (auto simp: receiver_ok_def)
  then have "todo_ok (set_receiver i ?r (p\<lparr>pg_todo := ?ts\<rparr>))"
    unfolding todo_ok_def using t inv(1) i by (intro exI [of _ i] exI [of _ outs] exI [of _ "Suc i"]) auto
  then show ?thesis
    using assms i k r(2,3) t by (intro inv_update) (auto simp: receiver_fds_def)
qed

text \<open>A callback has run.\<close>

lemma inv_callback:
  assumes "program_inv L vs p" and "pg_todo p = RunCallback i cb data # ts" and "r = pg_receivers p ! i"
    and "receiver_ok L (vs ! i) r'" and "rt_handed r' = rt_handed r" and "rt_done r' = rt_done r @ [(cb, data)]"
    and "receiver_fds r' = receiver_fds r"
  shows "program_inv L vs (set_receiver i r' (p\<lparr>pg_todo := ts\<rparr>))"
proof -
  have inv: "length (pg_receivers p) = length vs" "todo_ok p" using assms(1) by (simp_all add: program_inv_def)
  have i: "i < length vs" using todo_callback [OF inv(2) assms(2)] inv(1) by auto
  note r = inv_receiver [OF assms(1) i, folded assms(3)]
  have "rt_spy r' = None \<longleftrightarrow> rt_spy r = None" using assms(4) r(1) by (simp add: receiver_ok_def)
  then have "todo_ok (set_receiver i r' (p\<lparr>pg_todo := ts\<rparr>))"
    using todo_receiver [OF todo_rest [OF inv(2) assms(2)], of r' i] assms(3) by simp
  then show ?thesis
    using assms i r(2,3) pending_rest [OF assms(2)] by (intro inv_update) auto
qed

text \<open>A thread of a server moves.\<close>

lemma inv_thread:
  assumes "program_inv L vs p" and "i < length vs" and "r = pg_receivers p ! i" and "receiver_ok L (vs ! i) r'"
    and "rt_handed r' = rt_handed r" and "rt_done r' = rt_done r" and "distinct (receiver_fds r')"
    and "(set (receiver_fds r') - set (receiver_fds r)) \<inter> set (program_fds p) = {}"
  shows "program_inv L vs (set_receiver i r' p)"
proof -
  note r = inv_receiver [OF assms(1,2), folded assms(3)]
  have "rt_spy r' = None \<longleftrightarrow> rt_spy r = None" using assms(4) r(1) by (simp add: receiver_ok_def)
  then have "todo_ok (set_receiver i r' p)"
    using assms(1,3) by (intro todo_receiver) (simp_all add: program_inv_def)
  then have "program_inv L vs (set_receiver i r' (p\<lparr>pg_todo := pg_todo p\<rparr>))"
    using assms r(2) by (intro inv_update) simp_all
  then show ?thesis by simp
qed

lemma program_inv_step:
  assumes "program_step L a p p'" and "program_inv L vs p"
  shows "program_inv L vs p'"
proof -
  have inv: "length (pg_receivers p) = length vs" "todo_ok p" "length (fst (pg_iq p)) = 2 * snd (pg_iq p)"
    using assms(2) by (simp_all add: program_inv_def)
  note rcv = inv_receiver [OF assms(2)]
  show ?thesis using assms(1)
  proof (cases rule: program_step.cases)
    case (chunk_arrives iq n)
    have "todo_ok p'" unfolding todo_ok_def chunk_arrives
      by (intro exI [of _ 0] exI [of _ "[]"] exI [of _ 0]) simp
    with chunk_arrives assms(2) show ?thesis by (simp add: program_inv_def program_fds_def)
  next
    case (chunk_processed i ts r outs v')
    then show ?thesis using inv_chunk [OF assms(2)] by simp
  next
    case (chunk_faults i ts)
    then have i: "i < length vs" using todo_process [OF inv(2)] inv(1) by auto
    then have "vrx_inv (rt_vrx (pg_receivers p ! i))" using rcv(1) by (simp add: receiver_ok_def)
    from processWidebandChunk_total [OF this inv(3), of L] chunk_faults show ?thesis by simp
  next
    case (rtl_callback i data ts r res)
    obtain i: "i < length vs" and d: "even (length data)" using todo_callback [OF inv(2) rtl_callback(3)] inv(1) by auto
    show ?thesis unfolding rtl_callback(2)
      using receiver_rtl_callback [OF rcv(1) [OF i] d, of res] rtl_callback(4)
      by (intro inv_callback [OF assms(2) rtl_callback(3,4)]) (simp_all add: receiver_fds_def rtl_open_fds_def rtl_deliver_def)
  next
    case (spy_callback i data ts r s)
    obtain i: "i < length vs" using todo_callback [OF inv(2) spy_callback(3)] inv(1) by auto
    show ?thesis unfolding spy_callback(2)
      using receiver_spy_callback [OF rcv(1) [OF i, folded spy_callback(4)] spy_callback(5,6), of data] spy_callback(5)
      by (intro inv_callback [OF assms(2) spy_callback(3,4)]) (simp_all add: receiver_fds_def spy_open_fds_def)
  next
    case (rtl_thread i r a' s')
    have i: "i < length vs" using rtl_thread(3) inv(1) by simp
    have k: "receiver_ok L (vs ! i) (r\<lparr>rt_vrx := srv_vrx s', rt_rtl := s'\<rparr>)"
      using rtl_thread(5) by (intro receiver_rtl_thread [OF rcv(1) [OF i, folded rtl_thread(4)] rtl_thread(6)]) simp
    have "set (rtl_open_fds s') \<inter> set (case rt_spy r of None \<Rightarrow> [] | Some s \<Rightarrow> spy_open_fds s) = {}"
      using rcv(3,4) [OF i, folded rtl_thread(4)] rtl_thread(7) unfolding receiver_fds_def distinct_append set_append by blast
    then show ?thesis unfolding rtl_thread(2)
      using rcv(3) [OF i, folded rtl_thread(4)] receiver_rtl_distinct [OF k] rtl_thread(7)
      by (intro inv_thread [OF assms(2) i rtl_thread(4) k]) (auto simp: receiver_fds_def)
  next
    case (spy_thread i r s a' s')
    have i: "i < length vs" using spy_thread(3) inv(1) by simp
    have k: "receiver_ok L (vs ! i) (r\<lparr>rt_vrx := sp_vrx (ss_ctx s'), rt_spy := Some s'\<rparr>)"
      using spy_thread(6) by (intro receiver_spy_thread [OF rcv(1) [OF i, folded spy_thread(4)] spy_thread(5,7)]) simp
    have "set (rtl_open_fds (rt_rtl r)) \<inter> set (spy_open_fds s') = {}"
      using rcv(3,4) [OF i, folded spy_thread(4)] spy_thread(5,8) by (auto simp: receiver_fds_def)
    then show ?thesis unfolding spy_thread(2)
      using rcv(3) [OF i, folded spy_thread(4)] receiver_spy_distinct [OF k] spy_thread(5,8)
      by (intro inv_thread [OF assms(2) i spy_thread(4) k]) (auto simp: receiver_fds_def)
  qed
qed

lemma program_inv_reachable:
  assumes "program_reachable L vs p" and "\<forall>v \<in> set vs. ready v"
  shows "program_inv L vs p"
  using assms(1) by induction (auto intro: program_inv_started [OF assms(2)] program_inv_step)

lemma ready_callbacks:
  assumes "vrx_inv v" and "callbacks v = []"
  shows "ready (if p \<noteq> (0 :: u16) then addIqCallback (addIqCallback v RtlTcpBroadcast) SpyServerBroadcast
    else addIqCallback v RtlTcpBroadcast)"
  using assms by (auto simp: ready_def addIqCallback_def vrx_inv_def within_span_def span_lo_def span_hi_def)

text \<open>
  Property C35: when \<open>main\<close> has built its receivers and both loops have started their servers, the receivers are
  the ones the threads start from: each satisfies its invariant, is tuned as configured and feeds its rtl_tcp
  server and, exactly when the configuration gives it a \<open>spyserver_port\<close>, then its SpyServer.
\<close>

theorem main_starts_program:
  assumes "mapr (\<lambda>vc. mk_vrx (e_libm E) vc (centerFrequencyHz cfg) (sampleRateHz cfg)) (virtualReceivers cfg) = Inr vrxs"
    and "start_servers rtl_start (\<lambda>_. True) (e_rtl_os E) 0 (zip (map tcpPort (virtualReceivers cfg)) vrxs) = (None, evs, ls, vs1)"
    and "start_servers spy_start (\<lambda>p. p \<noteq> 0) (e_spy_os E) 0 (zip (map spyserverPort (virtualReceivers cfg)) vs1) = (None, evs', sls, vs)"
  shows "(\<exists>r evs src'. start_all E cfg src vrxs = (r, evs, ls, sls, vs, src')) \<and>
    list_all2 (\<lambda>vc v. ready v \<and> vr_centerFrequencyHz v = vc_centerFrequencyHz vc \<and>
      (rt_spy (started_receiver net v) \<noteq> None \<longleftrightarrow> spyserverPort vc \<noteq> 0)) (virtualReceivers cfg) vs"
proof
  show "\<exists>r evs src'. start_all E cfg src vrxs = (r, evs, ls, sls, vs, src')"
    using assms(2,3) by (simp add: start_all_def split: prod.split)
  let ?ps = "map spyserverPort (virtualReceivers cfg)"
  have l: "length vrxs = length (virtualReceivers cfg)" using mapr_Inr_length [OF assms(1)] .
  have "vs1 = map (\<lambda>v. addIqCallback v RtlTcpBroadcast) vrxs"
    using rtl_start.start_servers_callbacks [OF assms(2)] l by (simp add: list_eq_iff_nth_eq)
  then have vs: "vs = map (\<lambda>(p, v). if p \<noteq> 0 then addIqCallback (addIqCallback v RtlTcpBroadcast) SpyServerBroadcast
      else addIqCallback v RtlTcpBroadcast) (zip ?ps vrxs)"
    using spy_start.start_servers_callbacks [OF assms(3)] l by (simp add: list_eq_iff_nth_eq)
  have m: "mk_vrx (e_libm E) (virtualReceivers cfg ! i) (centerFrequencyHz cfg) (sampleRateHz cfg) = Inr (vrxs ! i)"
    if "i < length vrxs" for i using assms(1) that by (simp add: mapr_Inr_iff list_all2_conv_all_nth)
  show "list_all2 (\<lambda>vc v. ready v \<and> vr_centerFrequencyHz v = vc_centerFrequencyHz vc \<and>
      (rt_spy (started_receiver net v) \<noteq> None \<longleftrightarrow> spyserverPort vc \<noteq> 0)) (virtualReceivers cfg) vs"
    unfolding list_all2_conv_all_nth
  proof (intro conjI allI impI)
    fix i assume i: "i < length (virtualReceivers cfg)"
    note v = mk_vrx_inv [OF m [OF i [folded l]]]
    have n: "vs ! i = (if spyserverPort (virtualReceivers cfg ! i) \<noteq> 0
        then addIqCallback (addIqCallback (vrxs ! i) RtlTcpBroadcast) SpyServerBroadcast
        else addIqCallback (vrxs ! i) RtlTcpBroadcast)" using i l by (simp add: vs)
    show "ready (vs ! i)" unfolding n using v by (intro ready_callbacks) simp_all
    show "vr_centerFrequencyHz (vs ! i) = vc_centerFrequencyHz (virtualReceivers cfg ! i)"
      using v by (simp add: n addIqCallback_def)
    show "(rt_spy (started_receiver net (vs ! i)) \<noteq> None) = (spyserverPort (virtualReceivers cfg ! i) \<noteq> 0)"
      using v by (simp add: n addIqCallback_def started_receiver_def)
  qed (simp add: vs l)
qed

text \<open>
  Property C7: the endpoints compose. In every interleaving of the threads of the whole program, each rtl_tcp
  server and each SpyServer is, on its receiver with the signal path frozen, in a state that it reaches
  alone, with the other endpoint's retunes as its environment: every property of the servers of
  \<open>RtlThreads\<close> and \<open>SpyThreads\<close> holds in the program.
\<close>

theorem program_refines_servers:
  assumes "program_reachable L vs p" and "\<forall>v \<in> set vs. ready v" and "i < length vs"
  shows "let r = pg_receivers p ! i in
    rtl_reachable L (vs ! i) ((rt_rtl r)\<lparr>srv_vrx := frozen (vs ! i) (rt_vrx r)\<rparr>) \<and>
    (\<forall>s. rt_spy r = Some s \<longrightarrow>
       spy_reachable L (vs ! i) (s\<lparr>ss_ctx := (ss_ctx s)\<lparr>sp_vrx := frozen (vs ! i) (rt_vrx r)\<rparr>\<rparr>))"
  using inv_receiver(1) [OF program_inv_reachable [OF assms(1,2)] assms(3)]
  by (simp add: receiver_ok_def rtl_with_def spy_with_def ctx_with_def Let_def)

text \<open>
  Property C1: in every interleaving of all threads of the program no chunk leaves its buffers and no
  descriptor belongs to two connections of any of the servers; each receiver keeps its invariant, its
  callbacks and its decimation, hands every chunk to every endpoint, in order, as whole I/Q pairs without a
  zero byte, and the endpoints have taken a prefix of that; what an rtl_tcp client was sent is the
  greeting and pieces of every chunk its server has taken since some point, in order; the IQ messages passed to
  \<open>send\<close> for a SpyServer client carry chunks its server has taken, unchanged, none twice and in order, and
  its connection carries, in order, what the kernel took of each message: all of it, a prefix or nothing.
\<close>

theorem program_invariant:
  assumes "program_reachable L vs p" and "\<forall>v \<in> set vs. ready v"
  shows "\<not> pg_fault p \<and> distinct (program_fds p) \<and> length (pg_receivers p) = length vs \<and>
    (\<forall>i < length vs. let r = pg_receivers p ! i in
       vrx_inv (rt_vrx r) \<and> callbacks (rt_vrx r) = callbacks (vs ! i) \<and>
       decimationFactor (rt_vrx r) = decimationFactor (vs ! i) \<and>
       whole_rounds (callbacks (vs ! i)) (rt_handed r) \<and>
       (\<exists>later. rt_handed r = rt_done r @ later) \<and>
       (\<forall>fd \<in> set (clientFds (rt_rtl r)). \<exists>g before bs.
          chunks_for RtlTcpBroadcast (rt_done r) = before @ map snd bs \<and>
          srv_wire (rt_rtl r) fd = taken g buildDongleInfoHeader @ received bs) \<and>
       (\<forall>s fd. rt_spy r = Some s \<longrightarrow>
          subseq (iq_chunks fd (ss_ctx s)) (chunks_for SpyServerBroadcast (rt_done r)) \<and>
          (\<exists>rs. length rs = length (sent_to fd (ss_ctx s)) \<and>
             taken_to fd (ss_ctx s) = received (zip rs (sent_to fd (ss_ctx s))))))"
proof -
  have p: "program_inv L vs p" by (rule program_inv_reachable [OF assms])
  have "\<exists>g before bs. chunks_for RtlTcpBroadcast (rt_done (pg_receivers p ! i)) = before @ map snd bs \<and>
      srv_wire (rt_rtl (pg_receivers p ! i)) fd = taken g buildDongleInfoHeader @ received bs"
    if i: "i < length vs" and f: "fd \<in> set (clientFds (rt_rtl (pg_receivers p ! i)))" for i fd
  proof -
    have o: "receiver_ok L (vs ! i) (pg_receivers p ! i)" by (rule inv_receiver(1) [OF p i])
    have "ready (vs ! i)" using assms(2) i by simp
    then have "within_span (vs ! i) (vr_centerFrequencyHz (vs ! i))" by (simp add: ready_def vrx_inv_def)
    from client_carries [OF _ this, of L "rtl_with (frozen (vs ! i) (rt_vrx (pg_receivers p ! i))) (rt_rtl (pg_receivers p ! i))" fd]
    show ?thesis using o f by (simp add: receiver_ok_def)
  qed
  moreover have "\<exists>rs. length rs = length (sent_to fd (ss_ctx s)) \<and>
      taken_to fd (ss_ctx s) = received (zip rs (sent_to fd (ss_ctx s)))"
    if i: "i < length vs" and s: "rt_spy (pg_receivers p ! i) = Some s" for i s fd
    using inv_receiver(1) [OF p i] s
      reachable_taken [of L "vs ! i" "spy_with (frozen (vs ! i) (rt_vrx (pg_receivers p ! i))) s" fd]
    by (simp add: receiver_ok_def)
  moreover note inv_receiver(1,2) [OF p]
  ultimately show ?thesis using p by (auto simp: program_inv_def receiver_ok_def Let_def)
qed

section \<open>The streaming thread\<close>

text \<open>A SpyServer's mutex is held by the \<open>send\<close> of a reply to client \<open>fd\<close>.\<close>

definition reply_held :: "nat \<Rightarrow> int \<Rightarrow> program \<Rightarrow> bool" where
  "reply_held i fd p \<longleftrightarrow> (\<exists>s. rt_spy (pg_receivers p ! i) = Some s \<and> ss_lock s = Some fd)"

lemma receiver_released:
  assumes "receiver_ok L v r" and "rt_spy r = Some s" and "ss_lock s = Some fd"
    and "within_span v (vr_centerFrequencyHz v)"
  shows "\<exists>s'. spy_step L (ReadThread fd) (spy_with (rt_vrx r) s) s' \<and> ss_lock s' = None \<and> spy_open_fds s' = spy_open_fds s"
proof -
  have "spy_inv v (spy_with (frozen v (rt_vrx r)) s)"
    using assms(1,2) by (intro spy_inv_reachable [OF _ assms(4), of L]) (simp add: receiver_ok_def)
  then obtain pc where "(fd, pc) \<in> set (ss_readers s)" "is_sending pc" using assms(3) by (auto simp: spy_inv_def)
  then obtain ts b us ws where u: "ss_readers s = us @ (fd, Sending ts b) # ws"
    by (cases pc) (auto dest: split_list)
  let ?s = "spy_with (rt_vrx r) s"
  have "reader_step L fd (ss_ctx ?s, ss_lock ?s, Sending ts b) (ss_ctx ?s, None, Running ts b)"
    using assms(3) by (simp add: send_return)
  from spy_step.reader [OF _ this, of us ws] u show ?thesis
    by (intro exI conjI) (assumption | simp add: spy_open_fds_def)+
qed

text \<open>
  Property C16: the streaming thread never gets stuck on its own. With a chunk in hand it can always take its
  next step, unless that step is the callback of a SpyServer whose mutex is held by the blocking \<open>send\<close> of a
  reply; then the thread in that \<open>send\<close> can step and release it.
\<close>

theorem streaming_progress:
  assumes "program_reachable L vs p" and "\<forall>v \<in> set vs. ready v" and "pg_todo p \<noteq> []"
  shows "(\<exists>p'. program_step L Streaming p p' \<and> \<not> pg_fault p') \<or>
    (\<exists>i fd data ts. i < length vs \<and> pg_todo p = RunCallback i SpyServerBroadcast data # ts \<and> reply_held i fd p \<and>
       (\<exists>p'. program_step L (SpyThread i (ReadThread fd)) p p' \<and> (\<exists>p''. program_step L Streaming p' p'')))"
proof -
  have inv: "program_inv L vs p" by (rule program_inv_reachable [OF assms(1,2)])
  then have n: "length (pg_receivers p) = length vs" "todo_ok p" "length (fst (pg_iq p)) = 2 * snd (pg_iq p)"
    by (simp_all add: program_inv_def)
  have go: "\<exists>p'. program_step L Streaming p p' \<and> \<not> pg_fault p'" if "program_step L Streaming p p'" for p'
    using that program_inv_step [OF that inv] by (auto simp: program_inv_def)
  show ?thesis
  proof (cases "hd (pg_todo p)")
    case (Process i)
    then have t: "pg_todo p = Process i # tl (pg_todo p)" using assms(3) by (cases "pg_todo p") auto
    then have "i < length vs" using todo_process [OF n(2) t] n(1) by simp
    then have "vrx_inv (rt_vrx (pg_receivers p ! i))" using inv_receiver(1) [OF inv] by (simp add: receiver_ok_def)
    from processWidebandChunk_total [OF this n(3), of L] chunk_processed [OF t refl] go show ?thesis by blast
  next
    case (RunCallback i cb data)
    then have t: "pg_todo p = RunCallback i cb data # tl (pg_todo p)" using assms(3) by (cases "pg_todo p") auto
    then have i: "i < length vs" and s: "cb = SpyServerBroadcast \<longrightarrow> rt_spy (pg_receivers p ! i) \<noteq> None"
      using todo_callback [OF n(2) t] n(1) by auto
    show ?thesis
    proof (cases cb)
      case RtlTcpBroadcast
      with rtl_callback [OF t [unfolded RtlTcpBroadcast] refl] go show ?thesis by blast
    next
      case SpyServerBroadcast
      then obtain s where s: "rt_spy (pg_receivers p ! i) = Some s" using s by auto
      show ?thesis
      proof (cases "ss_lock s")
        case None
        with spy_callback [OF t [unfolded SpyServerBroadcast] refl s] go show ?thesis by blast
      next
        case (Some fd)
        have "ready (vs ! i)" using assms(2) i by simp
        then have "within_span (vs ! i) (vr_centerFrequencyHz (vs ! i))" by (simp add: ready_def vrx_inv_def)
        from receiver_released [OF inv_receiver(1) [OF inv i] s Some this] obtain s' where
          s': "spy_step L (ReadThread fd) (spy_with (rt_vrx (pg_receivers p ! i)) s) s'" "ss_lock s' = None"
            "spy_open_fds s' = spy_open_fds s" by blast
        let ?p = "set_receiver i ((pg_receivers p ! i)\<lparr>rt_vrx := sp_vrx (ss_ctx s'), rt_spy := Some s'\<rparr>) p"
        have "program_step L (SpyThread i (ReadThread fd)) p ?p"
          using i n(1) by (intro spy_thread [OF _ refl s _ s'(1)]) (simp_all add: s'(3))
        moreover have "\<exists>p''. program_step L Streaming ?p p''"
          using spy_callback [of ?p i data "tl (pg_todo p)" "pg_receivers ?p ! i" s' L] t SpyServerBroadcast i n(1) s'(2)
          by (auto simp: set_receiver_simps)
        moreover have "reply_held i fd p" using s Some by (simp add: reply_held_def)
        ultimately show ?thesis using i t [unfolded SpyServerBroadcast] by blast
      qed
    qed
  qed
qed

text \<open>Runs of the program, with whose steps they are.\<close>

inductive program_run :: "libm \<Rightarrow> program \<Rightarrow> program_actor list \<Rightarrow> program \<Rightarrow> bool" for L where
  prun_none: "program_run L p [] p"
| prun_step: "program_step L a p p' \<Longrightarrow> program_run L p' as p'' \<Longrightarrow> program_run L p (a # as) p''"

lemma held_update:
  assumes "reply_held i fd p" and "i < length (pg_receivers p)" and "pg_receivers q = pg_receivers p"
    and "j = i \<Longrightarrow> \<exists>s. rt_spy r = Some s \<and> ss_lock s = Some fd"
  shows "reply_held i fd (set_receiver j r q)"
  using assms by (cases "j = i") (auto simp: reply_held_def)

lemma held_step:
  assumes "program_step L a p p'" and "reply_held i fd p" and "a \<noteq> SpyThread i (ReadThread fd)"
    and "i < length (pg_receivers p)"
  shows "reply_held i fd p'"
  using assms(1)
proof (cases rule: program_step.cases)
  case (chunk_arrives iq n)
  then show ?thesis using assms(2) by (simp add: reply_held_def)
next
  case (chunk_processed j ts r outs v')
  show ?thesis unfolding chunk_processed(2)
    by (rule held_update [OF assms(2,4)]) (use chunk_processed assms(2) in \<open>auto simp: reply_held_def\<close>)
next
  case (chunk_faults j ts)
  then show ?thesis using assms(2) by (simp add: reply_held_def)
next
  case (rtl_callback j data ts r res)
  show ?thesis unfolding rtl_callback(2)
    by (rule held_update [OF assms(2,4)]) (use rtl_callback assms(2) in \<open>auto simp: reply_held_def\<close>)
next
  case (spy_callback j data ts r s)
  then have "j \<noteq> i" using assms(2) by (auto simp: reply_held_def)
  then show ?thesis unfolding spy_callback(2) by (intro held_update [OF assms(2,4)]) simp_all
next
  case (rtl_thread j r a' s')
  show ?thesis unfolding rtl_thread(2)
    by (rule held_update [OF assms(2,4)]) (use rtl_thread assms(2) in \<open>auto simp: reply_held_def\<close>)
next
  case (spy_thread j r s a' s')
  have "ss_lock s' = Some fd" if "j = i"
  proof -
    have "ss_lock (spy_with (rt_vrx r) s) = Some fd" using that spy_thread(4,5) assms(2) by (simp add: reply_held_def)
    from step_blocked [OF spy_thread(7) this] show ?thesis using that spy_thread(1) assms(3) by simp
  qed
  then show ?thesis unfolding spy_thread(2) by (intro held_update [OF assms(2,4)]) simp_all
qed

text \<open>The chunk in hand is still to pass the SpyServer of receiver \<open>i\<close>.\<close>

definition behind :: "nat \<Rightarrow> nat \<Rightarrow> program \<Rightarrow> bool" where
  "behind D i p \<longleftrightarrow> D \<le> snd (pg_iq p) \<and>
     (Process i \<in> set (pg_todo p) \<or> (\<exists>data. RunCallback i SpyServerBroadcast data \<in> set (pg_todo p)))"

lemma behind_step:
  assumes "program_step L a p p'" and "program_inv L vs p" and "reply_held i fd p" and "i < length vs"
    and "behind (nat (decimationFactor (vs ! i))) i p"
  shows "behind (nat (decimationFactor (vs ! i))) i p'"
  using assms(1)
proof (cases rule: program_step.cases)
  case (chunk_arrives iq n)
  then show ?thesis using assms(5) by (simp add: behind_def)
next
  case (chunk_processed j ts r outs v')
  show ?thesis
  proof (cases "j = i")
    case True
    have n: "length (fst (pg_iq p)) = 2 * snd (pg_iq p)" using assms(2) by (simp add: program_inv_def)
    note r = inv_receiver(1) [OF assms(2,4)]
    from receiver_chunk [OF r n, of outs v'] chunk_processed(4,5) True obtain bs where
      o: "outs = (if bs = [] then [] else map (\<lambda>cb. (cb, bs)) (callbacks (vs ! i)))"
        "length bs = 2 * (snd (pg_iq p) div nat (decimationFactor (vs ! i)))" by auto
    have "1 \<le> decimationFactor (vs ! i)" using r by (simp add: receiver_ok_def vrx_inv_def decimator_inv_def)
    then have "0 < snd (pg_iq p) div nat (decimationFactor (vs ! i))"
      using assms(5) by (simp add: behind_def div_greater_zero_iff)
    then have "bs \<noteq> []" using o(2) by auto
    moreover have "SpyServerBroadcast \<in> set (callbacks (vs ! i))" using r assms(3) by (auto simp: reply_held_def receiver_ok_def)
    ultimately have "(SpyServerBroadcast, bs) \<in> set outs" using o(1) by auto
    then have "RunCallback i SpyServerBroadcast bs \<in> set (pg_todo p')" using chunk_processed(2) True by force
    moreover have "pg_iq p' = pg_iq p" using chunk_processed(2) by simp
    ultimately show ?thesis using assms(5) by (auto simp: behind_def)
  qed (use chunk_processed(2,3) assms(5) in \<open>auto simp: behind_def\<close>)
next
  case (spy_callback j data ts r s)
  then have "j \<noteq> i" using assms(3) by (auto simp: reply_held_def)
  then show ?thesis using spy_callback(2,3) assms(5) by (auto simp: behind_def)
qed (use assms(5) in \<open>auto simp: behind_def\<close>)

lemma behind_stops: "program_step L (Upstream n) p p' \<Longrightarrow> \<not> behind D i p"
  by (cases rule: program_step.cases) (auto simp: behind_def)

text \<open>The chunks the source delivers in a run, by their sizes.\<close>

definition upstreams :: "program_actor list \<Rightarrow> nat list" where
  "upstreams as = [n. Upstream n \<leftarrow> as]"

lemma upstreams_simps [simp]: "upstreams [] = []" "upstreams (Upstream n # as) = n # upstreams as"
  "upstreams (Streaming # as) = upstreams as" "upstreams (RtlThread i a # as) = upstreams as"
  "upstreams (SpyThread i a # as) = upstreams as"
  by (simp_all add: upstreams_def)

lemma stalled_run:
  assumes "program_run L p as p'" and "program_inv L vs p" and "reply_held i fd p" and "i < length vs"
    and "SpyThread i (ReadThread fd) \<notin> set as" and "\<forall>n \<in> set (upstreams as). nat (decimationFactor (vs ! i)) \<le> n"
  shows "reply_held i fd p' \<and> length (upstreams as) \<le> (if behind (nat (decimationFactor (vs ! i))) i p then 0 else 1)"
  using assms(1-3,5,6)
proof induction
  case (prun_step a p p' as p'')
  let ?D = "nat (decimationFactor (vs ! i))"
  have n: "i < length (pg_receivers p)" using prun_step.prems(1) assms(4) by (simp add: program_inv_def)
  have i': "program_inv L vs p'" by (rule program_inv_step [OF prun_step(1) prun_step.prems(1)])
  have h': "reply_held i fd p'" by (rule held_step [OF prun_step(1) prun_step.prems(2) _ n]) (use prun_step.prems(3) in auto)
  note b' = behind_step [OF prun_step(1) prun_step.prems(1,2) assms(4)]
  show ?case
  proof (cases a)
    case (Upstream m)
    have "\<not> behind ?D i p" using prun_step(1) unfolding Upstream by (rule behind_stops)
    moreover have "behind ?D i p'"
      using prun_step(1) prun_step.prems(4) n unfolding Upstream by (cases rule: program_step.cases) (auto simp: behind_def)
    ultimately show ?thesis using prun_step.IH [OF i' h'] prun_step.prems(3,4) Upstream by simp
  qed (use prun_step.IH [OF i' h'] prun_step.prems(3,4) b' in \<open>auto split: if_splits\<close>)
qed simp

text \<open>What a receiver has handed out, and will hand out of the chunk in hand.\<close>

definition promised :: "vrx list \<Rightarrow> nat \<Rightarrow> program \<Rightarrow> nat" where
  "promised vs j p = length (rt_handed (pg_receivers p ! j)) +
     length (callbacks (vs ! j)) * count_list (pg_todo p) (Process j)"

lemma count_process: "count_list (map Process js) (Process j) = count_list js j"
  by (induction js) simp_all

lemma count_distinct: "distinct xs \<Longrightarrow> count_list xs x \<le> 1"
  by (induction xs) (auto simp: count_notin)

lemma count_upt: "count_list [k..<n] j \<le> 1"
  by (rule count_distinct) simp

lemma count_callbacks: "count_list (map (\<lambda>(cb, data). RunCallback i cb data) cs) (Process j) = 0"
  by (induction cs) auto

lemma promised_step:
  assumes "program_step L a p p'" and "program_inv L vs p" and "j < length vs"
  shows "promised vs j p' \<le> promised vs j p + (case a of Upstream n \<Rightarrow> length (callbacks (vs ! j)) | _ \<Rightarrow> 0)"
proof -
  have n: "length (fst (pg_iq p)) = 2 * snd (pg_iq p)" "j < length (pg_receivers p)"
    using assms(2,3) by (simp_all add: program_inv_def)
  show ?thesis using assms(1)
  proof (cases rule: program_step.cases)
    case (chunk_arrives iq n)
    then show ?thesis using count_upt [of 0 "length (pg_receivers p)" j] by (simp add: promised_def count_process)
  next
    case (chunk_processed i ts r outs v')
    show ?thesis
    proof (cases "i = j")
      case True
      from receiver_chunk [OF inv_receiver(1) [OF assms(2,3)] n(1), of outs v'] chunk_processed(4,5) True
      have "length outs \<le> length (callbacks (vs ! j))" by auto
      then show ?thesis using chunk_processed True n(2) by (simp add: promised_def count_callbacks)
    qed (use chunk_processed in \<open>simp add: promised_def count_callbacks\<close>)
  next
    case (rtl_callback i data ts r res)
    then show ?thesis using n(2) by (cases "i = j") (simp_all add: promised_def)
  next
    case (spy_callback i data ts r s)
    then show ?thesis using n(2) by (cases "i = j") (simp_all add: promised_def)
  next
    case (rtl_thread i r a' s')
    then show ?thesis using n(2) by (cases "i = j") (simp_all add: promised_def)
  next
    case (spy_thread i r s a' s')
    then show ?thesis using n(2) by (cases "i = j") (simp_all add: promised_def)
  qed (simp add: promised_def)
qed

lemma promised_run:
  assumes "program_run L p as p'" and "program_inv L vs p" and "j < length vs"
  shows "promised vs j p' \<le> promised vs j p + length (callbacks (vs ! j)) * length (upstreams as)"
  using assms(1,2)
proof induction
  case (prun_step a p p' as p'')
  note i' = program_inv_step [OF prun_step(1) prun_step.prems]
  show ?case using prun_step.IH [OF i'] promised_step [OF prun_step(1) prun_step.prems assms(3)] by (cases a) simp_all
qed simp

lemma promised_bound:
  assumes "program_inv L vs p"
  shows "promised vs j p \<le> length (rt_handed (pg_receivers p ! j)) + length (callbacks (vs ! j))"
proof -
  from assms obtain i cs k where
    "pg_todo p = map (\<lambda>(cb, data). RunCallback i cb data) cs @ map Process [k..<length (pg_receivers p)]"
    unfolding program_inv_def todo_ok_def by blast
  then have "count_list (pg_todo p) (Process j) \<le> 1"
    using count_upt [of k "length (pg_receivers p)" j] by (simp add: count_callbacks count_process)
  then show ?thesis using mult_le_mono2 [of _ 1] by (simp add: promised_def)
qed

text \<open>
  Property C9: one client that does not read its reply stops the whole program, when every chunk of the source
  has at least as many samples as the decimation factor of that client's receiver \<open>i\<close>, so that each chunk gives
  the receiver something to broadcast. While the \<open>send\<close> of the reply blocks, its mutex stays held whatever all
  other threads do, at most one more chunk is taken from the source, and every receiver hands out at most two
  more chunks: the clients of all endpoints of all receivers starve.
\<close>

theorem stalled_client_stops_program:
  assumes "program_reachable L vs p" and "\<forall>v \<in> set vs. ready v" and "i < length vs" and "reply_held i fd p"
    and "program_run L p as p'" and "SpyThread i (ReadThread fd) \<notin> set as"
    and "\<forall>n \<in> set (upstreams as). nat (decimationFactor (vs ! i)) \<le> n"
  shows "reply_held i fd p' \<and> length (upstreams as) \<le> 1 \<and>
    (\<forall>j < length vs. length (rt_handed (pg_receivers p' ! j)) \<le>
       length (rt_handed (pg_receivers p ! j)) + 2 * length (callbacks (vs ! j)))"
proof -
  have inv: "program_inv L vs p" by (rule program_inv_reachable [OF assms(1,2)])
  have s: "reply_held i fd p'" "length (upstreams as) \<le> 1"
    using stalled_run [OF assms(5) inv assms(4,3,6,7)] by (auto split: if_splits)
  moreover have "length (rt_handed (pg_receivers p' ! j)) \<le>
      length (rt_handed (pg_receivers p ! j)) + 2 * length (callbacks (vs ! j))" if j: "j < length vs" for j
  proof -
    have "length (rt_handed (pg_receivers p' ! j)) \<le> promised vs j p'" by (simp add: promised_def)
    also have "\<dots> \<le> promised vs j p + length (callbacks (vs ! j)) * length (upstreams as)"
      by (rule promised_run [OF assms(5) inv j])
    also have "\<dots> \<le> promised vs j p + length (callbacks (vs ! j))"
      using mult_le_mono2 [OF s(2), of "length (callbacks (vs ! j))"] by simp
    also have "\<dots> \<le> length (rt_handed (pg_receivers p ! j)) + 2 * length (callbacks (vs ! j))"
      using promised_bound [OF inv, of j] by simp
    finally show ?thesis .
  qed
  ultimately show ?thesis by blast
qed

section \<open>A concrete run\<close>

text \<open>
  The receiver of the earlier examples with both endpoints; one SpyServer client has connected and sent a
  ping, and its pong is being sent.
\<close>

definition demo_both :: vrx where
  "demo_both = addIqCallback demo_vrx SpyServerBroadcast"

lemma demo_both_ready: "\<forall>v \<in> set [demo_both]. ready v"
  using demo_vrx_inv by (simp add: ready_def demo_both_def addIqCallback_def vrx_inv_def within_span_def span_lo_def span_hi_def)

interpretation cbv: receiver_view L "\<lambda>v. addIqCallback v cb" for L cb
proof unfold_locales
  fix v f fd t
  show "addIqCallback (try_retune (retune L) v f) cb = try_retune (retune L) (addIqCallback v cb) f"
    by (simp add: try_retune_def retune_def assertWithinSpan_def addIqCallback_def span_lo_def span_hi_def)
  show "task_op fd (addIqCallback v cb) t = task_op fd v t"
    by (cases t) (simp_all add: addIqCallback_def hello_device_info_def hello_client_sync_def getSampleRateHz_def
        lo_lo_def lo_hi_def)
qed

text \<open>The program with one receiver, of which only the SpyServer has moved.\<close>

definition solo :: "vrx \<Rightarrow> spy_server \<Rightarrow> program" where
  "solo v s = (program_started (\<lambda>i. sp_net (ss_ctx s)) [v])\<lparr>pg_receivers := [(started_receiver (sp_net (ss_ctx s)) v)\<lparr>rt_vrx := sp_vrx (ss_ctx s), rt_spy := Some s\<rparr>]\<rparr>"

lemma solo_run:
  assumes "spy_run L s as s'" and "set as \<inter> {StreamThread, OtherEndpoint} = {}" and "program_reachable L [v] (solo v s)"
  shows "program_reachable L [v] (solo v s')"
  using assms
proof induction
  case (run_step a s s' as s'')
  have f: "program_fds (solo v s) = spy_open_fds s"
    by (simp add: solo_def program_fds_def receiver_fds_def started_receiver_def rtl_open_fds_def rtl_initial_def)
  have "program_step L (SpyThread 0 a) (solo v s) (set_receiver 0
      ((pg_receivers (solo v s) ! 0)\<lparr>rt_vrx := sp_vrx (ss_ctx s'), rt_spy := Some s'\<rparr>) (solo v s))"
    using run_step(1) run_step.prems(1) by (intro spy_thread [of 0 _ _ s]) (auto simp: f, simp_all add: solo_def)
  moreover have "set_receiver 0 ((pg_receivers (solo v s) ! 0)\<lparr>rt_vrx := sp_vrx (ss_ctx s'), rt_spy := Some s'\<rparr>) (solo v s) = solo v s'"
    by (simp add: solo_def set_receiver_def program_started_def started_receiver_def)
  ultimately show ?case using run_step.IH run_step.prems program_next by auto
qed simp

lemma view_run:
  assumes "spy_run L s as s'"
  shows "spy_run L (spy_with (addIqCallback (sp_vrx (ss_ctx s)) cb) s) as (spy_with (addIqCallback (sp_vrx (ss_ctx s')) cb) s')"
  using assms by induction (auto intro: run_none run_step cbv.spy_view)

definition demo_server :: spy_server where
  "demo_server = spy_with demo_both demo_sending"

abbreviation demo_net :: "nat \<Rightarrow> send_result" where "demo_net \<equiv> \<lambda>k. Accepted 20"

lemma demo_program_reachable: "program_reachable L [demo_both] (solo demo_both demo_server)"
proof -
  obtain as where as: "set as \<subseteq> {AcceptThread, ReadThread 5}" "spy_run L (spy_started demo_net demo_vrx) as demo_sending"
    using demo_sending_run by blast
  have "spy_with (addIqCallback (sp_vrx (ss_ctx (spy_started demo_net demo_vrx))) SpyServerBroadcast) (spy_started demo_net demo_vrx) = spy_started demo_net demo_both"
    by (simp add: spy_with_def ctx_with_def spy_started_def demo_both_def)
  moreover have "addIqCallback (sp_vrx (ss_ctx demo_sending)) SpyServerBroadcast = demo_both"
    by (simp add: demo_sending_def ponged_def demo_both_def)
  ultimately have "spy_run L (spy_started demo_net demo_both) as demo_server"
    using view_run [OF as(2), of SpyServerBroadcast] by (simp add: demo_server_def)
  moreover have "solo demo_both (spy_started demo_net demo_both) = program_started (\<lambda>i. demo_net) [demo_both]"
    by (simp add: solo_def program_started_def started_receiver_def spy_started_def demo_both_def addIqCallback_def)
  then have "program_reachable L [demo_both] (solo demo_both (spy_started demo_net demo_both))" by (simp add: program_start)
  ultimately show ?thesis using as(1) by - (rule solo_run, auto)
qed

lemma demo_program_simps [simp]:
  "pg_receivers (solo v s) = [(started_receiver (sp_net (ss_ctx s)) v)\<lparr>rt_vrx := sp_vrx (ss_ctx s), rt_spy := Some s\<rparr>]"
  "pg_todo (solo v s) = []" "ss_lock demo_server = Some 5"
  by (simp_all add: solo_def program_started_def demo_server_def demo_sending_def)

lemma demo_held: "reply_held 0 5 (solo demo_both demo_server)"
  by (simp add: reply_held_def)

lemma demo_chunk: "program_step L (Upstream 2) (solo v s)
    ((solo v s)\<lparr>pg_iq := (replicate 4 (Fin 1), 2), pg_todo := [Process 0]\<rparr>)"
  using chunk_arrives [of "solo v s" "replicate 4 (Fin 1)" 2 L] by simp

theorem program_refines_servers_witness:
  "\<exists>s. spy_reachable demo_libm demo_both (s\<lparr>ss_ctx := (ss_ctx s)\<lparr>sp_vrx := frozen demo_both (sp_vrx (ss_ctx s))\<rparr>\<rparr>) \<and>
     ss_lock s = Some 5"
  using program_refines_servers [OF demo_program_reachable [of demo_libm] demo_both_ready, of 0]
  by (intro exI [of _ demo_server]) (simp add: Let_def)

theorem program_invariant_witness:
  "\<exists>p. program_reachable demo_libm [demo_both] p \<and> reply_held 0 5 p \<and> \<not> pg_fault p \<and> distinct (program_fds p)"
  using program_invariant [OF demo_program_reachable [of demo_libm] demo_both_ready] demo_program_reachable [of demo_libm]
    demo_held by blast

theorem streaming_progress_witness:
  "\<exists>p. program_reachable demo_libm [demo_both] p \<and> pg_todo p = [Process 0] \<and> (\<exists>p'. program_step demo_libm Streaming p p')"
proof -
  let ?p = "(solo demo_both demo_server)\<lparr>pg_iq := (replicate 4 (Fin 1), 2), pg_todo := [Process 0]\<rparr>"
  have r: "program_reachable demo_libm [demo_both] ?p" by (rule program_next [OF demo_program_reachable demo_chunk])
  have "pg_todo ?p \<noteq> []" by simp
  from streaming_progress [OF r demo_both_ready this] have "\<exists>p'. program_step demo_libm Streaming ?p p'" by auto
  with r show ?thesis by (intro exI [of _ ?p]) simp
qed

theorem stalled_client_stops_program_witness:
  "\<exists>p p'. program_run demo_libm p [Upstream 2] p' \<and> reply_held 0 5 p' \<and> length (upstreams [Upstream 2]) \<le> 1"
proof -
  let ?p = "solo demo_both demo_server"
  obtain p' where r: "program_run demo_libm ?p [Upstream 2] p'" using prun_step [OF demo_chunk prun_none] by blast
  have "nat (decimationFactor ([demo_both] ! 0)) \<le> 2" by (simp add: demo_both_def addIqCallback_def)
  then show ?thesis
    using stalled_client_stops_program [OF demo_program_reachable demo_both_ready _ demo_held r] r by auto
qed

text \<open>The repository's configuration, with every port free.\<close>

definition free_env :: "ytree main_env" where
  "free_env = (demo_env example_doc)\<lparr>e_rtl_os := (\<lambda>_. \<lparr>os_socket = 3, os_bind = 0, os_listen = 0, os_error = []\<rparr>)\<rparr>"

theorem main_starts_program_witness:
  "\<exists>v1 v2. ready v1 \<and> rt_spy (started_receiver demo_net v1) \<noteq> None \<and> vr_centerFrequencyHz v1 = Fin 156700000 \<and>
     ready v2 \<and> rt_spy (started_receiver demo_net v2) \<noteq> None \<and> vr_centerFrequencyHz v2 = Fin 162000000"
proof -
  have cs: "centerFrequencyHz example_config = Fin (of_int 159350000)" "sampleRateHz example_config = Fin (of_int 9216000)"
    "e_libm free_env = demo_libm" by (simp_all add: example_config_def free_env_def demo_env_def)
  from mapr_vrx [OF example_whole_hertz, of demo_libm] example_inside obtain vs where
    vs: "mapr (\<lambda>vc. mk_vrx (e_libm free_env) vc (centerFrequencyHz example_config) (sampleRateHz example_config))
      (virtualReceivers example_config) = Inr vs" by (auto simp: cs)
  from mapr_Inr_length [OF this] obtain v1 v2 where v: "vs = [v1, v2]"
    by (auto simp: example_config_def length_Suc_conv)
  obtain evs ls vs1 where r: "start_servers rtl_start (\<lambda>_. True) (e_rtl_os free_env) 0
      (zip (map tcpPort (virtualReceivers example_config)) vs) = (None, evs, ls, vs1)"
    by (simp add: v example_config_def free_env_def demo_env_def rtl_start_def start_listener_def new_listener_def Let_def)
  have "length vs1 = 2" using rtl_start.start_servers_callbacks [OF r] by (simp add: v example_config_def)
  then obtain w1 w2 where w: "vs1 = [w1, w2]" by (auto simp: length_Suc_conv numeral_2_eq_2)
  obtain evs' sls vs2 where s: "start_servers spy_start (\<lambda>p. p \<noteq> 0) (e_spy_os free_env) 0
      (zip (map spyserverPort (virtualReceivers example_config)) vs1) = (None, evs', sls, vs2)"
    by (simp add: w example_config_def free_env_def demo_env_def spy_start_def start_listener_def new_listener_def Let_def)
  from main_starts_program [OF vs r s, THEN conjunct2, of demo_net] show ?thesis by (auto simp: example_config_def list_all2_Cons1)
qed

end
